(* ===== verification/Prelude.thy ===== *)
theory Prelude
  imports Main "HOL-Library.Word" "HOL-Library.Multiset"
begin

text \<open>
  Shared vocabulary of the development: Go's 64-bit sequence numbers, the \<open>error\<close> values the
  library compares or builds, the Go values carried as arguments and replies, the two wire headers
  (\<open>Request\<close> and \<open>Response\<close> of server.go), the splitting of \<open>"Service.Method"\<close> at its last dot, and
  the generic facts on maps, lists and words that the component theories share.
\<close>

named_theorems run_eval \<open>definitions the simplifier evaluates concrete runs with\<close>


section \<open>Values\<close>

type_synonym u64 = "64 word"

text \<open>
  Go's \<open>error\<close> values. The sentinels are compared by identity in the code (\<open>err == io.EOF\<close>), so each
  has a constructor of its own; \<open>ErrorString\<close> is the result of \<open>errors.New\<close>, which is never identical
  to a sentinel even when the texts agree; \<open>ServerError\<close> is the string type of client.go;
  \<open>UnmarshalError f\<close> is encoding/json's complaint about the field or type \<open>f\<close>, whose text is shortened
  here.
\<close>

datatype go_error =
    EOF
  | ErrUnexpectedEOF
  | ErrShutdown
  | Canceled
  | DeadlineExceeded
  | ServerError string
  | UnmarshalError string
  | ErrorString string

text \<open>The method \<open>Error() string\<close> of each of them.\<close>

fun error_text :: "go_error \<Rightarrow> string" where
  "error_text EOF = ''EOF''"
| "error_text ErrUnexpectedEOF = ''unexpected EOF''"
| "error_text ErrShutdown = ''connection is shut down''"
| "error_text Canceled = ''context canceled''"
| "error_text DeadlineExceeded = ''context deadline exceeded''"
| "error_text (ServerError s) = s"
| "error_text (UnmarshalError f) = ''json: cannot unmarshal into '' @ f"
| "error_text (ErrorString s) = s"

text \<open>
  The Go values that travel as arguments and replies, as far as the library looks at them: the
  dynamic type name of a struct decides the type switch in \<open>Service.call\<close>.
\<close>

datatype goval =
    VNil
  | VBool bool
  | VInt int
  | VUint u64
  | VString string
  | VStruct string "(string \<times> goval) list"
  | VSlice "goval list"
  | VMap "(goval \<times> goval) list"
  | VPtr goval

text \<open>What a call that may panic or return an error gives.\<close>

datatype 'a outcome = Panic | Fail go_error | Ok 'a

text \<open>Results or the first error, in order.\<close>

fun sequence :: "(go_error + 'a) list \<Rightarrow> go_error + 'a list" where
  "sequence [] = Inr []"
| "sequence (x # xs) =
     (case x of
        Inl e \<Rightarrow> Inl e
      | Inr y \<Rightarrow> (case sequence xs of Inl e \<Rightarrow> Inl e | Inr ys \<Rightarrow> Inr (y # ys)))"

definition map_sum :: "('a \<Rightarrow> 'b) \<Rightarrow> go_error + 'a \<Rightarrow> go_error + 'b" where
  "map_sum f x = (case x of Inl e \<Rightarrow> Inl e | Inr y \<Rightarrow> Inr (f y))"

lemma map_sum_simps [simp]: "map_sum f (Inl e) = Inl e" "map_sum f (Inr y) = Inr (f y)"
  by (simp_all add: map_sum_def)

lemma sequence_Inr: "(\<And>i. i < length xs \<Longrightarrow> xs ! i = Inr (ys ! i)) \<Longrightarrow> length xs = length ys \<Longrightarrow>
    sequence xs = Inr ys"
proof (induction xs arbitrary: ys)
  case (Cons x xs)
  then obtain y ys' where ys: "ys = y # ys'" by (cases ys) auto
  have "x = Inr y" using Cons.prems(1) [of 0] ys by simp
  moreover have "sequence xs = Inr ys'"
    by (rule Cons.IH) (use Cons.prems(1) [of "Suc i" for i] Cons.prems(2) ys in auto)
  ultimately show ?case using ys by simp
qed simp

lemma sequence_Inl: "sequence xs = Inl e \<Longrightarrow> Inl e \<in> set xs"
  by (induction xs) (auto split: sum.splits)


section \<open>The wire headers\<close>

record request =
  req_method :: string
  req_seq :: u64

record response =
  resp_seq :: u64
  resp_error :: string

definition zero_request :: request where
  "zero_request = \<lparr>req_method = [], req_seq = 0\<rparr>"

definition zero_response :: response where
  "zero_response = \<lparr>resp_seq = 0, resp_error = []\<rparr>"


section \<open>The name of a remote method\<close>

text \<open>Go's \<open>strings.LastIndex(s, ".")\<close>, with \<open>None\<close> for -1.\<close>

fun last_index :: "char \<Rightarrow> string \<Rightarrow> nat option" where
  "last_index c [] = None"
| "last_index c (x # xs) =
     (case last_index c xs of
        Some i \<Rightarrow> Some (Suc i)
      | None \<Rightarrow> if x = c then Some 0 else None)"

definition dot :: char where
  "dot = CHR ''.''"

text \<open>\<open>serviceMethod[:dot]\<close> and \<open>serviceMethod[dot+1:]\<close>.\<close>

definition split_service_method :: "string \<Rightarrow> (string \<times> string) option" where
  "split_service_method s =
     (case last_index dot s of
        None \<Rightarrow> None
      | Some d \<Rightarrow> Some (take d s, drop (Suc d) s))"

lemma last_index_None_iff: "last_index c s = None \<longleftrightarrow> c \<notin> set s"
  by (induction s) (auto split: option.splits)

lemma last_index_append:
  "c \<notin> set ys \<Longrightarrow> last_index c (xs @ c # ys) = Some (length xs)"
proof (induction xs)
  case Nil
  then show ?case using last_index_None_iff [of c ys] by simp
qed simp

lemma last_index_Some:
  "last_index c s = Some i \<Longrightarrow> i < length s \<and> s ! i = c \<and> c \<notin> set (drop (Suc i) s)"
proof (induction s arbitrary: i)
  case (Cons x xs)
  then show ?case
    using last_index_None_iff [of c xs] by (auto split: option.splits if_splits)
qed simp

lemma split_service_method_join:
  "dot \<notin> set m \<Longrightarrow> split_service_method (svc @ dot # m) = Some (svc, m)"
  by (simp add: split_service_method_def last_index_append)

lemma split_service_method_Some:
  assumes "split_service_method s = Some (svc, m)"
  shows "s = svc @ dot # m \<and> dot \<notin> set m"
proof -
  from assms obtain d where d: "last_index dot s = Some d" "svc = take d s" "m = drop (Suc d) s"
    by (auto simp: split_service_method_def split: option.splits)
  then show ?thesis
    using last_index_Some [OF d(1)] id_take_nth_drop [of d s] by simp
qed

lemma split_service_method_None: "split_service_method s = None \<longleftrightarrow> dot \<notin> set s"
  by (simp add: split_service_method_def last_index_None_iff [symmetric] split: option.splits)


section \<open>Facts on maps, lists and words\<close>

lemma ran_upd_fresh: "m k = None \<Longrightarrow> ran (m(k \<mapsto> v)) = insert v (ran m)"
  by (simp add: ran_map_upd)

lemma u64_of_nat_eq_iff:
  "a < 2 ^ 64 \<Longrightarrow> b < 2 ^ 64 \<Longrightarrow> (of_nat a :: u64) = of_nat b \<longleftrightarrow> a = b"
  by (simp add: of_nat_inverse word_unat_eq_iff unat_of_nat take_bit_nat_eq_self)

lemma u64_of_nat_neq_0: "0 < a \<Longrightarrow> a < 2 ^ 64 \<Longrightarrow> (of_nat a :: u64) \<noteq> 0"
  using u64_of_nat_eq_iff [of a 0] by simp

lemma u64_unat_Suc:
  assumes "Suc n < 2 ^ 64"
  shows "unat (of_nat n :: u64) < unat (of_nat n + 1 :: u64)"
proof -
  have "unat (of_nat n :: u64) = n" "unat (of_nat (Suc n) :: u64) = Suc n"
    using assms by (simp_all add: unat_of_nat take_bit_nat_eq_self del: of_nat_Suc)
  then show ?thesis by (simp add: add.commute)
qed

lemma distinct_bounded_length:
  "distinct xs \<Longrightarrow> \<forall>x \<in> set xs. x < n \<Longrightarrow> length xs \<le> n" for xs :: "nat list"
  using distinct_card [of xs] card_mono [of "{..<n}" "set xs"] by auto

end
