(* ===== verification/BasicClient.thy ===== *)
theory BasicClient
  imports Prelude
begin

text \<open>
  The client half of a connection: basic_client.go, the \<open>Call\<close> object and \<open>done\<close> of client.go.
  Every operation is one critical section (or one codec call) of the source, so that goroutines
  interleave between operations exactly where the mutexes let them.

  A \<open>*Call\<close> and a \<open>chan *Call\<close> are heap addresses (\<^typ>\<open>nat\<close>), allocated in order. The goroutines
  themselves are part of the state: \<open>cl_sender c\<close> is where the goroutine running \<open>send(c)\<close> stands,
  \<open>cl_caller c\<close> where the goroutine in \<open>Call\<close> that created \<open>c\<close> stands, and \<open>cl_reader\<close> where the one
  goroutine running \<open>input()\<close> stands. The last fields are logs that no operation reads.
\<close>

section \<open>State\<close>

record call_obj =
  c_method :: string
  c_args :: goval
  c_reply :: "goval option"   \<comment> \<open>\<open>None\<close> is a nil Reply; otherwise what the pointer holds\<close>
  c_error :: "go_error option"
  c_done :: nat
  c_seq :: u64

record chan =
  ch_cap :: nat
  ch_buf :: "nat list"

text \<open>
  \<open>send\<close>: before \<open>reqMutex\<close> is taken; inside \<open>WriteRequest\<close> with the local variable \<open>seq\<close>; after
  \<open>WriteRequest\<close> returned an error; returned.
\<close>

datatype send_pc = SWaiting | SWriting u64 | SWriteErr u64 go_error | SDone

text \<open>
  \<open>Call\<close>: in the \<open>select\<close>; in the nested \<open>Go\<close> that sends the cancellation; returned \<open>call.Error\<close>;
  returned \<open>ctx.Err()\<close>.
\<close>

datatype caller_pc = CSelect | CCancel nat go_error | CDone "go_error option" | CCtx go_error

text \<open>\<open>input\<close>: in a header read; holding a response and the call it was looked up for; after the
  loop; returned.\<close>

datatype reader_pc = RReading | RGot "nat option" response | RTerm go_error | REnded

record client =
  cl_seq :: u64
  cl_pending :: "u64 \<rightharpoonup> nat"
  cl_closing :: bool
  cl_shutdown :: bool
  cl_request :: request
  cl_reqmu :: "nat option"    \<comment> \<open>the call whose \<open>send\<close> holds \<open>reqMutex\<close>\<close>
  cl_calls :: "nat \<Rightarrow> call_obj"
  cl_ncalls :: nat
  cl_chans :: "nat \<Rightarrow> chan"
  cl_nchans :: nat
  cl_sender :: "nat \<Rightarrow> send_pc option"
  cl_caller :: "nat \<Rightarrow> caller_pc option"
  cl_reader :: reader_pc
  cl_registered :: "nat list" \<comment> \<open>log: calls entered into \<open>pending\<close> by \<open>send\<close>, in order\<close>
  cl_tried :: "(request \<times> goval) list" \<comment> \<open>log: requests given to \<open>WriteRequest\<close>, once it has returned\<close>
  cl_sent :: "(request \<times> goval) list" \<comment> \<open>log: those it accepted\<close>
  cl_signalled :: "nat list"  \<comment> \<open>log: calls on which \<open>done\<close> ran\<close>
  cl_dropped :: "nat list"    \<comment> \<open>log: calls \<open>done\<close> discarded for lack of capacity\<close>
  cl_received :: "(response \<times> nat option \<times> (go_error + goval)) list" \<comment> \<open>log: responses read, the call each was given to, their bodies\<close>

definition no_call :: call_obj where
  "no_call = \<lparr>c_method = [], c_args = VNil, c_reply = None, c_error = None, c_done = 0, c_seq = 0\<rparr>"

text \<open>\<open>newBasicClient\<close> followed by \<open>go client.input()\<close>.\<close>

definition new_basic_client :: client where
  "new_basic_client =
     \<lparr>cl_seq = 0, cl_pending = Map.empty, cl_closing = False, cl_shutdown = False,
      cl_request = zero_request, cl_reqmu = None,
      cl_calls = (\<lambda>_. no_call), cl_ncalls = 0,
      cl_chans = (\<lambda>_. \<lparr>ch_cap = 0, ch_buf = []\<rparr>), cl_nchans = 0,
      cl_sender = (\<lambda>_. None), cl_caller = (\<lambda>_. None), cl_reader = RReading,
      cl_registered = [], cl_tried = [], cl_sent = [], cl_signalled = [], cl_dropped = [], cl_received = []\<rparr>"

text \<open>Places of the goroutines: inside \<open>WriteRequest\<close>, and out of \<open>Call\<close> by its context.\<close>

fun in_write :: "send_pc option \<Rightarrow> bool" where
  "in_write (Some (SWriting n)) = True"
| "in_write (Some (SWriteErr n e)) = True"
| "in_write _ = False"

fun by_ctx :: "caller_pc option \<Rightarrow> bool" where
  "by_ctx (Some (CCancel c e)) = True"
| "by_ctx (Some (CCtx e)) = True"
| "by_ctx _ = False"


section \<open>Operations\<close>

text \<open>\<open>call.Error = e\<close>\<close>

definition set_error :: "nat \<Rightarrow> go_error \<Rightarrow> client \<Rightarrow> client" where
  "set_error c e s = s\<lparr>cl_calls := (cl_calls s)(c := (cl_calls s c)\<lparr>c_error := Some e\<rparr>)\<rparr>"

text \<open>\<open>call.done()\<close>: a non-blocking send on \<open>call.Done\<close>; a full channel discards the reply.\<close>

definition call_done :: "nat \<Rightarrow> client \<Rightarrow> client" where
  "call_done c s =
     (let d = c_done (cl_calls s c);
          ch = cl_chans s d;
          s' = s\<lparr>cl_signalled := cl_signalled s @ [c]\<rparr>
      in if length (ch_buf ch) < ch_cap ch
         then s'\<lparr>cl_chans := (cl_chans s)(d := ch\<lparr>ch_buf := ch_buf ch @ [c]\<rparr>)\<rparr>
         else s'\<lparr>cl_dropped := cl_dropped s @ [c]\<rparr>)"

definition set_sender :: "nat \<Rightarrow> send_pc \<Rightarrow> client \<Rightarrow> client" where
  "set_sender c p s = s\<lparr>cl_sender := (cl_sender s)(c \<mapsto> p)\<rparr>"

definition set_caller :: "nat \<Rightarrow> caller_pc \<Rightarrow> client \<Rightarrow> client" where
  "set_caller c p s = s\<lparr>cl_caller := (cl_caller s)(c \<mapsto> p)\<rparr>"

text \<open>\<open>make(chan *Call, n)\<close>: the new channel's address and the state.\<close>

definition make_chan :: "nat \<Rightarrow> client \<Rightarrow> nat \<times> client" where
  "make_chan n s =
     (cl_nchans s,
      s\<lparr>cl_chans := (cl_chans s)(cl_nchans s := \<lparr>ch_cap = n, ch_buf = []\<rparr>),
        cl_nchans := Suc (cl_nchans s)\<rparr>)"

text \<open>
  \<open>send\<close>, first part: take \<open>reqMutex\<close>, then under \<open>mutex\<close> refuse the call or register it; a registered
  call keeps \<open>reqMutex\<close> and goes on to \<open>WriteRequest\<close>. \<open>None\<close> when the step is not enabled.
\<close>

definition send_enter :: "nat \<Rightarrow> client \<Rightarrow> client option" where
  "send_enter c s =
     (if cl_sender s c = Some SWaiting \<and> cl_reqmu s = None
      then Some
        (if cl_shutdown s \<or> cl_closing s
         then set_sender c SDone (call_done c (set_error c ErrShutdown s))
         else if c_seq (cl_calls s c) \<noteq> 0
         then set_sender c SDone (call_done c (set_error c Canceled s))
         else
           (let n = cl_seq s + 1;
                call = (cl_calls s c)\<lparr>c_seq := n\<rparr>
            in set_sender c (SWriting n)
                 (s\<lparr>cl_seq := n,
                    cl_calls := (cl_calls s)(c := call),
                    cl_pending := (cl_pending s)(n \<mapsto> c),
                    cl_request := \<lparr>req_method = c_method call, req_seq = n\<rparr>,
                    cl_reqmu := Some c,
                    cl_registered := cl_registered s @ [c]\<rparr>)))
      else None)"

text \<open>\<open>send\<close>: \<open>WriteRequest\<close> returns \<open>r\<close>; without an error \<open>send\<close> returns and unlocks \<open>reqMutex\<close>.\<close>

definition send_write :: "go_error option \<Rightarrow> nat \<Rightarrow> client \<Rightarrow> client option" where
  "send_write r c s =
     (case cl_sender s c of
        Some (SWriting n) \<Rightarrow>
          (let x = (cl_request s, c_args (cl_calls s c));
               s1 = s\<lparr>cl_tried := cl_tried s @ [x]\<rparr>
           in Some (case r of
                None \<Rightarrow> set_sender c SDone (s1\<lparr>cl_sent := cl_sent s @ [x], cl_reqmu := None\<rparr>)
              | Some e \<Rightarrow> set_sender c (SWriteErr n e) s1))
      | _ \<Rightarrow> None)"

text \<open>\<open>send\<close>, last part: take the call back out of \<open>pending\<close>, if it is still there, and fail it.\<close>

definition send_unregister :: "nat \<Rightarrow> client \<Rightarrow> client option" where
  "send_unregister c s =
     (case cl_sender s c of
        Some (SWriteErr n e) \<Rightarrow>
          (let s1 = s\<lparr>cl_pending := (cl_pending s)(n := None)\<rparr>;
               s2 = (case cl_pending s n of
                       Some c' \<Rightarrow> call_done c' (set_error c' e s1)
                     | None \<Rightarrow> s1)
           in Some (set_sender c SDone (s2\<lparr>cl_reqmu := None\<rparr>)))
      | _ \<Rightarrow> None)"

text \<open>\<open>Close\<close>, with the result \<open>r\<close> of the codec's \<open>Close\<close>: what it returns, whether it called the
  codec, and the state.\<close>

definition client_close :: "go_error option \<Rightarrow> client \<Rightarrow> go_error option \<times> bool \<times> client" where
  "client_close r s =
     (if cl_closing s then (Some ErrShutdown, False, s)
      else (r, True, s\<lparr>cl_closing := True\<rparr>))"

text \<open>
  \<open>Go\<close>: allocates the \<open>Call\<close> and starts \<open>send\<close>; \<open>None\<close> is the panic on an unbuffered channel.
\<close>

definition client_go ::
  "string \<Rightarrow> goval \<Rightarrow> goval option \<Rightarrow> nat option \<Rightarrow> client \<Rightarrow> (nat \<times> client) option" where
  "client_go m a r dn s =
     (let (d, s1) = (case dn of None \<Rightarrow> make_chan 10 s | Some d \<Rightarrow> (d, s));
          c = cl_ncalls s1;
          call = \<lparr>c_method = m, c_args = a, c_reply = r, c_error = None, c_done = d, c_seq = 0\<rparr>
      in if dn \<noteq> None \<and> ch_cap (cl_chans s1 d) = 0 then None
         else Some (c, set_sender c SWaiting
                (s1\<lparr>cl_calls := (cl_calls s1)(c := call), cl_ncalls := Suc c\<rparr>)))"

text \<open>\<open>Call\<close> up to its \<open>select\<close>: a channel for this call and its cancellation, then \<open>Go\<close>.\<close>

definition client_call :: "string \<Rightarrow> goval \<Rightarrow> goval option \<Rightarrow> client \<Rightarrow> (nat \<times> client) option" where
  "client_call m a r s =
     (let (d, s1) = make_chan 2 s
      in case client_go m a r (Some d) s1 of
           None \<Rightarrow> None
         | Some (c, s2) \<Rightarrow> Some (c, set_caller c CSelect s2))"

text \<open>\<open>Call\<close>: the branch \<open>case <-call.Done\<close>.\<close>

definition call_receive :: "nat \<Rightarrow> client \<Rightarrow> client option" where
  "call_receive c s =
     (let d = c_done (cl_calls s c)
      in if cl_caller s c = Some CSelect \<and> cl_sender s c = Some SDone \<and> ch_buf (cl_chans s d) \<noteq> []
         then Some (set_caller c (CDone (c_error (cl_calls s c)))
                (s\<lparr>cl_chans := (cl_chans s)
                     (d := (cl_chans s d)\<lparr>ch_buf := tl (ch_buf (cl_chans s d))\<rparr>)\<rparr>))
         else None)"

definition cancel_method :: string where
  "cancel_method = ''_goRPC_.Cancel''"

definition cancel_args :: "u64 \<Rightarrow> goval" where
  "cancel_args n = VPtr (VStruct ''CancelArgs'' [(''Seq'', VUint n)])"

text \<open>
  \<open>Call\<close>: the branch \<open>case <-ctx.Done()\<close> with \<open>ctx.Err() = e\<close>: the critical section, then \<open>Go\<close> for
  \<open>_goRPC_.Cancel\<close> when the call was still pending.
\<close>

definition call_ctx_done :: "go_error \<Rightarrow> nat \<Rightarrow> client \<Rightarrow> client option" where
  "call_ctx_done e c s =
     (if cl_caller s c = Some CSelect \<and> cl_sender s c = Some SDone
      then
        (let n = c_seq (cl_calls s c);
             ok = cl_pending s n \<noteq> None;
             s1 = s\<lparr>cl_pending := (cl_pending s)(n := None)\<rparr>;
             s2 = (if n = 0
                   then s1\<lparr>cl_calls := (cl_calls s1)(c := (cl_calls s1 c)\<lparr>c_seq := 1\<rparr>)\<rparr>
                   else s1)
         in if n \<noteq> 0 \<and> ok
            then (case client_go cancel_method (cancel_args n) None (Some (c_done (cl_calls s c))) s2 of
                    None \<Rightarrow> None
                  | Some (c', s3) \<Rightarrow> Some (set_caller c (CCancel c' e) s3))
            else Some (set_caller c (CCtx e) s2))
      else None)"

text \<open>\<open>Call\<close>: the nested \<open>Go\<close> has returned, and \<open>Call\<close> returns \<open>ctx.Err()\<close>.\<close>

definition call_cancel_sent :: "nat \<Rightarrow> client \<Rightarrow> client option" where
  "call_cancel_sent c s =
     (case cl_caller s c of
        Some (CCancel c' e) \<Rightarrow>
          (if cl_sender s c' = Some SDone then Some (set_caller c (CCtx e) s) else None)
      | _ \<Rightarrow> None)"

text \<open>A program that called \<open>Go\<close> receives from the channel it chose.\<close>

definition chan_receive :: "nat \<Rightarrow> client \<Rightarrow> client option" where
  "chan_receive d s =
     (if ch_buf (cl_chans s d) = [] then None
      else Some (s\<lparr>cl_chans := (cl_chans s)
                     (d := (cl_chans s d)\<lparr>ch_buf := tl (ch_buf (cl_chans s d))\<rparr>)\<rparr>))"

end
