(* ===== verification/Client.thy ===== *)
theory Client
  imports BasicClient
begin

text \<open>
  The reading goroutine \<open>Client.input\<close> of client.go, the interleaving of all goroutines of a client
  as a step relation, and the invariants of its reachable states. What the codec returns for a read
  or a write is an argument of the step: the connection and the peer may do anything.
\<close>

section \<open>The reading goroutine\<close>

text \<open>
  One header read. An error leaves the loop; a response is looked up in \<open>pending\<close> and its entry
  deleted under \<open>mutex\<close>.
\<close>

definition input_header :: "go_error + response \<Rightarrow> client \<Rightarrow> client option" where
  "input_header h s =
     (case cl_reader s of
        RReading \<Rightarrow>
          (case h of
             Inl e \<Rightarrow> Some (s\<lparr>cl_reader := RTerm e\<rparr>)
           | Inr resp \<Rightarrow>
               Some (s\<lparr>cl_reader := RGot (cl_pending s (resp_seq resp)) resp,
                       cl_pending := (cl_pending s)(resp_seq resp := None)\<rparr>))
      | _ \<Rightarrow> None)"

definition body_error :: "go_error \<Rightarrow> go_error" where
  "body_error e = ErrorString (''reading error body: '' @ error_text e)"

definition reply_error :: "go_error \<Rightarrow> go_error" where
  "reply_error e = ErrorString (''reading body '' @ error_text e)"

text \<open>\<open>ReadResponseBody(call.Reply)\<close> stored the decoded value behind the pointer, if there is one.\<close>

definition set_reply :: "nat \<Rightarrow> goval \<Rightarrow> client \<Rightarrow> client" where
  "set_reply c v s =
     s\<lparr>cl_calls := (cl_calls s)
         (c := (cl_calls s c)\<lparr>c_reply := map_option (\<lambda>_. v) (c_reply (cl_calls s c))\<rparr>)\<rparr>"

text \<open>
  The \<open>switch\<close>: no pending call, an error response, a reply. \<open>b\<close> is what \<open>ReadResponseBody\<close>
  returned, an error or the decoded value.
\<close>

definition input_body :: "go_error + goval \<Rightarrow> client \<Rightarrow> client option" where
  "input_body b s =
     (case cl_reader s of
        RGot oc resp \<Rightarrow>
          (let s0 = s\<lparr>cl_received := cl_received s @ [(resp, oc, b)]\<rparr>;
               after = (\<lambda>f. case b of Inl e \<Rightarrow> RTerm (f e) | Inr _ \<Rightarrow> RReading)
           in case oc of
                None \<Rightarrow> Some (s0\<lparr>cl_reader := after body_error\<rparr>)
              | Some c \<Rightarrow>
                  (if resp_error resp \<noteq> []
                   then Some (call_done c (set_error c (ServerError (resp_error resp)) s0)
                                \<lparr>cl_reader := after body_error\<rparr>)
                   else
                     (let s1 = (case b of
                                  Inl e \<Rightarrow> set_error c (reply_error e) s0
                                | Inr v \<Rightarrow> set_reply c v s0)
                      in Some ((call_done c s1)\<lparr>cl_reader := after id\<rparr>))))
      | _ \<Rightarrow> None)"

text \<open>
  Termination: with both mutexes held, \<open>shutdown\<close> is set, an EOF is translated, and every pending
  call is failed. \<open>ks\<close> is the order in which \<open>range client.pending\<close> visits the map.
\<close>

definition shutdown_error :: "bool \<Rightarrow> go_error \<Rightarrow> go_error" where
  "shutdown_error closing e =
     (if e = EOF then (if closing then ErrShutdown else ErrUnexpectedEOF) else e)"

fun fail_calls :: "go_error \<Rightarrow> nat list \<Rightarrow> client \<Rightarrow> client" where
  "fail_calls e [] s = s"
| "fail_calls e (c # cs) s = fail_calls e cs (call_done c (set_error c e s))"

definition input_terminate :: "u64 list \<Rightarrow> client \<Rightarrow> client option" where
  "input_terminate ks s =
     (case cl_reader s of
        RTerm e \<Rightarrow>
          (if cl_reqmu s = None \<and> distinct ks \<and> set ks = dom (cl_pending s)
           then Some ((fail_calls (shutdown_error (cl_closing s) e)
                         (map (the \<circ> cl_pending s) ks) (s\<lparr>cl_shutdown := True\<rparr>))
                        \<lparr>cl_reader := REnded\<rparr>)
           else None)
      | _ \<Rightarrow> None)"

section \<open>Interleaving\<close>

text \<open>A channel made by \<open>Call\<close> is known to that \<open>Call\<close> only.\<close>

definition private_chan :: "client \<Rightarrow> nat \<Rightarrow> bool" where
  "private_chan s d \<longleftrightarrow> (\<exists>c. cl_caller s c \<noteq> None \<and> c_done (cl_calls s c) = d)"

inductive client_step :: "client \<Rightarrow> client \<Rightarrow> bool" where
  step_make: "make_chan n s = (d, t) \<Longrightarrow> client_step s t"
| step_go: "client_go m a r None s = Some (c, t) \<Longrightarrow> client_step s t"
| step_go_on: "d < cl_nchans s \<Longrightarrow> \<not> private_chan s d \<Longrightarrow>
     client_go m a r (Some d) s = Some (c, t) \<Longrightarrow> client_step s t"
| step_call: "client_call m a r s = Some (c, t) \<Longrightarrow> client_step s t"
| step_enter: "send_enter c s = Some t \<Longrightarrow> client_step s t"
| step_write: "send_write w c s = Some t \<Longrightarrow> client_step s t"
| step_unregister: "send_unregister c s = Some t \<Longrightarrow> client_step s t"
| step_close: "client_close w s = (r, b, t) \<Longrightarrow> client_step s t"
| step_receive: "call_receive c s = Some t \<Longrightarrow> client_step s t"
| step_ctx: "call_ctx_done e c s = Some t \<Longrightarrow> client_step s t"
| step_cancelled: "call_cancel_sent c s = Some t \<Longrightarrow> client_step s t"
| step_user_receive: "\<not> private_chan s d \<Longrightarrow> chan_receive d s = Some t \<Longrightarrow> client_step s t"
| step_header: "input_header h s = Some t \<Longrightarrow> client_step s t"
| step_body: "input_body b s = Some t \<Longrightarrow> client_step s t"
| step_terminate: "input_terminate ks s = Some t \<Longrightarrow> client_step s t"

inductive client_reach :: "client \<Rightarrow> bool" where
  reach_new: "client_reach new_basic_client"
| reach_step: "client_reach s \<Longrightarrow> client_step s t \<Longrightarrow> client_reach t"

end
