(* ===== verification/ClientInv.thy ===== *)
theory ClientInv
  imports Client
begin

text \<open>
  The invariants of a client's reachable states, one definition per concern, and the lemma that every
  operation keeps each of them.
\<close>

section \<open>What the small updates leave alone\<close>

lemma call_done_frame [simp]:
  "cl_seq (call_done c s) = cl_seq s"
  "cl_pending (call_done c s) = cl_pending s"
  "cl_closing (call_done c s) = cl_closing s"
  "cl_shutdown (call_done c s) = cl_shutdown s"
  "cl_request (call_done c s) = cl_request s"
  "cl_reqmu (call_done c s) = cl_reqmu s"
  "cl_calls (call_done c s) = cl_calls s"
  "cl_ncalls (call_done c s) = cl_ncalls s"
  "cl_nchans (call_done c s) = cl_nchans s"
  "cl_sender (call_done c s) = cl_sender s"
  "cl_caller (call_done c s) = cl_caller s"
  "cl_reader (call_done c s) = cl_reader s"
  "cl_registered (call_done c s) = cl_registered s"
  "cl_tried (call_done c s) = cl_tried s"
  "cl_sent (call_done c s) = cl_sent s"
  "cl_signalled (call_done c s) = cl_signalled s @ [c]"
  "cl_received (call_done c s) = cl_received s"
  by (simp_all add: call_done_def Let_def)

lemma set_error_frame [simp]:
  "cl_seq (set_error c e s) = cl_seq s"
  "cl_pending (set_error c e s) = cl_pending s"
  "cl_closing (set_error c e s) = cl_closing s"
  "cl_shutdown (set_error c e s) = cl_shutdown s"
  "cl_request (set_error c e s) = cl_request s"
  "cl_reqmu (set_error c e s) = cl_reqmu s"
  "cl_ncalls (set_error c e s) = cl_ncalls s"
  "cl_chans (set_error c e s) = cl_chans s"
  "cl_nchans (set_error c e s) = cl_nchans s"
  "cl_sender (set_error c e s) = cl_sender s"
  "cl_caller (set_error c e s) = cl_caller s"
  "cl_reader (set_error c e s) = cl_reader s"
  "cl_registered (set_error c e s) = cl_registered s"
  "cl_tried (set_error c e s) = cl_tried s"
  "cl_sent (set_error c e s) = cl_sent s"
  "cl_signalled (set_error c e s) = cl_signalled s"
  "cl_dropped (set_error c e s) = cl_dropped s"
  "cl_received (set_error c e s) = cl_received s"
  "c_seq (cl_calls (set_error c e s) x) = c_seq (cl_calls s x)"
  "c_done (cl_calls (set_error c e s) x) = c_done (cl_calls s x)"
  "c_method (cl_calls (set_error c e s) x) = c_method (cl_calls s x)"
  "c_args (cl_calls (set_error c e s) x) = c_args (cl_calls s x)"
  "c_reply (cl_calls (set_error c e s) x) = c_reply (cl_calls s x)"
  by (simp_all add: set_error_def)

lemma set_error_c_error: "c_error (cl_calls (set_error c e s) x) =
    (if x = c then Some e else c_error (cl_calls s x))"
  by (simp add: set_error_def)

lemma set_reply_frame [simp]:
  "cl_seq (set_reply c v s) = cl_seq s"
  "cl_pending (set_reply c v s) = cl_pending s"
  "cl_closing (set_reply c v s) = cl_closing s"
  "cl_shutdown (set_reply c v s) = cl_shutdown s"
  "cl_request (set_reply c v s) = cl_request s"
  "cl_reqmu (set_reply c v s) = cl_reqmu s"
  "cl_ncalls (set_reply c v s) = cl_ncalls s"
  "cl_chans (set_reply c v s) = cl_chans s"
  "cl_nchans (set_reply c v s) = cl_nchans s"
  "cl_sender (set_reply c v s) = cl_sender s"
  "cl_caller (set_reply c v s) = cl_caller s"
  "cl_reader (set_reply c v s) = cl_reader s"
  "cl_registered (set_reply c v s) = cl_registered s"
  "cl_tried (set_reply c v s) = cl_tried s"
  "cl_sent (set_reply c v s) = cl_sent s"
  "cl_signalled (set_reply c v s) = cl_signalled s"
  "cl_dropped (set_reply c v s) = cl_dropped s"
  "cl_received (set_reply c v s) = cl_received s"
  "c_seq (cl_calls (set_reply c v s) x) = c_seq (cl_calls s x)"
  "c_done (cl_calls (set_reply c v s) x) = c_done (cl_calls s x)"
  "c_method (cl_calls (set_reply c v s) x) = c_method (cl_calls s x)"
  "c_args (cl_calls (set_reply c v s) x) = c_args (cl_calls s x)"
  "c_error (cl_calls (set_reply c v s) x) = c_error (cl_calls s x)"
  by (simp_all add: set_reply_def)

lemma set_sender_frame [simp]:
  "cl_seq (set_sender c p s) = cl_seq s"
  "cl_pending (set_sender c p s) = cl_pending s"
  "cl_closing (set_sender c p s) = cl_closing s"
  "cl_shutdown (set_sender c p s) = cl_shutdown s"
  "cl_request (set_sender c p s) = cl_request s"
  "cl_reqmu (set_sender c p s) = cl_reqmu s"
  "cl_calls (set_sender c p s) = cl_calls s"
  "cl_ncalls (set_sender c p s) = cl_ncalls s"
  "cl_chans (set_sender c p s) = cl_chans s"
  "cl_nchans (set_sender c p s) = cl_nchans s"
  "cl_sender (set_sender c p s) = (cl_sender s)(c \<mapsto> p)"
  "cl_caller (set_sender c p s) = cl_caller s"
  "cl_reader (set_sender c p s) = cl_reader s"
  "cl_registered (set_sender c p s) = cl_registered s"
  "cl_tried (set_sender c p s) = cl_tried s"
  "cl_sent (set_sender c p s) = cl_sent s"
  "cl_signalled (set_sender c p s) = cl_signalled s"
  "cl_dropped (set_sender c p s) = cl_dropped s"
  "cl_received (set_sender c p s) = cl_received s"
  by (simp_all add: set_sender_def)

lemma set_caller_frame [simp]:
  "cl_seq (set_caller c q s) = cl_seq s"
  "cl_pending (set_caller c q s) = cl_pending s"
  "cl_closing (set_caller c q s) = cl_closing s"
  "cl_shutdown (set_caller c q s) = cl_shutdown s"
  "cl_request (set_caller c q s) = cl_request s"
  "cl_reqmu (set_caller c q s) = cl_reqmu s"
  "cl_calls (set_caller c q s) = cl_calls s"
  "cl_ncalls (set_caller c q s) = cl_ncalls s"
  "cl_chans (set_caller c q s) = cl_chans s"
  "cl_nchans (set_caller c q s) = cl_nchans s"
  "cl_sender (set_caller c q s) = cl_sender s"
  "cl_caller (set_caller c q s) = (cl_caller s)(c \<mapsto> q)"
  "cl_reader (set_caller c q s) = cl_reader s"
  "cl_registered (set_caller c q s) = cl_registered s"
  "cl_tried (set_caller c q s) = cl_tried s"
  "cl_sent (set_caller c q s) = cl_sent s"
  "cl_signalled (set_caller c q s) = cl_signalled s"
  "cl_dropped (set_caller c q s) = cl_dropped s"
  "cl_received (set_caller c q s) = cl_received s"
  by (simp_all add: set_caller_def)

lemma fail_calls_frame [simp]:
  "cl_seq (fail_calls e cs s) = cl_seq s"
  "cl_pending (fail_calls e cs s) = cl_pending s"
  "cl_closing (fail_calls e cs s) = cl_closing s"
  "cl_shutdown (fail_calls e cs s) = cl_shutdown s"
  "cl_request (fail_calls e cs s) = cl_request s"
  "cl_reqmu (fail_calls e cs s) = cl_reqmu s"
  "cl_ncalls (fail_calls e cs s) = cl_ncalls s"
  "cl_nchans (fail_calls e cs s) = cl_nchans s"
  "cl_sender (fail_calls e cs s) = cl_sender s"
  "cl_caller (fail_calls e cs s) = cl_caller s"
  "cl_reader (fail_calls e cs s) = cl_reader s"
  "cl_registered (fail_calls e cs s) = cl_registered s"
  "cl_tried (fail_calls e cs s) = cl_tried s"
  "cl_sent (fail_calls e cs s) = cl_sent s"
  "cl_signalled (fail_calls e cs s) = cl_signalled s @ cs"
  "cl_received (fail_calls e cs s) = cl_received s"
  "c_seq (cl_calls (fail_calls e cs s) x) = c_seq (cl_calls s x)"
  "c_done (cl_calls (fail_calls e cs s) x) = c_done (cl_calls s x)"
  "c_method (cl_calls (fail_calls e cs s) x) = c_method (cl_calls s x)"
  "c_args (cl_calls (fail_calls e cs s) x) = c_args (cl_calls s x)"
  "c_reply (cl_calls (fail_calls e cs s) x) = c_reply (cl_calls s x)"
  by (induction cs arbitrary: s) simp_all

lemma fail_calls_c_error:
  "c_error (cl_calls (fail_calls e cs s) x) =
     (if x \<in> set cs then Some e else c_error (cl_calls s x))"
  by (induction cs arbitrary: s) (simp_all add: set_error_c_error)

section \<open>Case analysis on the operations\<close>

lemma make_chanE:
  assumes "make_chan n s = (d, t)"
  obtains "d = cl_nchans s"
    and "t = s\<lparr>cl_chans := (cl_chans s)(cl_nchans s := \<lparr>ch_cap = n, ch_buf = []\<rparr>),
                cl_nchans := Suc (cl_nchans s)\<rparr>"
  using assms by (auto simp: make_chan_def)

text \<open>The \<open>Call\<close> object that \<open>Go\<close> fills in, and the state after it has been allocated.\<close>

definition new_call :: "string \<Rightarrow> goval \<Rightarrow> goval option \<Rightarrow> nat \<Rightarrow> call_obj" where
  "new_call m a r d =
     \<lparr>c_method = m, c_args = a, c_reply = r, c_error = None, c_done = d, c_seq = 0\<rparr>"

definition alloc_call :: "call_obj \<Rightarrow> client \<Rightarrow> client" where
  "alloc_call k s =
     s\<lparr>cl_calls := (cl_calls s)(cl_ncalls s := k), cl_ncalls := Suc (cl_ncalls s),
       cl_sender := (cl_sender s)(cl_ncalls s \<mapsto> SWaiting)\<rparr>"

lemma client_go_on:
  "client_go m a r (Some d) s =
     (if ch_cap (cl_chans s d) = 0 then None
      else Some (cl_ncalls s, alloc_call (new_call m a r d) s))"
  by (simp add: client_go_def alloc_call_def new_call_def set_sender_def Let_def)

lemma client_go_new:
  "client_go m a r None s =
     Some (cl_ncalls s, alloc_call (new_call m a r (cl_nchans s)) (snd (make_chan 10 s)))"
  by (simp add: client_go_def alloc_call_def new_call_def set_sender_def make_chan_def Let_def)

lemma client_call_eq:
  "client_call m a r s =
     Some (cl_ncalls s, set_caller (cl_ncalls s) CSelect
       (alloc_call (new_call m a r (cl_nchans s)) (snd (make_chan 2 s))))"
  by (simp add: client_call_def client_go_on make_chan_def)

lemma send_enterE:
  assumes "send_enter c s = Some t"
  obtains
    (refused) "cl_sender s c = Some SWaiting" "cl_reqmu s = None" "cl_shutdown s \<or> cl_closing s"
      "t = set_sender c SDone (call_done c (set_error c ErrShutdown s))"
  | (cancelled) "cl_sender s c = Some SWaiting" "cl_reqmu s = None" "\<not> cl_shutdown s"
      "\<not> cl_closing s" "c_seq (cl_calls s c) \<noteq> 0"
      "t = set_sender c SDone (call_done c (set_error c Canceled s))"
  | (registered) n where "cl_sender s c = Some SWaiting" "cl_reqmu s = None" "\<not> cl_shutdown s"
      "\<not> cl_closing s" "c_seq (cl_calls s c) = 0" "n = cl_seq s + 1"
      "t = s\<lparr>cl_seq := n,
             cl_calls := (cl_calls s)(c := (cl_calls s c)\<lparr>c_seq := n\<rparr>),
             cl_pending := (cl_pending s)(n \<mapsto> c),
             cl_request := \<lparr>req_method = c_method (cl_calls s c), req_seq = n\<rparr>,
             cl_reqmu := Some c,
             cl_registered := cl_registered s @ [c],
             cl_sender := (cl_sender s)(c \<mapsto> SWriting n)\<rparr>"
proof -
  consider (a) "cl_shutdown s \<or> cl_closing s"
    | (b) "\<not> cl_shutdown s" "\<not> cl_closing s" "c_seq (cl_calls s c) \<noteq> 0"
    | (d) "\<not> cl_shutdown s" "\<not> cl_closing s" "c_seq (cl_calls s c) = 0" by blast
  then show thesis
  proof cases
    case a with assms refused show thesis by (simp add: send_enter_def split: if_splits)
  next
    case b with assms cancelled show thesis by (simp add: send_enter_def split: if_splits)
  next
    case d
    with assms registered [of "cl_seq s + 1"] show thesis
      by (simp add: send_enter_def set_sender_def Let_def split: if_splits)
  qed
qed

lemma send_writeE:
  assumes "send_write r c s = Some t"
  obtains
    (ok) n where "cl_sender s c = Some (SWriting n)" "r = None"
      "t = s\<lparr>cl_tried := cl_tried s @ [(cl_request s, c_args (cl_calls s c))],
             cl_sent := cl_sent s @ [(cl_request s, c_args (cl_calls s c))], cl_reqmu := None,
             cl_sender := (cl_sender s)(c \<mapsto> SDone)\<rparr>"
  | (failed) n e where "cl_sender s c = Some (SWriting n)" "r = Some e"
      "t = s\<lparr>cl_tried := cl_tried s @ [(cl_request s, c_args (cl_calls s c))],
             cl_sender := (cl_sender s)(c \<mapsto> SWriteErr n e)\<rparr>"
  using assms by (auto simp: send_write_def set_sender_def Let_def split: option.splits send_pc.splits)

lemma send_unregisterE:
  assumes "send_unregister c s = Some t"
  obtains
    (gone) n e where "cl_sender s c = Some (SWriteErr n e)" "cl_pending s n = None"
      "t = s\<lparr>cl_reqmu := None, cl_sender := (cl_sender s)(c \<mapsto> SDone)\<rparr>"
  | (there) n e c' where "cl_sender s c = Some (SWriteErr n e)" "cl_pending s n = Some c'"
      "t = (call_done c' (set_error c' e (s\<lparr>cl_pending := (cl_pending s)(n := None)\<rparr>)))
             \<lparr>cl_reqmu := None, cl_sender := (cl_sender s)(c \<mapsto> SDone)\<rparr>"
proof -
  from assms obtain n e where 1: "cl_sender s c = Some (SWriteErr n e)"
    by (auto simp: send_unregister_def split: option.splits send_pc.splits)
  show thesis
  proof (cases "cl_pending s n")
    case None
    then have "(cl_pending s)(n := None) = cl_pending s" by auto
    with 1 None gone assms show thesis by (auto simp: send_unregister_def set_sender_def Let_def)
  next
    case (Some c')
    with 1 there assms show thesis by (auto simp: send_unregister_def set_sender_def Let_def)
  qed
qed

lemma client_closeE:
  assumes "client_close w s = (r, b, t)"
  obtains "t = s\<lparr>cl_closing := True\<rparr>"
  using assms by (auto simp: client_close_def split: if_splits)

lemma chan_popE:
  assumes "chan_receive d s = Some t"
  obtains "ch_buf (cl_chans s d) \<noteq> []"
    "t = s\<lparr>cl_chans := (cl_chans s)(d := (cl_chans s d)\<lparr>ch_buf := tl (ch_buf (cl_chans s d))\<rparr>)\<rparr>"
  using assms by (auto simp: chan_receive_def split: if_splits)

lemma call_receiveE:
  assumes "call_receive c s = Some t"
  obtains d where "d = c_done (cl_calls s c)" "cl_caller s c = Some CSelect"
    "cl_sender s c = Some SDone" "ch_buf (cl_chans s d) \<noteq> []"
    "t = s\<lparr>cl_chans := (cl_chans s)(d := (cl_chans s d)\<lparr>ch_buf := tl (ch_buf (cl_chans s d))\<rparr>),
           cl_caller := (cl_caller s)(c \<mapsto> CDone (c_error (cl_calls s c)))\<rparr>"
  using assms by (auto simp: call_receive_def set_caller_def Let_def split: if_splits)

lemma call_ctx_doneE:
  assumes "call_ctx_done e c s = Some t"
  obtains
    (unsent) "cl_caller s c = Some CSelect" "cl_sender s c = Some SDone" "c_seq (cl_calls s c) = 0"
      "t = s\<lparr>cl_pending := (cl_pending s)(0 := None),
             cl_calls := (cl_calls s)(c := (cl_calls s c)\<lparr>c_seq := 1\<rparr>),
             cl_caller := (cl_caller s)(c \<mapsto> CCtx e)\<rparr>"
  | (answered) "cl_caller s c = Some CSelect" "cl_sender s c = Some SDone"
      "c_seq (cl_calls s c) \<noteq> 0" "cl_pending s (c_seq (cl_calls s c)) = None"
      "t = s\<lparr>cl_caller := (cl_caller s)(c \<mapsto> CCtx e)\<rparr>"
  | (pending) n where "cl_caller s c = Some CSelect" "cl_sender s c = Some SDone"
      "n = c_seq (cl_calls s c)" "n \<noteq> 0" "cl_pending s n \<noteq> None"
      "ch_cap (cl_chans s (c_done (cl_calls s c))) \<noteq> 0"
      "t = set_caller c (CCancel (cl_ncalls s) e)
             (alloc_call (new_call cancel_method (cancel_args n) None (c_done (cl_calls s c)))
                (s\<lparr>cl_pending := (cl_pending s)(n := None)\<rparr>))"
proof -
  let ?n = "c_seq (cl_calls s c)"
  from assms have 1: "cl_caller s c = Some CSelect" "cl_sender s c = Some SDone"
    by (auto simp: call_ctx_done_def split: if_splits)
  show thesis
  proof (cases "?n = 0")
    case True
    with 1 unsent assms show thesis by (simp add: call_ctx_done_def set_caller_def Let_def)
  next
    case n: False
    show thesis
    proof (cases "cl_pending s ?n")
      case None
      then have "(cl_pending s)(?n := None) = cl_pending s" by auto
      with None n 1 answered assms show thesis
        by (simp add: call_ctx_done_def set_caller_def Let_def)
    next
      case (Some x)
      with n 1 pending assms show thesis
        by (simp add: call_ctx_done_def client_go_on Let_def split: if_splits)
    qed
  qed
qed

lemma call_cancel_sentE:
  assumes "call_cancel_sent c s = Some t"
  obtains c' e where "cl_caller s c = Some (CCancel c' e)" "cl_sender s c' = Some SDone"
    "t = s\<lparr>cl_caller := (cl_caller s)(c \<mapsto> CCtx e)\<rparr>"
  using assms
  by (auto simp: call_cancel_sent_def set_caller_def split: option.splits caller_pc.splits if_splits)

lemma input_headerE:
  assumes "input_header h s = Some t"
  obtains
    (failed) e where "cl_reader s = RReading" "h = Inl e" "t = s\<lparr>cl_reader := RTerm e\<rparr>"
  | (got) resp where "cl_reader s = RReading" "h = Inr resp"
      "t = s\<lparr>cl_reader := RGot (cl_pending s (resp_seq resp)) resp,
             cl_pending := (cl_pending s)(resp_seq resp := None)\<rparr>"
  using assms by (auto simp: input_header_def split: reader_pc.splits sum.splits)

text \<open>After the body of a response, the reader goes on or leaves the loop.\<close>

lemma input_bodyE:
  assumes "input_body b s = Some t"
  obtains
    (nobody) resp p where "cl_reader s = RGot None resp" "p = RReading \<or> (\<exists>e. p = RTerm e)"
      "t = s\<lparr>cl_received := cl_received s @ [(resp, None, b)], cl_reader := p\<rparr>"
  | (errored) c resp p where "cl_reader s = RGot (Some c) resp" "resp_error resp \<noteq> []"
      "p = RReading \<or> (\<exists>e. p = RTerm e)"
      "t = (call_done c (set_error c (ServerError (resp_error resp))
              (s\<lparr>cl_received := cl_received s @ [(resp, Some c, b)]\<rparr>)))\<lparr>cl_reader := p\<rparr>"
  | (undecoded) c resp e where "cl_reader s = RGot (Some c) resp" "resp_error resp = []" "b = Inl e"
      "t = (call_done c (set_error c (reply_error e)
              (s\<lparr>cl_received := cl_received s @ [(resp, Some c, b)]\<rparr>)))\<lparr>cl_reader := RTerm e\<rparr>"
  | (replied) c resp v where "cl_reader s = RGot (Some c) resp" "resp_error resp = []" "b = Inr v"
      "t = (call_done c (set_reply c v
              (s\<lparr>cl_received := cl_received s @ [(resp, Some c, b)]\<rparr>)))\<lparr>cl_reader := RReading\<rparr>"
proof -
  from assms obtain oc resp where 1: "cl_reader s = RGot oc resp"
    by (auto simp: input_body_def split: reader_pc.splits)
  show thesis
  proof (cases oc)
    case None
    with 1 nobody assms show thesis by (auto simp: input_body_def Let_def split: sum.splits)
  next
    case (Some c)
    show thesis
    proof (cases "resp_error resp = []")
      case False
      with Some 1 errored assms show thesis by (auto simp: input_body_def Let_def split: sum.splits)
    next
      case True
      with Some 1 undecoded replied assms show thesis
        by (cases b) (auto simp: input_body_def Let_def)
    qed
  qed
qed

lemma input_terminateE:
  assumes "input_terminate ks s = Some t"
  obtains e where "cl_reader s = RTerm e" "cl_reqmu s = None" "distinct ks"
    "set ks = dom (cl_pending s)"
    "t = (fail_calls (shutdown_error (cl_closing s) e) (map (the \<circ> cl_pending s) ks)
            (s\<lparr>cl_shutdown := True\<rparr>))\<lparr>cl_reader := REnded\<rparr>"
  using assms by (auto simp: input_terminate_def split: reader_pc.splits if_splits)

lemmas op_elims =
  make_chanE send_enterE send_writeE send_unregisterE client_closeE chan_popE call_receiveE
  call_ctx_doneE call_cancel_sentE input_headerE input_bodyE input_terminateE

lemmas op_allocs = client_go_on client_go_new client_call_eq alloc_call_def new_call_def make_chan_def

section \<open>Allocation and the request mutex\<close>

text \<open>A call exists from the moment \<open>Go\<close> allocated it; nobody refers to one that does not exist.\<close>

definition inv_alloc :: "client \<Rightarrow> bool" where
  "inv_alloc s \<longleftrightarrow>
     (\<forall>c. cl_sender s c \<noteq> None \<longleftrightarrow> c < cl_ncalls s) \<and>
     (\<forall>c. cl_caller s c \<noteq> None \<longrightarrow> c < cl_ncalls s) \<and>
     (\<forall>c c' e. cl_caller s c = Some (CCancel c' e) \<longrightarrow> c' < cl_ncalls s) \<and>
     (\<forall>c < cl_ncalls s. c_done (cl_calls s c) < cl_nchans s)"

text \<open>\<open>reqMutex\<close> is held exactly by the \<open>send\<close> between its registration and its return.\<close>

definition inv_lock :: "client \<Rightarrow> bool" where
  "inv_lock s \<longleftrightarrow> (\<forall>c. cl_reqmu s = Some c \<longleftrightarrow> in_write (cl_sender s c))"

lemma inv_alloc_fresh:
  "inv_alloc s \<Longrightarrow> cl_sender s (cl_ncalls s) = None"
  "inv_alloc s \<Longrightarrow> cl_caller s (cl_ncalls s) = None"
  "inv_alloc s \<Longrightarrow> cl_sender s c = Some p \<Longrightarrow> c < cl_ncalls s"
  "inv_alloc s \<Longrightarrow> cl_caller s c = Some q \<Longrightarrow> c < cl_ncalls s"
  "inv_alloc s \<Longrightarrow> cl_caller s c = Some (CCancel c' e) \<Longrightarrow> c' < cl_ncalls s"
  "inv_alloc s \<Longrightarrow> c < cl_ncalls s \<Longrightarrow> c_done (cl_calls s c) < cl_nchans s"
  "inv_alloc s \<Longrightarrow> c < cl_ncalls s \<Longrightarrow> \<exists>p. cl_sender s c = Some p"
  unfolding inv_alloc_def by (fastforce+)

lemma inv_alloc_step: "client_step s t \<Longrightarrow> inv_alloc s \<Longrightarrow> inv_alloc t"
  by (induction rule: client_step.induct)
     (fastforce simp: inv_alloc_def op_allocs less_Suc_eq split: if_splits elim!: op_elims)+

lemma inv_lockD:
  "inv_lock s \<Longrightarrow> cl_sender s c = Some (SWriting n) \<Longrightarrow> cl_reqmu s = Some c"
  "inv_lock s \<Longrightarrow> cl_sender s c = Some (SWriteErr n e) \<Longrightarrow> cl_reqmu s = Some c"
  "inv_lock s \<Longrightarrow> cl_reqmu s = Some c \<Longrightarrow> in_write (cl_sender s c)"
  unfolding inv_lock_def by (metis in_write.simps)+

lemma inv_lock_upd:
  assumes "inv_lock s" and "\<And>x. x \<noteq> c \<Longrightarrow> cl_sender t x = cl_sender s x"
    and "cl_reqmu s = None \<or> cl_reqmu s = Some c"
    and "cl_reqmu t = (if in_write (cl_sender t c) then Some c else None)"
  shows "inv_lock t"
  unfolding inv_lock_def
proof
  fix x
  show "cl_reqmu t = Some x \<longleftrightarrow> in_write (cl_sender t x)"
  proof (cases "x = c")
    case True with assms(4) show ?thesis by simp
  next
    case False
    with assms(1,3) have "\<not> in_write (cl_sender s x)"
      unfolding inv_lock_def by (metis option.distinct(1) option.inject)
    with False assms(2,4) show ?thesis by simp
  qed
qed

lemma inv_lock_step: "client_step s t \<Longrightarrow> inv_alloc s \<Longrightarrow> inv_lock s \<Longrightarrow> inv_lock t"
proof (induction rule: client_step.induct)
  case (step_enter c s t)
  from step_enter(1) show ?case
    by (rule send_enterE; intro inv_lock_upd [OF step_enter(3), of c]) simp_all
next
  case (step_write w c s t)
  from step_write(1) show ?case
    by (rule send_writeE; intro inv_lock_upd [OF step_write(3), of c])
       (auto simp: inv_lockD [OF step_write(3)])
next
  case (step_unregister c s t)
  from step_unregister(1) show ?case
    by (rule send_unregisterE; intro inv_lock_upd [OF step_unregister(3), of c])
       (auto simp: inv_lockD [OF step_unregister(3)])
next
  case (step_go m a r s c t)
  then show ?case by (auto simp: inv_lock_def inv_alloc_fresh op_allocs split: if_splits)
qed (auto simp: inv_lock_def inv_alloc_fresh op_allocs split: if_splits elim!: op_elims)


section \<open>Sequence numbers\<close>

text \<open>
  Fewer than \<open>2^64\<close> \<open>Call\<close> objects have been made, so that \<open>client.seq\<close> has not wrapped around. The
  sequence numbers are then 1, 2, 3, ... in the order of registration, and the entries of \<open>pending\<close>
  are registered calls under their own number.
\<close>

definition bounded :: "client \<Rightarrow> bool" where
  "bounded s \<longleftrightarrow> cl_ncalls s < 2 ^ 64"

definition inv_seq :: "client \<Rightarrow> bool" where
  "inv_seq s \<longleftrightarrow>
     distinct (cl_registered s) \<and>
     (\<forall>c \<in> set (cl_registered s). c < cl_ncalls s \<and> cl_sender s c \<noteq> Some SWaiting) \<and>
     cl_seq s = of_nat (length (cl_registered s)) \<and>
     (\<forall>i < length (cl_registered s).
        c_seq (cl_calls s (cl_registered s ! i)) = of_nat (Suc i)) \<and>
     (\<forall>c. cl_sender s c = Some SWaiting \<longrightarrow> c_seq (cl_calls s c) = 0) \<and>
     (\<forall>c. cl_sender s c \<noteq> None \<longrightarrow> c_seq (cl_calls s c) \<noteq> 0 \<longrightarrow>
        c \<in> set (cl_registered s) \<or> by_ctx (cl_caller s c)) \<and>
     (\<forall>n c. cl_pending s n = Some c \<longrightarrow>
        c \<in> set (cl_registered s) \<and> c_seq (cl_calls s c) = n) \<and>
     (\<forall>c n. cl_sender s c = Some (SWriting n) \<longrightarrow>
        c \<in> set (cl_registered s) \<and> c_seq (cl_calls s c) = n \<and>
        cl_request s = \<lparr>req_method = c_method (cl_calls s c), req_seq = n\<rparr>) \<and>
     (\<forall>c n e. cl_sender s c = Some (SWriteErr n e) \<longrightarrow>
        c \<in> set (cl_registered s) \<and> c_seq (cl_calls s c) = n)"

lemma inv_seqD:
  assumes "inv_seq s"
  shows inv_seq_distinct: "distinct (cl_registered s)"
    and inv_seq_registered: "c \<in> set (cl_registered s) \<Longrightarrow>
      c < cl_ncalls s \<and> cl_sender s c \<noteq> Some SWaiting"
    and inv_seq_seq: "cl_seq s = of_nat (length (cl_registered s))"
    and inv_seq_nth: "i < length (cl_registered s) \<Longrightarrow>
      c_seq (cl_calls s (cl_registered s ! i)) = of_nat (Suc i)"
    and inv_seq_waiting: "cl_sender s c = Some SWaiting \<Longrightarrow> c_seq (cl_calls s c) = 0"
    and inv_seq_nonzero: "cl_sender s c = Some p \<Longrightarrow> c_seq (cl_calls s c) \<noteq> 0 \<Longrightarrow>
      c \<in> set (cl_registered s) \<or> by_ctx (cl_caller s c)"
    and inv_seq_pending: "cl_pending s n = Some c \<Longrightarrow>
      c \<in> set (cl_registered s) \<and> c_seq (cl_calls s c) = n"
    and inv_seq_writing: "cl_sender s c = Some (SWriting n) \<Longrightarrow>
      c \<in> set (cl_registered s) \<and> c_seq (cl_calls s c) = n \<and>
      cl_request s = \<lparr>req_method = c_method (cl_calls s c), req_seq = n\<rparr>"
    and inv_seq_write_err: "cl_sender s c = Some (SWriteErr n e) \<Longrightarrow>
      c \<in> set (cl_registered s) \<and> c_seq (cl_calls s c) = n"
  using assms by (simp_all add: inv_seq_def)

lemma inv_seq_new: "inv_seq s \<Longrightarrow> cl_ncalls s \<notin> set (cl_registered s)"
  using inv_seq_registered by blast

lemma inv_seq_length: "inv_seq s \<Longrightarrow> length (cl_registered s) \<le> cl_ncalls s"
  by (rule distinct_bounded_length) (simp_all add: inv_seqD)

lemma inv_seq_index:
  assumes "inv_seq s" and "c \<in> set (cl_registered s)"
  obtains i where "i < length (cl_registered s)" "cl_registered s ! i = c"
    "c_seq (cl_calls s c) = of_nat (Suc i)" "Suc i \<le> cl_ncalls s"
proof -
  from assms(2) obtain i where i: "i < length (cl_registered s)" "cl_registered s ! i = c"
    by (auto simp: in_set_conv_nth)
  with inv_seq_nth [OF assms(1)] inv_seq_length [OF assms(1)] show thesis
    by (intro that [of i]) (auto simp del: of_nat_Suc)
qed

lemma inv_seq_nonzero_registered:
  assumes "inv_seq s" "bounded s" "c \<in> set (cl_registered s)"
  shows "c_seq (cl_calls s c) \<noteq> 0"
proof -
  from assms obtain i where "c_seq (cl_calls s c) = of_nat (Suc i)" "Suc i \<le> cl_ncalls s"
    by (blast elim: inv_seq_index)
  with assms(2) show ?thesis
    using u64_of_nat_neq_0 [of "Suc i"] by (simp add: bounded_def del: of_nat_Suc)
qed

lemma inv_seq_inj:
  assumes "inv_seq s" "bounded s" "c \<in> set (cl_registered s)" "c' \<in> set (cl_registered s)"
    and "c_seq (cl_calls s c) = c_seq (cl_calls s c')"
  shows "c = c'"
proof -
  from assms(1,3) obtain i where i: "cl_registered s ! i = c"
      "c_seq (cl_calls s c) = of_nat (Suc i)" "Suc i \<le> cl_ncalls s"
    by (blast elim: inv_seq_index)
  from assms(1,4) obtain j where j: "cl_registered s ! j = c'"
      "c_seq (cl_calls s c') = of_nat (Suc j)" "Suc j \<le> cl_ncalls s"
    by (blast elim: inv_seq_index)
  from i j assms(2,5) have "Suc i = Suc j"
    using u64_of_nat_eq_iff [of "Suc i" "Suc j"] by (simp add: bounded_def del: of_nat_Suc)
  with i j show ?thesis by simp
qed

lemma inv_seq_pending_inj:
  assumes "inv_seq s" "cl_pending s n = Some c" "cl_pending s n' = Some c"
  shows "n = n'"
  using inv_seq_pending [OF assms(1)] assms(2,3) by blast

lemma inv_seq_pending_0:
  "inv_seq s \<Longrightarrow> bounded s \<Longrightarrow> cl_pending s 0 = None"
  by (metis inv_seq_nonzero_registered inv_seq_pending not_None_eq)

text \<open>The number the next registration uses is not in \<open>pending\<close>.\<close>

lemma inv_seq_next_free:
  assumes "inv_seq s" "bounded s" "c \<notin> set (cl_registered s)" "c < cl_ncalls s"
  shows "cl_pending s (cl_seq s + 1) = None"
proof (rule ccontr)
  assume "cl_pending s (cl_seq s + 1) \<noteq> None"
  then obtain c' where "cl_pending s (cl_seq s + 1) = Some c'" by blast
  with assms(1) have c': "c' \<in> set (cl_registered s)" "c_seq (cl_calls s c') = cl_seq s + 1"
    by (simp_all add: inv_seqD)
  have "length (cl_registered s @ [c]) \<le> cl_ncalls s"
    using assms(1,3,4) by (intro distinct_bounded_length) (auto simp: inv_seqD)
  then have len: "Suc (length (cl_registered s)) < 2 ^ 64"
    using assms(2) by (simp add: bounded_def)
  from c' assms(1) obtain i where i: "i < length (cl_registered s)"
      "c_seq (cl_calls s c') = of_nat (Suc i)"
    by (blast elim: inv_seq_index)
  with c' assms(1) have "(of_nat (Suc i) :: u64) = of_nat (Suc (length (cl_registered s)))"
    by (simp add: inv_seqD add.commute)
  with i(1) len show False
    using u64_of_nat_eq_iff [of "Suc i" "Suc (length (cl_registered s))"]
    by (simp del: of_nat_Suc)
qed

text \<open>Steps that register nothing: the sender places move forward and \<open>pending\<close> shrinks.\<close>

lemma inv_seq_weaken:
  assumes "inv_seq s"
    and "cl_registered t = cl_registered s" "cl_seq t = cl_seq s" "cl_request t = cl_request s"
    and "cl_ncalls t = cl_ncalls s"
    and "\<And>c. c_seq (cl_calls t c) = c_seq (cl_calls s c)"
    and "\<And>c. c_method (cl_calls t c) = c_method (cl_calls s c)"
    and "\<And>n c. cl_pending t n = Some c \<Longrightarrow> cl_pending s n = Some c"
    and "\<And>c p. cl_sender t c = Some p \<Longrightarrow> cl_sender s c = Some p \<or> p = SDone \<and> cl_sender s c \<noteq> None \<or>
      (\<exists>n e. p = SWriteErr n e \<and> cl_sender s c = Some (SWriting n))"
    and "\<And>c. by_ctx (cl_caller s c) \<Longrightarrow> by_ctx (cl_caller t c)"
  shows "inv_seq t"
  unfolding inv_seq_def assms(2-7)
proof (intro conjI allI impI ballI)
  show "distinct (cl_registered s)" by (rule inv_seqD [OF assms(1)])
next
  fix c assume "c \<in> set (cl_registered s)"
  with assms(1) have c: "c < cl_ncalls s" "cl_sender s c \<noteq> Some SWaiting" by (simp_all add: inv_seqD)
  show "c < cl_ncalls s" by (rule c)
  show "cl_sender t c \<noteq> Some SWaiting" using c(2) assms(9) [of c SWaiting] by auto
next
  show "cl_seq s = of_nat (length (cl_registered s))" by (rule inv_seqD [OF assms(1)])
next
  fix i assume "i < length (cl_registered s)"
  then show "c_seq (cl_calls s (cl_registered s ! i)) = of_nat (Suc i)"
    by (rule inv_seq_nth [OF assms(1)])
next
  fix c assume "cl_sender t c = Some SWaiting"
  then have "cl_sender s c = Some SWaiting" using assms(9) by fastforce
  then show "c_seq (cl_calls s c) = 0" by (rule inv_seq_waiting [OF assms(1)])
next
  fix c assume "cl_sender t c \<noteq> None" and nz: "c_seq (cl_calls s c) \<noteq> 0"
  then obtain p where "cl_sender s c = Some p" using assms(9) by fastforce
  from inv_seq_nonzero [OF assms(1) this nz]
  show "c \<in> set (cl_registered s) \<or> by_ctx (cl_caller t c)" using assms(10) by blast
next
  fix n c assume "cl_pending t n = Some c"
  from inv_seq_pending [OF assms(1) assms(8) [OF this]]
  show "c \<in> set (cl_registered s)" "c_seq (cl_calls s c) = n" by simp_all
next
  fix c n assume "cl_sender t c = Some (SWriting n)"
  then have "cl_sender s c = Some (SWriting n)" using assms(9) by fastforce
  from inv_seq_writing [OF assms(1) this]
  show "c \<in> set (cl_registered s)" "c_seq (cl_calls s c) = n"
    "cl_request s = \<lparr>req_method = c_method (cl_calls s c), req_seq = n\<rparr>" by simp_all
next
  fix c n e assume "cl_sender t c = Some (SWriteErr n e)"
  then have "cl_sender s c = Some (SWriteErr n e) \<or> cl_sender s c = Some (SWriting n)"
    using assms(9) by fastforce
  then show "c \<in> set (cl_registered s)" "c_seq (cl_calls s c) = n"
    using inv_seq_writing [OF assms(1)] inv_seq_write_err [OF assms(1)] by blast+
qed

lemma inv_seq_alloc:
  assumes "inv_alloc s" "inv_seq s" "c_seq k = 0"
  shows "inv_seq (alloc_call k s)"
proof -
  have new: "cl_ncalls s \<notin> set (cl_registered s)"
    using inv_seq_registered [OF assms(2)] by blast
  have old: "cl_pending s n \<noteq> Some (cl_ncalls s)" for n
    using new inv_seq_pending [OF assms(2)] by blast
  have nth: "cl_registered s ! i \<noteq> cl_ncalls s" if "i < length (cl_registered s)" for i
    using new that nth_mem by fastforce
  have none: "cl_sender s (cl_ncalls s) = None" by (rule inv_alloc_fresh [OF assms(1)])
  show ?thesis
    unfolding inv_seq_def
  proof (intro conjI allI impI ballI)
    fix c n assume "cl_sender (alloc_call k s) c = Some (SWriting n)"
    then have "cl_sender s c = Some (SWriting n)" "c \<noteq> cl_ncalls s"
      using none by (auto simp: alloc_call_def split: if_splits)
    with inv_seq_writing [OF assms(2), of c n]
    show "c \<in> set (cl_registered (alloc_call k s))"
      "c_seq (cl_calls (alloc_call k s) c) = n"
      "cl_request (alloc_call k s) =
         \<lparr>req_method = c_method (cl_calls (alloc_call k s) c), req_seq = n\<rparr>"
      by (simp_all add: alloc_call_def)
  qed (use inv_seqD [OF assms(2)] assms(3) new old nth in
        \<open>auto simp: alloc_call_def less_Suc_eq split: if_splits dest: inv_seq_nonzero [OF assms(2)]\<close>)
qed

lemma inv_seq_register:
  assumes "inv_alloc s" "inv_lock s" "inv_seq s"
    and "cl_sender s c = Some SWaiting" "cl_reqmu s = None" "n = cl_seq s + 1"
  shows "inv_seq (s\<lparr>cl_seq := n,
             cl_calls := (cl_calls s)(c := (cl_calls s c)\<lparr>c_seq := n\<rparr>),
             cl_pending := (cl_pending s)(n \<mapsto> c),
             cl_request := \<lparr>req_method = c_method (cl_calls s c), req_seq = n\<rparr>,
             cl_reqmu := Some c,
             cl_registered := cl_registered s @ [c],
             cl_sender := (cl_sender s)(c \<mapsto> SWriting n)\<rparr>)"
proof -
  have new: "c \<notin> set (cl_registered s)"
    using inv_seq_registered [OF assms(3)] assms(4) by blast
  have lt: "c < cl_ncalls s" by (rule inv_alloc_fresh(3) [OF assms(1,4)])
  have old: "cl_pending s m \<noteq> Some c" for m
    using new inv_seq_pending [OF assms(3)] by blast
  have nth: "cl_registered s ! i \<noteq> c" if "i < length (cl_registered s)" for i
    using new that nth_mem by fastforce
  have alone: "\<not> in_write (cl_sender s x)" for x
    using assms(2,5) by (metis inv_lock_def option.distinct(1))
  then have alone': "cl_sender s x \<noteq> Some (SWriting m)" "cl_sender s x \<noteq> Some (SWriteErr m e)"
    for x m e using in_write.simps by metis+
  have n: "n = of_nat (Suc (length (cl_registered s)))"
    using assms(6) inv_seq_seq [OF assms(3)] by simp
  show ?thesis
    unfolding inv_seq_def n
    using inv_seqD [OF assms(3)] new lt old nth alone'
    by (auto simp: nth_append less_Suc_eq split: if_splits simp del: of_nat_Suc
          dest: inv_seq_nonzero [OF assms(3)])
qed

lemma bounded_mono: "bounded t \<Longrightarrow> cl_ncalls s \<le> cl_ncalls t \<Longrightarrow> bounded s"
  by (simp add: bounded_def)

lemma client_step_ncalls: "client_step s t \<Longrightarrow> cl_ncalls s \<le> cl_ncalls t"
  by (induction rule: client_step.induct) (auto simp: op_allocs split: if_splits elim!: op_elims)

lemma client_step_bounded: "client_step s t \<Longrightarrow> bounded t \<Longrightarrow> bounded s"
  by (blast intro: bounded_mono client_step_ncalls)

lemma inv_seq_unsent:
  assumes "inv_seq s" "bounded s" "cl_caller s c = Some CSelect" "cl_sender s c = Some SDone"
    "c_seq (cl_calls s c) = 0"
  shows "inv_seq (s\<lparr>cl_pending := (cl_pending s)(0 := None),
             cl_calls := (cl_calls s)(c := (cl_calls s c)\<lparr>c_seq := 1\<rparr>),
             cl_caller := (cl_caller s)(c \<mapsto> CCtx e)\<rparr>)"
proof -
  have new: "c \<notin> set (cl_registered s)"
    using inv_seq_nonzero_registered [OF assms(1,2)] assms(5) by blast
  have nth: "cl_registered s ! i \<noteq> c" if "i < length (cl_registered s)" for i
    using new that nth_mem by fastforce
  have old: "cl_pending s m \<noteq> Some c" for m
    using new inv_seq_pending [OF assms(1)] by blast
  show ?thesis
    unfolding inv_seq_def
    using inv_seqD [OF assms(1)] new old nth assms(3,4)
    by (auto split: if_splits simp del: of_nat_Suc dest: inv_seq_nonzero [OF assms(1)])
qed

lemma inv_seq_call:
  assumes step_call: "client_call m a r s = Some (c, t)" "bounded t" "inv_alloc s" "inv_lock s" "inv_seq s"
  shows "inv_seq t"
proof -
  have "inv_seq (alloc_call (new_call m a r (cl_nchans s)) (snd (make_chan 2 s)))"
    by (rule inv_seq_alloc)
       (use step_call in \<open>auto simp: make_chan_def new_call_def inv_alloc_def inv_seq_def\<close>)
  moreover have "\<not> by_ctx (cl_caller s (cl_ncalls s))"
    using inv_alloc_fresh(2) [of s] step_call by simp
  ultimately show ?thesis
    using step_call
    by (elim inv_seq_weaken) (auto simp: client_call_eq alloc_call_def make_chan_def)
qed

lemma inv_seq_enter:
  assumes step_enter: "send_enter c s = Some t" "bounded t" "inv_alloc s" "inv_lock s" "inv_seq s"
  shows "inv_seq t"
proof -
  from step_enter(1) show ?thesis
  proof (cases rule: send_enterE)
    case (registered n)
    with step_enter show ?thesis by (simp add: inv_seq_register)
  next
    case refused
    then show ?thesis by (intro inv_seq_weaken [OF \<open>inv_seq s\<close>]) (auto split: if_splits)
  next
    case cancelled
    then show ?thesis by (intro inv_seq_weaken [OF \<open>inv_seq s\<close>]) (auto split: if_splits)
  qed
qed

lemma inv_seq_ctx:
  assumes step_ctx: "call_ctx_done e c s = Some t" "bounded t" "inv_alloc s" "inv_lock s" "inv_seq s"
  shows "inv_seq t"
proof -
  have b: "bounded s" using step_ctx client_step_bounded client_step.step_ctx by blast
  from step_ctx(1) show ?thesis
  proof (cases rule: call_ctx_doneE)
    case unsent
    with step_ctx b show ?thesis by (simp add: inv_seq_unsent)
  next
    case answered
    then show ?thesis by (intro inv_seq_weaken [OF \<open>inv_seq s\<close>]) auto
  next
    case (pending n)
    let ?s = "s\<lparr>cl_pending := (cl_pending s)(n := None)\<rparr>"
    have "inv_seq ?s" by (rule inv_seq_weaken [OF \<open>inv_seq s\<close>]) (auto split: if_splits)
    then have "inv_seq (alloc_call (new_call cancel_method (cancel_args n) None
        (c_done (cl_calls s c))) ?s)"
      by (intro inv_seq_alloc) (use step_ctx in \<open>auto simp: new_call_def inv_alloc_def\<close>)
    then show ?thesis
      unfolding pending by (rule inv_seq_weaken) (auto simp: alloc_call_def)
  qed
qed

lemma inv_seq_step:
  assumes "client_step s t" "bounded t" "inv_alloc s" "inv_lock s" "inv_seq s"
  shows "inv_seq t"
  using assms
proof (induction rule: client_step.induct)
  case (step_go m a r s c t)
  have "inv_seq (alloc_call (new_call m a r (cl_nchans s)) (snd (make_chan 10 s)))"
    by (rule inv_seq_alloc)
       (use step_go in \<open>auto simp: make_chan_def new_call_def inv_alloc_def inv_seq_def\<close>)
  with step_go show ?case by (simp add: client_go_new)
next
  case (step_go_on d s m a r c t)
  then show ?case
    by (auto simp: client_go_on new_call_def intro!: inv_seq_alloc split: if_splits)
next
  case (step_call m a r s c t)
  then show ?case by (rule inv_seq_call)
next
  case (step_enter c s t)
  then show ?case by (rule inv_seq_enter)
next
  case (step_ctx e c s t)
  then show ?case by (rule inv_seq_ctx)
qed (rule inv_seq_weaken, assumption; fastforce elim!: op_elims split: if_splits)+

end
