(* ===== verification/ClientDone.thy ===== *)
theory ClientDone
  imports ClientInv "HOL-Library.Sublist"
begin

text \<open>
  Completion: every call is signalled at most once, and every call whose \<open>send\<close> has started is in
  exactly one known place until it is signalled or its context ends it.
\<close>

section \<open>The invariant\<close>

text \<open>The call whose response the reader has in hand.\<close>

fun in_hand :: "reader_pc \<Rightarrow> nat option" where
  "in_hand (RGot oc r) = oc"
| "in_hand _ = None"

definition inv_once :: "client \<Rightarrow> bool" where
  "inv_once s \<longleftrightarrow>
     distinct (cl_signalled s) \<and>
     (\<forall>c \<in> set (cl_signalled s). c < cl_ncalls s \<and> cl_sender s c \<noteq> Some SWaiting) \<and>
     (cl_shutdown s \<longleftrightarrow> cl_reader s = REnded) \<and>
     (cl_shutdown s \<longrightarrow> cl_reqmu s = None) \<and>
     (\<forall>n c. cl_pending s n = Some c \<longrightarrow> (c \<in> set (cl_signalled s) \<longleftrightarrow> cl_shutdown s)) \<and>
     (\<forall>c. in_hand (cl_reader s) = Some c \<longrightarrow>
        c \<in> set (cl_registered s) \<and> c \<notin> set (cl_signalled s) \<and> (\<forall>n. cl_pending s n \<noteq> Some c))"

definition settled :: "client \<Rightarrow> nat \<Rightarrow> bool" where
  "settled s c \<longleftrightarrow> c \<in> set (cl_signalled s) \<or> by_ctx (cl_caller s c)"

definition inv_track :: "client \<Rightarrow> bool" where
  "inv_track s \<longleftrightarrow>
     (\<forall>c < cl_ncalls s. cl_sender s c = Some SWaiting \<or> settled s c \<or>
        c \<in> ran (cl_pending s) \<or> in_hand (cl_reader s) = Some c)"

lemma inv_onceD:
  assumes "inv_once s"
  shows inv_once_distinct: "distinct (cl_signalled s)"
    and inv_once_started: "c \<in> set (cl_signalled s) \<Longrightarrow>
      c < cl_ncalls s \<and> cl_sender s c \<noteq> Some SWaiting"
    and inv_once_ended: "cl_shutdown s \<longleftrightarrow> cl_reader s = REnded"
    and inv_once_free: "cl_shutdown s \<Longrightarrow> cl_reqmu s = None"
    and inv_once_pending: "cl_pending s n = Some c \<Longrightarrow> c \<in> set (cl_signalled s) \<longleftrightarrow> cl_shutdown s"
    and inv_once_hand: "in_hand (cl_reader s) = Some c \<Longrightarrow>
      c \<in> set (cl_registered s) \<and> c \<notin> set (cl_signalled s) \<and> cl_pending s n \<noteq> Some c"
  using assms by (simp_all add: inv_once_def)

text \<open>A call that is signalled again would have to be pending, in hand or not yet started.\<close>

lemma inv_once_waiting:
  assumes "inv_seq s" "inv_once s" "cl_sender s c = Some SWaiting"
  shows "c \<notin> set (cl_signalled s)" "c \<notin> set (cl_registered s)" "cl_pending s n \<noteq> Some c"
    "in_hand (cl_reader s) \<noteq> Some c"
  using inv_once_started [OF assms(2)] inv_seq_registered [OF assms(1)]
    inv_seq_pending [OF assms(1)] inv_once_hand [OF assms(2)] assms(3) by blast+

text \<open>Steps that signal nothing and add nothing to \<open>pending\<close>.\<close>

lemma inv_once_weaken:
  assumes "inv_once s"
    and "cl_signalled t = cl_signalled s" "cl_registered t = cl_registered s"
    and "cl_shutdown t = cl_shutdown s" "cl_reader t = REnded \<longleftrightarrow> cl_reader s = REnded"
    and "cl_reqmu s = None \<Longrightarrow> cl_reqmu t = None" "cl_ncalls s \<le> cl_ncalls t"
    and "\<And>n c. cl_pending t n = Some c \<Longrightarrow> cl_pending s n = Some c"
    and "\<And>c. in_hand (cl_reader t) = Some c \<Longrightarrow> in_hand (cl_reader s) = Some c"
    and "\<And>c. cl_sender t c = Some SWaiting \<Longrightarrow> cl_sender s c = Some SWaiting \<or> cl_ncalls s \<le> c"
  shows "inv_once t"
  unfolding inv_once_def assms(2-4)
proof (intro conjI allI impI ballI)
  fix c assume "c \<in> set (cl_signalled s)"
  with assms(1) have c: "c < cl_ncalls s" "cl_sender s c \<noteq> Some SWaiting" by (simp_all add: inv_onceD)
  show "c < cl_ncalls t" using c assms(7) by simp
  show "cl_sender t c \<noteq> Some SWaiting" using c assms(10) [of c] by auto
next
  fix n c assume "cl_pending t n = Some c"
  from inv_once_pending [OF assms(1) assms(8) [OF this]]
  show "c \<in> set (cl_signalled s) \<longleftrightarrow> cl_shutdown s" .
next
  fix c assume "in_hand (cl_reader t) = Some c"
  from inv_once_hand [OF assms(1) assms(9) [OF this]] assms(8)
  show "c \<in> set (cl_registered s)" "c \<notin> set (cl_signalled s)" "\<And>n. cl_pending t n \<noteq> Some c"
    by blast+
qed (use assms inv_onceD [OF assms(1)] in auto)

text \<open>Signalling one call that is out of \<open>pending\<close> and out of the reader's hand.\<close>

lemma inv_once_signal:
  assumes "inv_once s" "c < cl_ncalls s" "c \<notin> set (cl_signalled s)"
    and "cl_signalled t = cl_signalled s @ [c]" "cl_registered t = cl_registered s"
    and "cl_shutdown t = cl_shutdown s" "cl_reader t = REnded \<longleftrightarrow> cl_reader s = REnded"
    and "cl_reqmu s = None \<Longrightarrow> cl_reqmu t = None" "cl_ncalls t = cl_ncalls s"
    and "\<And>n x. cl_pending t n = Some x \<Longrightarrow> cl_pending s n = Some x \<and> x \<noteq> c"
    and "\<And>x. in_hand (cl_reader t) = Some x \<Longrightarrow> in_hand (cl_reader s) = Some x \<and> x \<noteq> c"
    and "\<And>x. cl_sender t x = Some SWaiting \<Longrightarrow> cl_sender s x = Some SWaiting \<and> x \<noteq> c"
  shows "inv_once t"
  unfolding inv_once_def assms(4-6)
proof (intro conjI allI impI ballI)
  fix x assume "x \<in> set (cl_signalled s @ [c])"
  then have "x = c \<or> x \<in> set (cl_signalled s)" by auto
  then show "x < cl_ncalls t" "cl_sender t x \<noteq> Some SWaiting"
    using assms(2,9,12) inv_once_started [OF assms(1)] by auto
next
  fix n x assume "cl_pending t n = Some x"
  with assms(10) have "cl_pending s n = Some x" "x \<noteq> c" by blast+
  with inv_once_pending [OF assms(1)]
  show "x \<in> set (cl_signalled s @ [c]) \<longleftrightarrow> cl_shutdown s" by simp
next
  fix x assume "in_hand (cl_reader t) = Some x"
  with assms(11) have "in_hand (cl_reader s) = Some x" "x \<noteq> c" by blast+
  with inv_once_hand [OF assms(1)] assms(10)
  show "x \<in> set (cl_registered s)" "x \<notin> set (cl_signalled s @ [c])" "\<And>n. cl_pending t n \<noteq> Some x"
    by fastforce+
qed (use assms inv_onceD [OF assms(1)] in auto)

lemma inv_once_alloc:
  "inv_alloc s \<Longrightarrow> inv_once s \<Longrightarrow> inv_once (alloc_call k s)"
  by (erule inv_once_weaken) (auto simp: alloc_call_def split: if_splits)

lemma inv_once_make_chan: "inv_once s \<Longrightarrow> inv_once (snd (make_chan n s))"
  by (erule inv_once_weaken) (auto simp: make_chan_def)

lemma pending_calls_distinct:
  assumes "inv_seq s" "distinct ks" "set ks = dom (cl_pending s)"
  shows "distinct (map (the \<circ> cl_pending s) ks)"
  unfolding distinct_map
proof (intro conjI inj_onI assms(2))
  fix x y assume "x \<in> set ks" "y \<in> set ks" "(the \<circ> cl_pending s) x = (the \<circ> cl_pending s) y"
  then obtain a where "cl_pending s x = Some a" "cl_pending s y = Some a"
    using assms(3) by (auto simp: dom_def)
  then show "x = y" by (rule inv_seq_pending_inj [OF assms(1)])
qed

lemma pending_calls_set:
  "set ks = dom (cl_pending s) \<Longrightarrow> set (map (the \<circ> cl_pending s) ks) = ran (cl_pending s)"
  by (force simp: ran_def dom_def image_iff)

lemma inv_once_enter:
  assumes step_enter: "send_enter c s = Some t" "bounded t" "inv_alloc s" "inv_lock s" "inv_seq s" "inv_once s"
  shows "inv_once t"
proof -
  note w = inv_once_waiting [OF \<open>inv_seq s\<close> \<open>inv_once s\<close>, of c]
  note lt = inv_alloc_fresh(3) [OF \<open>inv_alloc s\<close>, of c]
  from step_enter(1) show ?thesis
  proof (cases rule: send_enterE)
    case refused
    with w lt show ?thesis
      by (intro inv_once_signal [OF \<open>inv_once s\<close>, of c]) (auto split: if_splits)
  next
    case cancelled
    with w lt show ?thesis
      by (intro inv_once_signal [OF \<open>inv_once s\<close>, of c]) (auto split: if_splits)
  next
    case (registered n)
    with w lt inv_onceD [OF \<open>inv_once s\<close>] show ?thesis
      unfolding inv_once_def by (auto split: if_splits)
  qed
qed

lemma inv_once_unregister:
  assumes step_unregister: "send_unregister c s = Some t" "bounded t" "inv_alloc s" "inv_lock s" "inv_seq s"
      "inv_once s"
  shows "inv_once t"
proof -
  note I = \<open>inv_seq s\<close> \<open>inv_once s\<close>
  from step_unregister(1) show ?thesis
  proof (cases rule: send_unregisterE)
    case gone
    then show ?thesis by (intro inv_once_weaken [OF I(2)]) (auto split: if_splits)
  next
    case (there n e c')
    have "\<not> cl_shutdown s"
      using inv_once_free [OF I(2)] inv_lockD(2) [OF \<open>inv_lock s\<close> there(1)] by auto
    then have "c' \<notin> set (cl_signalled s)" using inv_once_pending [OF I(2) there(2)] by simp
    moreover have "c' < cl_ncalls s" "cl_sender s c' \<noteq> Some SWaiting"
      using inv_seq_pending [OF I(1) there(2)] inv_seq_registered [OF I(1)] by blast+
    moreover have "cl_pending s m \<noteq> Some c'" if "m \<noteq> n" for m
      using that inv_seq_pending_inj [OF I(1) there(2)] by blast
    ultimately show ?thesis
      using there inv_once_hand [OF I(2)]
      by (intro inv_once_signal [OF I(2), of c']) (auto split: if_splits)
  qed
qed

lemma inv_once_ctx:
  assumes step_ctx: "call_ctx_done e c s = Some t" "bounded t" "inv_alloc s" "inv_lock s" "inv_seq s" "inv_once s"
  shows "inv_once t"
proof -
  from step_ctx(1) show ?thesis
  proof (cases rule: call_ctx_doneE)
    case (pending n)
    let ?s = "s\<lparr>cl_pending := (cl_pending s)(n := None)\<rparr>"
    have "inv_once ?s" by (rule inv_once_weaken [OF \<open>inv_once s\<close>]) (auto split: if_splits)
    then have "inv_once (alloc_call (new_call cancel_method (cancel_args n) None
        (c_done (cl_calls s c))) ?s)"
      by (intro inv_once_alloc) (use step_ctx in \<open>auto simp: inv_alloc_def\<close>)
    then show ?thesis unfolding pending by (rule inv_once_weaken) auto
  qed (rule inv_once_weaken [OF \<open>inv_once s\<close>]; auto split: if_splits)+
qed

lemma inv_once_header:
  assumes step_header: "input_header h s = Some t" "bounded t" "inv_alloc s" "inv_lock s" "inv_seq s" "inv_once s"
  shows "inv_once t"
proof -
  note I = \<open>inv_seq s\<close> \<open>inv_once s\<close>
  from step_header(1) show ?thesis
  proof (cases rule: input_headerE)
    case failed
    then show ?thesis by (intro inv_once_weaken [OF I(2)]) auto
  next
    case (got resp)
    show ?thesis
    proof (cases "cl_pending s (resp_seq resp)")
      case None
      with got show ?thesis by (intro inv_once_weaken [OF I(2)]) (auto split: if_splits)
    next
      case (Some c)
      have run: "\<not> cl_shutdown s" using got inv_once_ended [OF I(2)] by simp
      have "c \<in> set (cl_registered s)" "c \<notin> set (cl_signalled s)"
        using run inv_seq_pending [OF I(1) Some] inv_once_pending [OF I(2) Some] by blast+
      moreover have "cl_pending s m \<noteq> Some c" if "m \<noteq> resp_seq resp" for m
        using that inv_seq_pending_inj [OF I(1) Some] by blast
      ultimately show ?thesis
        using got Some run inv_onceD [OF I(2)]
        unfolding inv_once_def by (auto split: if_splits)
    qed
  qed
qed

lemma inv_once_body:
  assumes step_body: "input_body b s = Some t" "bounded t" "inv_alloc s" "inv_lock s" "inv_seq s" "inv_once s"
  shows "inv_once t"
proof -
  note I = \<open>inv_seq s\<close> \<open>inv_once s\<close>
  have hand: "c \<notin> set (cl_signalled s)" "c < cl_ncalls s" "cl_sender s c \<noteq> Some SWaiting"
    "\<And>n. cl_pending s n \<noteq> Some c" if "cl_reader s = RGot (Some c) resp" for c resp
    using inv_once_hand [OF I(2), of c] inv_seq_registered [OF I(1), of c] that by auto
  from step_body(1) show ?thesis
  proof (cases rule: input_bodyE)
    case nobody
    then show ?thesis by (intro inv_once_weaken [OF I(2)]) auto
  next
    case (errored c resp p)
    with hand [of c resp] show ?thesis by (intro inv_once_signal [OF I(2), of c]) auto
  next
    case (undecoded c resp e)
    with hand [of c resp] show ?thesis by (intro inv_once_signal [OF I(2), of c]) auto
  next
    case (replied c resp v)
    with hand [of c resp] show ?thesis by (intro inv_once_signal [OF I(2), of c]) auto
  qed
qed

lemma inv_once_terminate:
  assumes step_terminate: "input_terminate ks s = Some t" "bounded t" "inv_alloc s" "inv_lock s" "inv_seq s"
      "inv_once s"
  shows "inv_once t"
proof -
  note I = \<open>inv_seq s\<close> \<open>inv_once s\<close>
  from step_terminate(1) obtain e where e: "cl_reader s = RTerm e" "cl_reqmu s = None"
      "distinct ks" "set ks = dom (cl_pending s)"
      "t = (fail_calls (shutdown_error (cl_closing s) e) (map (the \<circ> cl_pending s) ks)
            (s\<lparr>cl_shutdown := True\<rparr>))\<lparr>cl_reader := REnded\<rparr>"
    by (rule input_terminateE)
  have run: "\<not> cl_shutdown s" using e(1) inv_once_ended [OF I(2)] by simp
  have fresh: "c \<notin> set (cl_signalled s)" "c < cl_ncalls s" "cl_sender s c \<noteq> Some SWaiting"
    if "c \<in> ran (cl_pending s)" for c
    using that run inv_once_pending [OF I(2)] inv_seq_pending [OF I(1)]
      inv_seq_registered [OF I(1)] by (auto simp: ran_def)
  have "set (map (the \<circ> cl_pending s) ks) = ran (cl_pending s)"
    using e(4) by (rule pending_calls_set)
  then show ?thesis
    unfolding inv_once_def
    using e inv_onceD [OF I(2)] fresh pending_calls_distinct [OF I(1) e(3,4)]
    by (auto simp del: set_map distinct_map intro: ranI)
qed

lemma inv_once_step:
  assumes "client_step s t" "bounded t" "inv_alloc s" "inv_lock s" "inv_seq s" "inv_once s"
  shows "inv_once t"
  using assms
proof (induction rule: client_step.induct)
  case (step_go m a r s c t)
  then have "inv_once (alloc_call (new_call m a r (cl_nchans s)) (snd (make_chan 10 s)))"
    by (intro inv_once_alloc inv_once_make_chan) (auto simp: make_chan_def inv_alloc_def)
  with step_go show ?case by (simp add: client_go_new)
next
  case (step_go_on d s m a r c t)
  then show ?case by (auto simp: client_go_on intro!: inv_once_alloc split: if_splits)
next
  case (step_call m a r s c t)
  then have "inv_once (alloc_call (new_call m a r (cl_nchans s)) (snd (make_chan 2 s)))"
    by (intro inv_once_alloc inv_once_make_chan) (auto simp: make_chan_def inv_alloc_def)
  with step_call show ?case
    by (elim inv_once_weaken) (auto simp: client_call_eq)
next
  case (step_enter c s t)
  then show ?case by (rule inv_once_enter)
next
  case (step_unregister c s t)
  then show ?case by (rule inv_once_unregister)
next
  case (step_ctx e c s t)
  then show ?case by (rule inv_once_ctx)
next
  case (step_header h s t)
  then show ?case by (rule inv_once_header)
next
  case (step_body b s t)
  then show ?case by (rule inv_once_body)
next
  case (step_terminate ks s t)
  then show ?case by (rule inv_once_terminate)
qed (rule inv_once_weaken, assumption; fastforce elim!: op_elims split: if_splits)+


section \<open>No call is lost\<close>

lemma inv_track_weaken:
  assumes "inv_track s"
    and "\<And>c. settled s c \<Longrightarrow> settled t c"
    and "\<And>c. c < cl_ncalls t \<Longrightarrow> c < cl_ncalls s \<or> cl_sender t c = Some SWaiting"
    and "\<And>c. cl_sender s c = Some SWaiting \<Longrightarrow>
      cl_sender t c = Some SWaiting \<or> settled t c \<or> c \<in> ran (cl_pending t)"
    and "\<And>n c. cl_pending s n = Some c \<Longrightarrow>
      c \<in> ran (cl_pending t) \<or> settled t c \<or> in_hand (cl_reader t) = Some c"
    and "\<And>c. in_hand (cl_reader s) = Some c \<Longrightarrow> settled t c \<or> in_hand (cl_reader t) = Some c"
  shows "inv_track t"
  unfolding inv_track_def
proof (intro allI impI)
  fix c assume "c < cl_ncalls t"
  then consider "cl_sender t c = Some SWaiting" | "c < cl_ncalls s" using assms(3) by blast
  then show "cl_sender t c = Some SWaiting \<or> settled t c \<or> c \<in> ran (cl_pending t) \<or>
      in_hand (cl_reader t) = Some c"
  proof cases
    case 2
    then consider "cl_sender s c = Some SWaiting" | "settled s c" | n where "cl_pending s n = Some c"
      | "in_hand (cl_reader s) = Some c"
      using assms(1) by (auto simp: inv_track_def ran_def)
    then show ?thesis using assms(2,4,5,6) by cases blast+
  qed simp
qed

lemma inv_track_alloc:
  "inv_track s \<Longrightarrow> inv_track (alloc_call k s)"
  by (erule inv_track_weaken) (auto simp: alloc_call_def settled_def less_Suc_eq ran_def)

lemma inv_track_make_chan: "inv_track s \<Longrightarrow> inv_track (snd (make_chan n s))"
  by (erule inv_track_weaken) (auto simp: make_chan_def settled_def ran_def)

lemma ran_updI: "m n = Some c \<Longrightarrow> n \<noteq> k \<Longrightarrow> c \<in> ran (m(k := v))"
  by (auto simp: ran_def)

lemma inv_track_enter:
  assumes step_enter: "send_enter c s = Some t" "bounded t" "inv_alloc s" "inv_lock s" "inv_seq s" "inv_track s"
  shows "inv_track t"
proof -
  have b: "bounded s"
    by (rule client_step_bounded [OF client_step.step_enter [OF step_enter(1)] \<open>bounded t\<close>])
  from step_enter(1) show ?thesis
  proof (cases rule: send_enterE)
    case (registered n)
    have "c < cl_ncalls s" "c \<notin> set (cl_registered s)"
      using registered(1) inv_alloc_fresh(3) [OF \<open>inv_alloc s\<close>] inv_seq_registered [OF \<open>inv_seq s\<close>]
      by blast+
    then have "cl_pending s n = None"
      unfolding registered(6) by (intro inv_seq_next_free [OF \<open>inv_seq s\<close> b])
    with registered show ?thesis
      by (intro inv_track_weaken [OF \<open>inv_track s\<close>])
         (auto simp: settled_def ran_upd_fresh intro: ranI)
  qed (rule inv_track_weaken [OF \<open>inv_track s\<close>]; auto simp: settled_def intro: ranI)+
qed

lemma inv_track_ctx:
  assumes step_ctx: "call_ctx_done e c s = Some t" "bounded t" "inv_alloc s" "inv_lock s" "inv_seq s" "inv_track s"
  shows "inv_track t"
proof -
  note I = \<open>inv_seq s\<close> \<open>inv_track s\<close>
  have b: "bounded s"
    by (rule client_step_bounded [OF client_step.step_ctx [OF step_ctx(1)] \<open>bounded t\<close>])
  from step_ctx(1) show ?thesis
  proof (cases rule: call_ctx_doneE)
    case unsent
    have "(cl_pending s)(0 := None) = cl_pending s"
      using inv_seq_pending_0 [OF I(1) b] by auto
    with unsent show ?thesis
      by (intro inv_track_weaken [OF I(2)]) (auto simp: settled_def intro: ranI)
  next
    case answered
    then show ?thesis
      by (intro inv_track_weaken [OF I(2)]) (auto simp: settled_def ran_def split: if_splits)
  next
    case (pending n)
    have c: "c \<in> set (cl_registered s)"
      using inv_seq_nonzero [OF I(1) pending(2)] pending(1,3,4) by auto
    have self: "x = c" if "cl_pending s n = Some x" for x
      using that inv_seq_pending [OF I(1) that] c pending(3)
      by (intro inv_seq_inj [OF I(1) b]) auto
    have lt: "c < cl_ncalls s" using inv_alloc_fresh(3) [OF \<open>inv_alloc s\<close> pending(2)] .
    show ?thesis
    proof (rule inv_track_weaken [OF I(2)])
      fix k x assume "cl_pending s k = Some x"
      then show "x \<in> ran (cl_pending t) \<or> settled t x \<or> in_hand (cl_reader t) = Some x"
        using self pending(7)
        by (cases "k = n") (auto simp: settled_def alloc_call_def intro: ran_updI)
    qed (use pending(1,7) lt in \<open>auto simp: settled_def alloc_call_def less_Suc_eq\<close>)
  qed
qed

lemma inv_track_unregister:
  assumes step_unregister: "send_unregister c s = Some t" "bounded t" "inv_alloc s" "inv_lock s" "inv_seq s"
      "inv_track s"
  shows "inv_track t"
proof -
  from step_unregister(1) show ?thesis
  proof (cases rule: send_unregisterE)
    case gone
    then show ?thesis
      by (intro inv_track_weaken [OF \<open>inv_track s\<close>]) (auto simp: settled_def intro: ranI)
  next
    case (there n e c')
    show ?thesis
    proof (rule inv_track_weaken [OF \<open>inv_track s\<close>])
      fix k x assume "cl_pending s k = Some x"
      then show "x \<in> ran (cl_pending t) \<or> settled t x \<or> in_hand (cl_reader t) = Some x"
        using there by (cases "k = n") (auto simp: settled_def intro: ran_updI)
    qed (use there in \<open>auto simp: settled_def\<close>)
  qed
qed

lemma inv_track_header:
  assumes step_header: "input_header h s = Some t" "bounded t" "inv_alloc s" "inv_lock s" "inv_seq s" "inv_track s"
  shows "inv_track t"
proof -
  from step_header(1) show ?thesis
  proof (cases rule: input_headerE)
    case failed
    then show ?thesis
      by (intro inv_track_weaken [OF \<open>inv_track s\<close>]) (auto simp: settled_def intro: ranI)
  next
    case (got resp)
    show ?thesis
    proof (rule inv_track_weaken [OF \<open>inv_track s\<close>])
      fix k x assume "cl_pending s k = Some x"
      then show "x \<in> ran (cl_pending t) \<or> settled t x \<or> in_hand (cl_reader t) = Some x"
        using got by (cases "k = resp_seq resp") (auto simp: settled_def intro: ran_updI)
    qed (use got in \<open>auto simp: settled_def\<close>)
  qed
qed

lemma inv_track_step:
  assumes "client_step s t" "bounded t" "inv_alloc s" "inv_lock s" "inv_seq s" "inv_track s"
  shows "inv_track t"
  using assms
proof (induction rule: client_step.induct)
  case (step_go m a r s c t)
  then show ?case by (auto simp: client_go_new intro!: inv_track_alloc inv_track_make_chan)
next
  case (step_go_on d s m a r c t)
  then show ?case by (auto simp: client_go_on intro!: inv_track_alloc split: if_splits)
next
  case (step_call m a r s c t)
  have new: "cl_caller s (cl_ncalls s) = None" by (rule inv_alloc_fresh(2) [OF \<open>inv_alloc s\<close>])
  with step_call show ?case
    by (intro inv_track_weaken [OF \<open>inv_track s\<close>])
       (auto simp: client_call_eq settled_def alloc_call_def make_chan_def less_Suc_eq
          intro: ranI split: if_splits)
next
  case (step_enter c s t)
  then show ?case by (rule inv_track_enter)
next
  case (step_ctx e c s t)
  then show ?case by (rule inv_track_ctx)
next
  case (step_unregister c s t)
  then show ?case by (rule inv_track_unregister)
next
  case (step_header h s t)
  then show ?case by (rule inv_track_header)
next
  case (step_terminate ks s t)
  then obtain e where e: "cl_reader s = RTerm e" "set ks = dom (cl_pending s)"
      "t = (fail_calls (shutdown_error (cl_closing s) e) (map (the \<circ> cl_pending s) ks)
            (s\<lparr>cl_shutdown := True\<rparr>))\<lparr>cl_reader := REnded\<rparr>"
    by (blast elim: input_terminateE)
  then show ?case
    by (intro inv_track_weaken [OF \<open>inv_track s\<close>]) (auto simp: settled_def intro: ranI)
qed (rule inv_track_weaken, assumption;
     fastforce simp: settled_def intro: ranI elim!: op_elims split: if_splits)+


section \<open>The order of requests on the wire\<close>

text \<open>
  \<open>reqMutex\<close> is held from the choice of the sequence number until \<open>WriteRequest\<close> has returned: the
  request being written has the highest number so far, and the requests written before have
  increasing numbers below it.
\<close>

definition is_request_of :: "client \<Rightarrow> request \<times> goval \<Rightarrow> nat \<Rightarrow> bool" where
  "is_request_of s x c \<longleftrightarrow>
     fst x = \<lparr>req_method = c_method (cl_calls s c), req_seq = c_seq (cl_calls s c)\<rparr> \<and>
     snd x = c_args (cl_calls s c)"

definition inv_wire :: "client \<Rightarrow> bool" where
  "inv_wire s \<longleftrightarrow>
     sorted_wrt (<) (map (req_seq \<circ> fst) (cl_tried s)) \<and>
     (\<forall>x \<in> set (cl_tried s). req_seq (fst x) \<le> cl_seq s \<and>
        (\<exists>c \<in> set (cl_registered s). is_request_of s x c)) \<and>
     (\<forall>c n. cl_sender s c = Some (SWriting n) \<longrightarrow>
        n = cl_seq s \<and> (\<forall>x \<in> set (cl_tried s). req_seq (fst x) < n)) \<and>
     subseq (cl_sent s) (cl_tried s)"

lemma inv_wireD:
  assumes "inv_wire s"
  shows inv_wire_sorted: "sorted_wrt (<) (map (req_seq \<circ> fst) (cl_tried s))"
    and inv_wire_le: "x \<in> set (cl_tried s) \<Longrightarrow> req_seq (fst x) \<le> cl_seq s"
    and inv_wire_of: "x \<in> set (cl_tried s) \<Longrightarrow>
      \<exists>c \<in> set (cl_registered s). is_request_of s x c"
    and inv_wire_writing: "cl_sender s c = Some (SWriting n) \<Longrightarrow>
      n = cl_seq s \<and> (\<forall>x \<in> set (cl_tried s). req_seq (fst x) < n)"
    and inv_wire_sent: "subseq (cl_sent s) (cl_tried s)"
  using assms by (simp_all add: inv_wire_def)

lemma inv_wire_weaken:
  assumes "inv_wire s"
    and "cl_tried t = cl_tried s" "cl_sent t = cl_sent s" "cl_seq t = cl_seq s" "cl_registered t = cl_registered s"
    and "\<And>x c. c \<in> set (cl_registered s) \<Longrightarrow> is_request_of s x c \<Longrightarrow> is_request_of t x c"
    and "\<And>c n. cl_sender t c = Some (SWriting n) \<Longrightarrow> cl_sender s c = Some (SWriting n)"
  shows "inv_wire t"
  using assms(1,6,7) unfolding inv_wire_def assms(2-5) by blast

lemma inv_wire_write:
  assumes step_write: "send_write w c s = Some t" "bounded t" "inv_alloc s" "inv_lock s" "inv_seq s" "inv_wire s"
  shows "inv_wire t"
proof -
  let ?x = "(cl_request s, c_args (cl_calls s c))"
  obtain n where s: "cl_sender s c = Some (SWriting n)" using step_write(1) by (elim send_writeE)
  have n: "cl_tried t = cl_tried s @ [?x]" "cl_seq t = cl_seq s" "cl_registered t = cl_registered s"
    "cl_calls t = cl_calls s" "cl_sent t = cl_sent s \<or> cl_sent t = cl_sent s @ [?x]"
    "\<And>k m. cl_sender t k = Some (SWriting m) \<Longrightarrow> cl_sender s k = Some (SWriting m) \<and> k \<noteq> c"
    using step_write(1) by (auto elim!: send_writeE split: if_splits)
  note w = inv_wire_writing [OF \<open>inv_wire s\<close> s] inv_seq_writing [OF \<open>inv_seq s\<close> s]
  have alone: "cl_sender t k \<noteq> Some (SWriting m)" for k m
    using inv_lockD(1) [OF \<open>inv_lock s\<close>, of k] inv_lockD(1) [OF \<open>inv_lock s\<close>, of c] s n(6) [of k m] by auto
  have eq: "is_request_of t = is_request_of s" using n(4) by (simp add: is_request_of_def fun_eq_iff)
  have "is_request_of s ?x c" using w by (simp add: is_request_of_def)
  then show ?thesis
    using w n(1-3,5) alone inv_wireD [OF \<open>inv_wire s\<close>]
    unfolding inv_wire_def eq by (auto simp: sorted_wrt_append)
qed

lemma inv_wire_enter:
  assumes step_enter: "send_enter c s = Some t" "bounded t" "inv_alloc s" "inv_lock s" "inv_seq s" "inv_wire s"
  shows "inv_wire t"
proof -
  have b: "bounded s"
    by (rule client_step_bounded [OF client_step.step_enter [OF step_enter(1)] \<open>bounded t\<close>])
  from step_enter(1) show ?thesis
  proof (cases rule: send_enterE)
    case (registered n)
    have c: "c < cl_ncalls s" "c \<notin> set (cl_registered s)"
      using registered(1) inv_alloc_fresh(3) [OF \<open>inv_alloc s\<close>] inv_seq_registered [OF \<open>inv_seq s\<close>]
      by blast+
    have "length (cl_registered s @ [c]) \<le> cl_ncalls s"
      using c inv_seqD [OF \<open>inv_seq s\<close>] by (intro distinct_bounded_length) auto
    then have "Suc (length (cl_registered s)) < 2 ^ 64" using b by (simp add: bounded_def)
    then have "unat (cl_seq s) < unat n"
      using registered(6) inv_seq_seq [OF \<open>inv_seq s\<close>] u64_unat_Suc by simp
    then have "cl_seq s < n" by (simp add: word_less_nat_alt)
    then have below: "req_seq (fst x) < n" if "x \<in> set (cl_tried s)" for x
      using inv_wire_le [OF \<open>inv_wire s\<close> that] by simp
    have req: "is_request_of t x y" if "y \<in> set (cl_registered s)" "is_request_of s x y" for x y
      using that c registered(7) by (auto simp: is_request_of_def)
    have alone: "cl_sender s x \<noteq> Some (SWriting m)" for x m
      using registered(2) inv_lockD(1) [OF \<open>inv_lock s\<close>] by (metis option.distinct(1))
    have t: "cl_tried t = cl_tried s" "cl_sent t = cl_sent s" "cl_seq t = n" "cl_registered t = cl_registered s @ [c]"
      "cl_sender t = (cl_sender s)(c \<mapsto> SWriting n)"
      using registered(7) by simp_all
    show ?thesis
      unfolding inv_wire_def t
    proof (intro conjI ballI allI impI)
      fix x assume x: "x \<in> set (cl_tried s)"
      show "req_seq (fst x) \<le> n" using below [OF x] by simp
      show "\<exists>y \<in> set (cl_registered s @ [c]). is_request_of t x y"
        using inv_wire_of [OF \<open>inv_wire s\<close> x] req [of _ x] by (metis Un_iff set_append)
    qed (use alone below inv_wire_sorted [OF \<open>inv_wire s\<close>] inv_wire_sent [OF \<open>inv_wire s\<close>] in \<open>auto split: if_splits\<close>)
  qed (rule inv_wire_weaken [OF \<open>inv_wire s\<close>]; auto simp: is_request_of_def split: if_splits)+
qed

lemma inv_wire_ctx:
  assumes step_ctx: "call_ctx_done e c s = Some t" "bounded t" "inv_alloc s" "inv_lock s" "inv_seq s" "inv_wire s"
  shows "inv_wire t"
proof -
  have b: "bounded s"
    by (rule client_step_bounded [OF client_step.step_ctx [OF step_ctx(1)] \<open>bounded t\<close>])
  have reg: "c \<notin> set (cl_registered s)" if "c_seq (cl_calls s c) = 0"
    using that inv_seq_nonzero_registered [OF \<open>inv_seq s\<close> b] by blast
  note new = inv_seq_new [OF \<open>inv_seq s\<close>]
  from step_ctx(1) show ?thesis
    by (cases rule: call_ctx_doneE)
       (use reg new in \<open>intro inv_wire_weaken [OF \<open>inv_wire s\<close>];
         auto simp: is_request_of_def alloc_call_def split: if_splits\<close>)+
qed

lemma inv_wire_step:
  assumes "client_step s t" "bounded t" "inv_alloc s" "inv_lock s" "inv_seq s" "inv_wire s"
  shows "inv_wire t"
  using assms
proof (induction rule: client_step.induct)
  case (step_write w c s t)
  then show ?case by (rule inv_wire_write)
next
  case (step_enter c s t)
  then show ?case by (rule inv_wire_enter)
next
  case (step_ctx e c s t)
  then show ?case by (rule inv_wire_ctx)
next
  case (step_go m a r s c t)
  then show ?case
    using inv_seq_new [OF \<open>inv_seq s\<close>]
    by (intro inv_wire_weaken [OF \<open>inv_wire s\<close>])
       (auto simp: op_allocs is_request_of_def split: if_splits)
next
  case (step_go_on d s m a r c t)
  then show ?case
    using inv_seq_new [OF \<open>inv_seq s\<close>]
    by (intro inv_wire_weaken [OF \<open>inv_wire s\<close>])
       (auto simp: op_allocs is_request_of_def split: if_splits)
next
  case (step_call m a r s c t)
  then show ?case
    using inv_seq_new [OF \<open>inv_seq s\<close>]
    by (intro inv_wire_weaken [OF \<open>inv_wire s\<close>])
       (auto simp: op_allocs is_request_of_def split: if_splits)
qed (rule inv_wire_weaken, assumption;
     fastforce simp: is_request_of_def elim!: op_elims split: if_splits)+

end
