(* ===== verification/ClientChan.thy ===== *)
theory ClientChan
  imports ClientDone
begin

text \<open>
  The channels of calls: what is buffered in them, why the channel that \<open>Call\<close> makes has room for
  both completions it can receive, and where the result of \<open>Call\<close> comes from.
\<close>

section \<open>Buffered completions\<close>

definition inv_chan :: "client \<Rightarrow> bool" where
  "inv_chan s \<longleftrightarrow>
     (\<forall>d. distinct (ch_buf (cl_chans s d))) \<and>
     (\<forall>d. \<forall>x \<in> set (ch_buf (cl_chans s d)).
        x \<in> set (cl_signalled s) \<and> c_done (cl_calls s x) = d \<and> x < cl_ncalls s) \<and>
     (\<forall>c. cl_caller s c \<noteq> None \<longrightarrow> ch_cap (cl_chans s (c_done (cl_calls s c))) = 2) \<and>
     (\<forall>c. cl_caller s c \<noteq> None \<longrightarrow> (\<exists>c'. \<forall>x < cl_ncalls s.
        c_done (cl_calls s x) = c_done (cl_calls s c) \<longrightarrow>
        x = c \<or> x = c' \<and> by_ctx (cl_caller s c))) \<and>
     (\<forall>x \<in> set (cl_dropped s). x < cl_ncalls s \<and> \<not> private_chan s (c_done (cl_calls s x)))"

lemma inv_chanD:
  assumes "inv_chan s"
  shows inv_chan_distinct: "distinct (ch_buf (cl_chans s d))"
    and inv_chan_buf: "x \<in> set (ch_buf (cl_chans s d)) \<Longrightarrow>
      x \<in> set (cl_signalled s) \<and> c_done (cl_calls s x) = d \<and> x < cl_ncalls s"
    and inv_chan_cap: "cl_caller s c \<noteq> None \<Longrightarrow> ch_cap (cl_chans s (c_done (cl_calls s c))) = 2"
    and inv_chan_users: "cl_caller s c \<noteq> None \<Longrightarrow> \<exists>c'. \<forall>x < cl_ncalls s.
        c_done (cl_calls s x) = c_done (cl_calls s c) \<longrightarrow>
        x = c \<or> x = c' \<and> by_ctx (cl_caller s c)"
    and inv_chan_dropped: "x \<in> set (cl_dropped s) \<Longrightarrow>
      x < cl_ncalls s \<and> \<not> private_chan s (c_done (cl_calls s x))"
  using assms unfolding inv_chan_def by blast+

lemma private_chanI: "cl_caller s c = Some p \<Longrightarrow> c_done (cl_calls s c) = d \<Longrightarrow> private_chan s d"
  by (auto simp: private_chan_def)

text \<open>A private channel has at most one other completion in it when \<open>c\<close> is signalled.\<close>

lemma private_chan_room:
  assumes "inv_chan s" "c < cl_ncalls s" "c \<notin> set (cl_signalled s)"
    and "private_chan s (c_done (cl_calls s c))"
  shows "length (ch_buf (cl_chans s (c_done (cl_calls s c)))) < ch_cap (cl_chans s (c_done (cl_calls s c)))"
proof -
  let ?d = "c_done (cl_calls s c)"
  from assms(4) obtain o1 where o1: "cl_caller s o1 \<noteq> None" "c_done (cl_calls s o1) = ?d"
    by (auto simp: private_chan_def)
  then obtain o2 where users: "\<forall>x < cl_ncalls s. c_done (cl_calls s x) = ?d \<longrightarrow> x = o1 \<or> x = o2"
    using inv_chan_users [OF assms(1) o1(1)] by metis
  have "set (ch_buf (cl_chans s ?d)) \<subseteq> {o1, o2} - {c}"
    using users assms(3) inv_chan_buf [OF assms(1)] by blast
  moreover have "c \<in> {o1, o2}" using users assms(2) by auto
  then have "card ({o1, o2} - {c}) \<le> 1" by (cases "o1 = o2") (auto simp: card_insert_if)
  ultimately have "card (set (ch_buf (cl_chans s ?d))) \<le> 1"
    by (meson card_mono finite.emptyI finite_Diff finite_insert le_trans)
  then have "length (ch_buf (cl_chans s ?d)) \<le> 1"
    using distinct_card [OF inv_chan_distinct [OF assms(1)]] by metis
  moreover have "ch_cap (cl_chans s ?d) = 2" using inv_chan_cap [OF assms(1) o1(1)] o1(2) by simp
  ultimately show ?thesis by simp
qed

lemma inv_chan_weaken:
  assumes "inv_chan s"
    and "cl_signalled t = cl_signalled s" "cl_dropped t = cl_dropped s" "cl_ncalls t = cl_ncalls s"
    and "\<And>x. c_done (cl_calls t x) = c_done (cl_calls s x)"
    and "\<And>d. ch_cap (cl_chans t d) = ch_cap (cl_chans s d)"
    and "\<And>d. ch_buf (cl_chans t d) = ch_buf (cl_chans s d) \<or>
      ch_buf (cl_chans t d) = tl (ch_buf (cl_chans s d))"
    and "\<And>c. cl_caller t c \<noteq> None \<longleftrightarrow> cl_caller s c \<noteq> None"
    and "\<And>c. by_ctx (cl_caller s c) \<Longrightarrow> by_ctx (cl_caller t c)"
  shows "inv_chan t"
proof -
  have buf: "distinct (ch_buf (cl_chans t d))"
    "set (ch_buf (cl_chans t d)) \<subseteq> set (ch_buf (cl_chans s d))" for d
    using assms(7) [of d] inv_chan_distinct [OF assms(1), of d]
    by (auto simp: distinct_tl dest: list.set_sel(2) [rotated] split: if_splits)
       (metis emptyE list.sel(2) list.set(1) list.set_sel(2))
  have priv: "private_chan t d = private_chan s d" for d
    using assms(5,8) unfolding private_chan_def by metis
  show ?thesis
    unfolding inv_chan_def assms(2-6) priv
  proof (intro conjI allI ballI impI)
    fix c assume "cl_caller t c \<noteq> None"
    then have p: "cl_caller s c \<noteq> None" using assms(8) by blast
    show "ch_cap (cl_chans s (c_done (cl_calls s c))) = 2" by (rule inv_chan_cap [OF assms(1) p])
    show "\<exists>c'. \<forall>x < cl_ncalls s. c_done (cl_calls s x) = c_done (cl_calls s c) \<longrightarrow>
        x = c \<or> x = c' \<and> by_ctx (cl_caller t c)"
      using inv_chan_users [OF assms(1) p] assms(9) by blast
  qed (use buf inv_chanD [OF assms(1)] in blast)+
qed

lemma inv_chan_done:
  assumes "inv_chan s" "c < cl_ncalls s" "c \<notin> set (cl_signalled s)"
  shows "inv_chan (call_done c s)"
proof -
  let ?d = "c_done (cl_calls s c)"
  have priv: "private_chan (call_done c s) d = private_chan s d" for d
    by (simp add: private_chan_def)
  have new: "c \<notin> set (ch_buf (cl_chans s d))" for d using assms(3) inv_chan_buf [OF assms(1)] by blast
  show ?thesis
  proof (cases "length (ch_buf (cl_chans s ?d)) < ch_cap (cl_chans s ?d)")
    case True
    then have t: "cl_chans (call_done c s) =
        (cl_chans s)(?d := (cl_chans s ?d)\<lparr>ch_buf := ch_buf (cl_chans s ?d) @ [c]\<rparr>)"
      "cl_dropped (call_done c s) = cl_dropped s"
      by (simp_all add: call_done_def Let_def)
    show ?thesis
      unfolding inv_chan_def priv t
    proof (intro conjI allI ballI impI)
      fix x assume x: "cl_caller (call_done c s) x \<noteq> None"
      then show "\<exists>c'. \<forall>y < cl_ncalls (call_done c s).
          c_done (cl_calls (call_done c s) y) = c_done (cl_calls (call_done c s) x) \<longrightarrow>
          y = x \<or> y = c' \<and> by_ctx (cl_caller (call_done c s) x)"
        using inv_chan_users [OF assms(1)] by simp
      show "ch_cap (((cl_chans s)(?d := (cl_chans s ?d)\<lparr>ch_buf := ch_buf (cl_chans s ?d) @ [c]\<rparr>))
          (c_done (cl_calls (call_done c s) x))) = 2"
        using inv_chan_cap [OF assms(1), of x] x by auto
    qed (use inv_chanD [OF assms(1)] new assms(2) in \<open>auto split: if_splits\<close>)
  next
    case False
    then have t: "cl_chans (call_done c s) = cl_chans s"
      "cl_dropped (call_done c s) = cl_dropped s @ [c]"
      by (simp_all add: call_done_def Let_def)
    have "\<not> private_chan s ?d" using private_chan_room [OF assms] False by blast
    then show ?thesis
      unfolding inv_chan_def priv t
      using inv_chan_users [OF assms(1)] inv_chanD [OF assms(1)] assms(2)
      by (intro conjI allI ballI impI) auto
  qed
qed

lemma inv_chan_error: "inv_chan s \<Longrightarrow> inv_chan (set_error c e s)"
  by (erule inv_chan_weaken) auto

lemma inv_chan_fail_calls:
  assumes "inv_chan s" "distinct cs" "\<forall>c \<in> set cs. c < cl_ncalls s \<and> c \<notin> set (cl_signalled s)"
  shows "inv_chan (fail_calls e cs s)"
  using assms
proof (induction cs arbitrary: s)
  case (Cons c cs)
  have "inv_chan (call_done c (set_error c e s))"
    using Cons.prems by (intro inv_chan_done inv_chan_error) auto
  then have "inv_chan (fail_calls e cs (call_done c (set_error c e s)))"
    using Cons.prems by (intro Cons.IH) auto
  then show ?case by simp
qed simp

lemma inv_chan_alloc:
  assumes "inv_alloc s" "inv_chan s" "\<not> private_chan s (c_done k)"
  shows "inv_chan (alloc_call k s)"
proof -
  have lt: "c < cl_ncalls s" if "cl_caller s c = Some p" for c p
    using that by (rule inv_alloc_fresh(4) [OF assms(1)])
  have priv: "private_chan (alloc_call k s) d = private_chan s d" for d
    using lt unfolding private_chan_def by (auto simp: alloc_call_def) (metis nat_neq_iff)+
  have nk: "c_done k \<noteq> c_done (cl_calls s c)" if "cl_caller s c = Some p" for c p
    using assms(3) that private_chanI by metis
  have t: "cl_chans (alloc_call k s) = cl_chans s" "cl_caller (alloc_call k s) = cl_caller s"
    "cl_dropped (alloc_call k s) = cl_dropped s" "cl_ncalls (alloc_call k s) = Suc (cl_ncalls s)"
    "cl_signalled (alloc_call k s) = cl_signalled s"
    "cl_calls (alloc_call k s) = (cl_calls s)(cl_ncalls s := k)"
    by (simp_all add: alloc_call_def)
  show ?thesis
    unfolding inv_chan_def priv t
  proof (intro conjI allI ballI impI)
    fix c assume p: "cl_caller s c \<noteq> None"
    have ne: "c \<noteq> cl_ncalls s" using lt p by fastforce
    show "ch_cap (cl_chans s (c_done (((cl_calls s)(cl_ncalls s := k)) c))) = 2"
      using inv_chan_cap [OF assms(2) p] ne by simp
    show "\<exists>c'. \<forall>x < Suc (cl_ncalls s).
        c_done (((cl_calls s)(cl_ncalls s := k)) x) = c_done (((cl_calls s)(cl_ncalls s := k)) c) \<longrightarrow>
        x = c \<or> x = c' \<and> by_ctx (cl_caller s c)"
      using inv_chan_users [OF assms(2) p] nk p ne by (fastforce simp: less_Suc_eq)
  qed (use inv_chanD [OF assms(2)] in \<open>fastforce+\<close>)
qed

lemma inv_chan_make_chan:
  assumes "inv_alloc s" "inv_chan s"
  shows "inv_chan (snd (make_chan n s))"
proof -
  have old: "c_done (cl_calls s c) \<noteq> cl_nchans s" if "cl_caller s c = Some p" for c p
    using inv_alloc_fresh(6) [OF assms(1) inv_alloc_fresh(4) [OF assms(1) that]] by simp
  show ?thesis
    using inv_chanD [OF assms(2)] old
    unfolding inv_chan_def private_chan_def make_chan_def by (auto; blast)
qed

lemma make_chan_not_private:
  "inv_alloc s \<Longrightarrow> \<not> private_chan (snd (make_chan n s)) (cl_nchans s)"
  using inv_alloc_fresh(4,6) [of s] unfolding private_chan_def make_chan_def by fastforce

text \<open>The channel of a \<open>Call\<close>: fresh, and used by that call only.\<close>

lemma inv_chan_call:
  assumes "inv_alloc s" "inv_chan s" "client_call m a r s = Some (c, t)"
  shows "inv_chan t"
proof -
  let ?s = "snd (make_chan 2 s)"
  have A: "inv_alloc ?s" using assms(1) by (auto simp: make_chan_def inv_alloc_def)
  have C: "inv_chan (alloc_call (new_call m a r (cl_nchans s)) ?s)"
    using make_chan_not_private [OF assms(1)]
    by (intro inv_chan_alloc A inv_chan_make_chan assms) (simp add: new_call_def)
  have t: "t = set_caller (cl_ncalls s) CSelect (alloc_call (new_call m a r (cl_nchans s)) ?s)"
    using assms(3) unfolding client_call_eq by blast
  have fresh: "cl_caller s (cl_ncalls s) = None" by (rule inv_alloc_fresh(2) [OF assms(1)])
  have only: "c_done (cl_calls s x) < cl_nchans s" if "x < cl_ncalls s" for x
    using inv_alloc_fresh(6) [OF assms(1)] that .
  have drop: "x < cl_ncalls s" if "x \<in> set (cl_dropped s)" for x
    using inv_chan_dropped [OF assms(2) that] by simp
  show ?thesis
    unfolding inv_chan_def
  proof (intro conjI allI ballI impI)
    fix x assume x: "cl_caller t x \<noteq> None"
    show "ch_cap (cl_chans t (c_done (cl_calls t x))) = 2"
      using x inv_chan_cap [OF C, of x]
      by (cases "x = cl_ncalls s") (auto simp: t alloc_call_def make_chan_def new_call_def)
    show "\<exists>c'. \<forall>y < cl_ncalls t. c_done (cl_calls t y) = c_done (cl_calls t x) \<longrightarrow>
        y = x \<or> y = c' \<and> by_ctx (cl_caller t x)"
    proof (cases "x = cl_ncalls s")
      case True
      then show ?thesis
        by (auto simp: t alloc_call_def make_chan_def new_call_def less_Suc_eq dest!: only)
    next
      case False
      with x have "cl_caller (alloc_call (new_call m a r (cl_nchans s)) ?s) x \<noteq> None" by (simp add: t)
      from inv_chan_users [OF C this] False show ?thesis by (simp add: t)
    qed
  next
    fix x assume "x \<in> set (cl_dropped t)"
    then have x: "x \<in> set (cl_dropped s)" by (simp add: t alloc_call_def make_chan_def)
    from drop [OF this] inv_chan_dropped [OF assms(2) x] only [of x]
    show "x < cl_ncalls t" "\<not> private_chan t (c_done (cl_calls t x))"
      unfolding private_chan_def
      by (auto simp: t alloc_call_def make_chan_def new_call_def private_chan_def
            dest: inv_alloc_fresh(4) [OF assms(1)])
  qed (use inv_chanD [OF C] in \<open>simp_all add: t\<close>)
qed

text \<open>The cancellation that \<open>Call\<close> sends on its own channel.\<close>

lemma inv_chan_cancel:
  assumes "inv_alloc s" "inv_chan s" "cl_caller s c = Some CSelect" "c_done k = c_done (cl_calls s c)"
  shows "inv_chan (set_caller c (CCancel c' e) (alloc_call k s))" (is "inv_chan ?t")
proof -
  have lt: "c < cl_ncalls s" by (rule inv_alloc_fresh(4) [OF assms(1,3)])
  have callers: "x < cl_ncalls s" if "cl_caller s x \<noteq> None" for x
    using that inv_alloc_fresh(4) [OF assms(1)] by blast
  have only: "x = c" if "x < cl_ncalls s" "c_done (cl_calls s x) = c_done (cl_calls s c)" for x
    using inv_chan_users [OF assms(2), of c] assms(3) that by auto
  have priv: "private_chan ?t d = private_chan s d" for d
    using callers lt assms(3) unfolding private_chan_def
    by (auto simp: alloc_call_def split: if_splits) (metis nat_neq_iff option.distinct(1))+
  have other: "c_done (cl_calls s x) \<noteq> c_done k" if "cl_caller s x \<noteq> None" "x \<noteq> c" for x
    using only [of x] callers [of x] that assms(4) by auto
  show ?thesis
    unfolding inv_chan_def priv
  proof (intro conjI allI ballI impI)
    fix x assume "cl_caller ?t x \<noteq> None"
    then have x: "cl_caller s x \<noteq> None"
      using assms(3) by (auto simp: alloc_call_def split: if_splits)
    then have ne: "x \<noteq> cl_ncalls s" using callers by blast
    show "ch_cap (cl_chans ?t (c_done (cl_calls ?t x))) = 2"
      using inv_chan_cap [OF assms(2) x] ne by (simp add: alloc_call_def)
    show "\<exists>c'. \<forall>y < cl_ncalls ?t. c_done (cl_calls ?t y) = c_done (cl_calls ?t x) \<longrightarrow>
        y = x \<or> y = c' \<and> by_ctx (cl_caller ?t x)"
    proof (cases "x = c")
      case True
      then show ?thesis
        using only ne by (intro exI [of _ "cl_ncalls s"]) (auto simp: alloc_call_def less_Suc_eq)
    next
      case False
      then show ?thesis
        using inv_chan_users [OF assms(2) x] ne other [OF x False]
        by (fastforce simp: alloc_call_def less_Suc_eq)
    qed
  qed (use inv_chanD [OF assms(2)] in \<open>fastforce simp: alloc_call_def\<close>)+
qed

lemma inv_chan_enter:
  assumes step_enter: "send_enter c s = Some t" "bounded t" "inv_alloc s" "inv_lock s" "inv_seq s" "inv_once s"
      "inv_chan s"
  shows "inv_chan t"
proof -
  note w = inv_once_waiting(1) [OF \<open>inv_seq s\<close> \<open>inv_once s\<close>, of c]
  note lt = inv_alloc_fresh(3) [OF \<open>inv_alloc s\<close>, of c]
  from step_enter(1) show ?thesis
  proof (cases rule: send_enterE)
    case refused
    then have "inv_chan (call_done c (set_error c ErrShutdown s))"
      using w lt by (intro inv_chan_done inv_chan_error \<open>inv_chan s\<close>) auto
    then show ?thesis unfolding refused(4) by (rule inv_chan_weaken) auto
  next
    case cancelled
    then have "inv_chan (call_done c (set_error c Canceled s))"
      using w lt by (intro inv_chan_done inv_chan_error \<open>inv_chan s\<close>) auto
    then show ?thesis unfolding cancelled(6) by (rule inv_chan_weaken) auto
  next
    case registered
    then show ?thesis by (intro inv_chan_weaken [OF \<open>inv_chan s\<close>]) auto
  qed
qed

lemma inv_chan_unregister:
  assumes step_unregister: "send_unregister c s = Some t" "bounded t" "inv_alloc s" "inv_lock s" "inv_seq s"
      "inv_once s" "inv_chan s"
  shows "inv_chan t"
proof -
  note I = \<open>inv_seq s\<close> \<open>inv_once s\<close>
  from step_unregister(1) show ?thesis
  proof (cases rule: send_unregisterE)
    case gone
    then show ?thesis by (intro inv_chan_weaken [OF \<open>inv_chan s\<close>]) auto
  next
    case (there n e c')
    have "\<not> cl_shutdown s"
      using inv_once_free [OF I(2)] inv_lockD(2) [OF \<open>inv_lock s\<close> there(1)] by auto
    then have "c' \<notin> set (cl_signalled s)" "c' < cl_ncalls s"
      using inv_once_pending [OF I(2) there(2)] inv_seq_pending [OF I(1) there(2)]
        inv_seq_registered [OF I(1)] by auto
    moreover have "inv_chan (s\<lparr>cl_pending := (cl_pending s)(n := None)\<rparr>)"
      by (rule inv_chan_weaken [OF \<open>inv_chan s\<close>]) auto
    ultimately have "inv_chan (call_done c' (set_error c' e
        (s\<lparr>cl_pending := (cl_pending s)(n := None)\<rparr>)))"
      by (intro inv_chan_done inv_chan_error) auto
    then show ?thesis unfolding there(3) by (rule inv_chan_weaken) auto
  qed
qed

lemma inv_chan_ctx:
  assumes step_ctx: "call_ctx_done e c s = Some t" "bounded t" "inv_alloc s" "inv_lock s" "inv_seq s" "inv_once s"
      "inv_chan s"
  shows "inv_chan t"
proof -
  from step_ctx(1) show ?thesis
  proof (cases rule: call_ctx_doneE)
    case (pending n)
    let ?s = "s\<lparr>cl_pending := (cl_pending s)(n := None)\<rparr>"
    have "inv_chan ?s" by (rule inv_chan_weaken [OF \<open>inv_chan s\<close>]) auto
    then show ?thesis
      unfolding pending(7)
      by (intro inv_chan_cancel) (use step_ctx pending in \<open>auto simp: inv_alloc_def new_call_def\<close>)
  qed (intro inv_chan_weaken [OF \<open>inv_chan s\<close>]; auto split: if_splits)+
qed

lemma inv_chan_body:
  assumes step_body: "input_body b s = Some t" "bounded t" "inv_alloc s" "inv_lock s" "inv_seq s" "inv_once s"
      "inv_chan s"
  shows "inv_chan t"
proof -
  note I = \<open>inv_seq s\<close> \<open>inv_once s\<close>
  have hand: "c \<notin> set (cl_signalled s)" "c < cl_ncalls s" if "cl_reader s = RGot (Some c) resp"
    for c resp
    using inv_once_hand [OF I(2), of c] inv_seq_registered [OF I(1), of c] that by auto
  let ?s = "\<lambda>resp c. s\<lparr>cl_received := cl_received s @ [(resp, Some c, b)]\<rparr>"
  have log: "inv_chan (?s resp c)" for resp c by (rule inv_chan_weaken [OF \<open>inv_chan s\<close>]) auto
  have upd: "inv_chan (call_done c (set_error c e (?s resp c)))"
    "inv_chan (call_done c (set_reply c v (?s resp c)))"
    if "cl_reader s = RGot (Some c) resp" for c e v resp
  proof -
    show "inv_chan (call_done c (set_error c e (?s resp c)))"
      using hand [OF that] by (intro inv_chan_done inv_chan_error log) auto
    have "inv_chan (set_reply c v (?s resp c))" by (rule inv_chan_weaken [OF log]) auto
    then show "inv_chan (call_done c (set_reply c v (?s resp c)))"
      using hand [OF that] by (intro inv_chan_done) auto
  qed
  from step_body(1) show ?thesis
  proof (cases rule: input_bodyE)
    case nobody
    then show ?thesis by (intro inv_chan_weaken [OF \<open>inv_chan s\<close>]) auto
  next
    case errored
    show ?thesis unfolding errored(4) by (rule inv_chan_weaken [OF upd(1) [OF errored(1)]]) auto
  next
    case undecoded
    show ?thesis unfolding undecoded(4) by (rule inv_chan_weaken [OF upd(1) [OF undecoded(1)]]) auto
  next
    case replied
    show ?thesis unfolding replied(4) by (rule inv_chan_weaken [OF upd(2) [OF replied(1)]]) auto
  qed
qed

lemma inv_chan_terminate:
  assumes step_terminate: "input_terminate ks s = Some t" "bounded t" "inv_alloc s" "inv_lock s" "inv_seq s"
      "inv_once s" "inv_chan s"
  shows "inv_chan t"
proof -
  note I = \<open>inv_seq s\<close> \<open>inv_once s\<close>
  from step_terminate(1) obtain e where e: "cl_reader s = RTerm e" "distinct ks"
      "set ks = dom (cl_pending s)"
      "t = (fail_calls (shutdown_error (cl_closing s) e) (map (the \<circ> cl_pending s) ks)
            (s\<lparr>cl_shutdown := True\<rparr>))\<lparr>cl_reader := REnded\<rparr>"
    by (blast elim: input_terminateE)
  have run: "\<not> cl_shutdown s" using e(1) inv_once_ended [OF I(2)] by simp
  have "inv_chan (s\<lparr>cl_shutdown := True\<rparr>)" by (rule inv_chan_weaken [OF \<open>inv_chan s\<close>]) auto
  then have "inv_chan (fail_calls (shutdown_error (cl_closing s) e)
      (map (the \<circ> cl_pending s) ks) (s\<lparr>cl_shutdown := True\<rparr>))"
  proof (rule inv_chan_fail_calls)
    show "distinct (map (the \<circ> cl_pending s) ks)" by (rule pending_calls_distinct [OF I(1) e(2,3)])
    show "\<forall>c \<in> set (map (the \<circ> cl_pending s) ks). c < cl_ncalls (s\<lparr>cl_shutdown := True\<rparr>) \<and>
        c \<notin> set (cl_signalled (s\<lparr>cl_shutdown := True\<rparr>))"
      unfolding pending_calls_set [OF e(3)]
      using run inv_once_pending [OF I(2)] inv_seq_pending [OF I(1)] inv_seq_registered [OF I(1)]
      by (fastforce simp: ran_def)
  qed
  then show ?thesis unfolding e(4) by (rule inv_chan_weaken) auto
qed

lemma inv_chan_step:
  assumes "client_step s t" "bounded t" "inv_alloc s" "inv_lock s" "inv_seq s" "inv_once s"
    "inv_chan s"
  shows "inv_chan t"
  using assms
proof (induction rule: client_step.induct)
  case (step_make n s d t)
  then show ?case using inv_chan_make_chan [of s n] by simp
next
  case (step_go m a r s c t)
  have "inv_chan (alloc_call (new_call m a r (cl_nchans s)) (snd (make_chan 10 s)))"
    using step_go make_chan_not_private [OF \<open>inv_alloc s\<close>]
    by (intro inv_chan_alloc inv_chan_make_chan)
       (auto simp: new_call_def make_chan_def inv_alloc_def)
  with step_go show ?case by (simp add: client_go_new)
next
  case (step_go_on d s m a r c t)
  then show ?case
    by (auto simp: client_go_on new_call_def intro!: inv_chan_alloc split: if_splits)
next
  case (step_call m a r s c t)
  then show ?case by (blast intro: inv_chan_call)
next
  case (step_enter c s t)
  then show ?case by (rule inv_chan_enter)
next
  case (step_unregister c s t)
  then show ?case by (rule inv_chan_unregister)
next
  case (step_ctx e c s t)
  then show ?case by (rule inv_chan_ctx)
next
  case (step_body b s t)
  then show ?case by (rule inv_chan_body)
next
  case (step_terminate ks s t)
  then show ?case by (rule inv_chan_terminate)
qed (rule inv_chan_weaken, assumption; fastforce elim!: op_elims split: if_splits)+

end
