(* ===== verification/ClientProps.thy ===== *)
theory ClientProps
  imports ClientChan
begin

text \<open>
  Where the results of \<open>Call\<close> come from, and the properties of every reachable state of a client.
\<close>

section \<open>Results\<close>

text \<open>A response with the call's number and no error was read, and its body is what \<open>Reply\<close> holds.\<close>

definition answered :: "client \<Rightarrow> nat \<Rightarrow> bool" where
  "answered s c \<longleftrightarrow> c \<in> set (cl_registered s) \<and>
     (\<exists>r v. (r, Some c, Inr v) \<in> set (cl_received s) \<and> resp_seq r = c_seq (cl_calls s c) \<and>
        resp_error r = [] \<and> c_reply (cl_calls s c) \<in> {None, Some v})"

definition inv_result :: "client \<Rightarrow> bool" where
  "inv_result s \<longleftrightarrow>
     (\<forall>c \<in> set (cl_signalled s). c_error (cl_calls s c) = None \<longrightarrow> answered s c) \<and>
     (\<forall>c e. cl_caller s c = Some (CDone e) \<longrightarrow>
        c \<in> set (cl_signalled s) \<and> c_error (cl_calls s c) = e) \<and>
     (\<forall>c r. cl_reader s = RGot (Some c) r \<longrightarrow> c_seq (cl_calls s c) = resp_seq r)"

lemma inv_resultD:
  assumes "inv_result s"
  shows inv_result_answered: "c \<in> set (cl_signalled s) \<Longrightarrow> c_error (cl_calls s c) = None \<Longrightarrow>
      answered s c"
    and inv_result_caller: "cl_caller s c = Some (CDone e) \<Longrightarrow>
      c \<in> set (cl_signalled s) \<and> c_error (cl_calls s c) = e"
    and inv_result_hand: "cl_reader s = RGot (Some c) r \<Longrightarrow> c_seq (cl_calls s c) = resp_seq r"
  using assms by (simp_all add: inv_result_def)

lemma inv_result_weaken:
  assumes "inv_result s"
    and "set (cl_signalled s) \<subseteq> set (cl_signalled t)"
    and "\<And>c. c \<in> set (cl_signalled t) \<Longrightarrow> c \<notin> set (cl_signalled s) \<Longrightarrow>
      c_error (cl_calls t c) = None \<Longrightarrow> answered t c"
    and "\<And>c. c \<in> set (cl_signalled s) \<Longrightarrow> c_error (cl_calls t c) = c_error (cl_calls s c)"
    and "\<And>c. c \<in> set (cl_signalled s) \<Longrightarrow> c_reply (cl_calls t c) = c_reply (cl_calls s c)"
    and "\<And>c. c \<in> set (cl_registered s) \<Longrightarrow> c_seq (cl_calls t c) = c_seq (cl_calls s c)"
    and "set (cl_received s) \<subseteq> set (cl_received t)" "set (cl_registered s) \<subseteq> set (cl_registered t)"
    and "\<And>c e. cl_caller t c = Some (CDone e) \<Longrightarrow> cl_caller s c = Some (CDone e) \<or>
      c \<in> set (cl_signalled s) \<and> c_error (cl_calls s c) = e"
    and "\<And>c r. cl_reader t = RGot (Some c) r \<Longrightarrow> c_seq (cl_calls t c) = resp_seq r"
  shows "inv_result t"
  unfolding inv_result_def
proof (intro conjI ballI allI impI)
  fix c assume c: "c \<in> set (cl_signalled t)" and e: "c_error (cl_calls t c) = None"
  show "answered t c"
  proof (cases "c \<in> set (cl_signalled s)")
    case True
    with inv_result_answered [OF assms(1) True] e assms(4) have "answered s c" by simp
    then show ?thesis
      using assms(5) [OF True] assms(6-8) unfolding answered_def by fastforce
  qed (use assms(3) c e in blast)
next
  fix c e assume "cl_caller t c = Some (CDone e)"
  with assms(9) inv_result_caller [OF assms(1)]
  have "c \<in> set (cl_signalled s) \<and> c_error (cl_calls s c) = e" by blast
  with assms(2,4) show "c \<in> set (cl_signalled t)" "c_error (cl_calls t c) = e" by auto
qed (rule assms(10))

lemma inv_result_hand_alloc:
  "inv_result s \<Longrightarrow> inv_once s \<Longrightarrow> inv_seq s \<Longrightarrow> cl_reader s = RGot (Some c) r \<Longrightarrow>
   c \<noteq> cl_ncalls s \<and> c_seq (cl_calls s c) = resp_seq r"
  using inv_once_hand [of s c] inv_seq_new [of s] inv_result_hand [of s c r] by auto

lemma inv_result_unregister:
  assumes step_unregister: "send_unregister c s = Some t" "bounded t" "inv_alloc s" "inv_lock s" "inv_seq s"
      "inv_once s" "inv_chan s" "inv_result s"
  shows "inv_result t"
proof -
  note h = inv_result_hand [OF \<open>inv_result s\<close>]
  from step_unregister(1) show ?thesis
  proof (cases rule: send_unregisterE)
    case gone
    then show ?thesis
      using h by (intro inv_result_weaken [OF \<open>inv_result s\<close>]) auto
  next
    case (there n e c')
    have "\<not> cl_shutdown s"
      using inv_once_free [OF \<open>inv_once s\<close>] inv_lockD(2) [OF \<open>inv_lock s\<close> there(1)] by auto
    then have "c' \<notin> set (cl_signalled s)"
      using inv_once_pending [OF \<open>inv_once s\<close> there(2)] by simp
    with there h show ?thesis
      by (intro inv_result_weaken [OF \<open>inv_result s\<close>])
         (auto simp: set_error_c_error split: if_splits)
  qed
qed

lemma inv_result_receive:
  assumes step_receive: "call_receive c s = Some t" "bounded t" "inv_alloc s" "inv_lock s" "inv_seq s" "inv_once s"
      "inv_chan s" "inv_result s"
  shows "inv_result t"
proof -
  from step_receive(1) obtain d where d: "d = c_done (cl_calls s c)" "cl_caller s c = Some CSelect"
    "ch_buf (cl_chans s d) \<noteq> []"
    "t = s\<lparr>cl_chans := (cl_chans s)(d := (cl_chans s d)\<lparr>ch_buf := tl (ch_buf (cl_chans s d))\<rparr>),
           cl_caller := (cl_caller s)(c \<mapsto> CDone (c_error (cl_calls s c)))\<rparr>"
    by (rule call_receiveE)
  have "hd (ch_buf (cl_chans s d)) \<in> set (ch_buf (cl_chans s d))" using d(3) by simp
  from inv_chan_buf [OF \<open>inv_chan s\<close> this] have "c \<in> set (cl_signalled s)"
    using inv_chan_users [OF \<open>inv_chan s\<close>, of c] d(1,2) by auto
  then show ?thesis
    using d inv_result_hand [OF \<open>inv_result s\<close>]
    by (intro inv_result_weaken [OF \<open>inv_result s\<close>]) (auto split: if_splits)
qed

lemma inv_result_ctx:
  assumes step_ctx: "call_ctx_done e c s = Some t" "bounded t" "inv_alloc s" "inv_lock s" "inv_seq s" "inv_once s"
      "inv_chan s" "inv_result s"
  shows "inv_result t"
proof -
  have b: "bounded s"
    by (rule client_step_bounded [OF client_step.step_ctx [OF step_ctx(1)] \<open>bounded t\<close>])
  have reg: "c \<notin> set (cl_registered s)" if "c_seq (cl_calls s c) = 0"
    using that inv_seq_nonzero_registered [OF \<open>inv_seq s\<close> b] by blast
  note h = inv_result_hand_alloc [OF \<open>inv_result s\<close> \<open>inv_once s\<close> \<open>inv_seq s\<close>]
  note hand = inv_once_hand [OF \<open>inv_once s\<close>]
  from step_ctx(1) show ?thesis
  proof (cases rule: call_ctx_doneE)
    case unsent
    with reg have "c \<notin> set (cl_registered s)" by blast
    with unsent h hand show ?thesis
      by (intro inv_result_weaken [OF \<open>inv_result s\<close>]) (auto split: if_splits)
  next
    case answered
    with h show ?thesis by (intro inv_result_weaken [OF \<open>inv_result s\<close>]) (auto split: if_splits)
  next
    case (pending n)
    with h inv_once_started [OF \<open>inv_once s\<close>] inv_seq_new [OF \<open>inv_seq s\<close>] show ?thesis
      by (intro inv_result_weaken [OF \<open>inv_result s\<close>])
         (fastforce simp: alloc_call_def split: if_splits)+
  qed
qed

lemma inv_result_body:
  assumes step_body: "input_body b s = Some t" "bounded t" "inv_alloc s" "inv_lock s" "inv_seq s" "inv_once s"
      "inv_chan s" "inv_result s"
  shows "inv_result t"
proof -
  note hand = inv_once_hand [OF \<open>inv_once s\<close>]
  note seq = inv_result_hand [OF \<open>inv_result s\<close>]
  from step_body(1) show ?thesis
  proof (cases rule: input_bodyE)
    case nobody
    then show ?thesis by (intro inv_result_weaken [OF \<open>inv_result s\<close>]) auto
  next
    case (errored c resp p)
    with hand [of c] show ?thesis
      by (intro inv_result_weaken [OF \<open>inv_result s\<close>]) (auto simp: set_error_c_error split: if_splits)
  next
    case (undecoded c resp e)
    with hand [of c] show ?thesis
      by (intro inv_result_weaken [OF \<open>inv_result s\<close>]) (auto simp: set_error_c_error split: if_splits)
  next
    case (replied c resp v)
    have "answered t c"
      using replied seq [OF replied(1)] hand [of c] unfolding answered_def
      by (cases "c_reply (cl_calls s c)") (auto simp: set_reply_def intro!: exI [of _ resp] exI [of _ v])
    with replied hand [of c] show ?thesis
      by (intro inv_result_weaken [OF \<open>inv_result s\<close>]) (auto simp: set_reply_def)
  qed
qed

lemma inv_result_terminate:
  assumes step_terminate: "input_terminate ks s = Some t" "bounded t" "inv_alloc s" "inv_lock s" "inv_seq s"
      "inv_once s" "inv_chan s" "inv_result s"
  shows "inv_result t"
proof -
  note step_terminate
  then obtain e where e: "cl_reader s = RTerm e" "set ks = dom (cl_pending s)"
      "t = (fail_calls (shutdown_error (cl_closing s) e) (map (the \<circ> cl_pending s) ks)
            (s\<lparr>cl_shutdown := True\<rparr>))\<lparr>cl_reader := REnded\<rparr>"
    by (blast elim: input_terminateE)
  have "c \<notin> set (cl_signalled s)" if "c \<in> set (map (the \<circ> cl_pending s) ks)" for c
    using that e(1) inv_once_pending [OF \<open>inv_once s\<close>] inv_once_ended [OF \<open>inv_once s\<close>]
    unfolding pending_calls_set [OF e(2)] by (auto simp: ran_def)
  with e(3) show ?thesis
    by (intro inv_result_weaken [OF \<open>inv_result s\<close>])
       (auto simp: fail_calls_c_error simp del: set_map)
qed

lemma inv_result_go:
  assumes step_go: "client_go m a r None s = Some (c, t)" "bounded t" "inv_alloc s" "inv_lock s" "inv_seq s"
      "inv_once s" "inv_chan s" "inv_result s"
  shows "inv_result t"
proof -
  note h = inv_result_hand_alloc [OF \<open>inv_result s\<close> \<open>inv_once s\<close> \<open>inv_seq s\<close>]
  from step_go show ?thesis
    using inv_once_started [OF \<open>inv_once s\<close>] inv_seq_new [OF \<open>inv_seq s\<close>]
    by (intro inv_result_weaken [OF \<open>inv_result s\<close>])
       (fastforce simp: op_allocs dest!: h split: if_splits)+
qed

lemma inv_result_go_on:
  assumes step_go_on: "d < cl_nchans s" "\<not> private_chan s d" "client_go m a r (Some d) s = Some (c, t)"
      "bounded t" "inv_alloc s" "inv_lock s" "inv_seq s" "inv_once s" "inv_chan s" "inv_result s"
  shows "inv_result t"
proof -
  note h = inv_result_hand_alloc [OF \<open>inv_result s\<close> \<open>inv_once s\<close> \<open>inv_seq s\<close>]
  from step_go_on show ?thesis
    using inv_once_started [OF \<open>inv_once s\<close>] inv_seq_new [OF \<open>inv_seq s\<close>]
    by (intro inv_result_weaken [OF \<open>inv_result s\<close>])
       (fastforce simp: op_allocs dest!: h split: if_splits)+
qed

lemma inv_result_call:
  assumes step_call: "client_call m a r s = Some (c, t)" "bounded t" "inv_alloc s" "inv_lock s" "inv_seq s"
      "inv_once s" "inv_chan s" "inv_result s"
  shows "inv_result t"
proof -
  note h = inv_result_hand_alloc [OF \<open>inv_result s\<close> \<open>inv_once s\<close> \<open>inv_seq s\<close>]
  from step_call show ?thesis
    using inv_once_started [OF \<open>inv_once s\<close>] inv_seq_new [OF \<open>inv_seq s\<close>]
    by (intro inv_result_weaken [OF \<open>inv_result s\<close>])
       (fastforce simp: op_allocs dest!: h split: if_splits)+
qed

lemma inv_result_enter:
  assumes step_enter: "send_enter c s = Some t" "bounded t" "inv_alloc s" "inv_lock s" "inv_seq s" "inv_once s"
      "inv_chan s" "inv_result s"
  shows "inv_result t"
proof -
  note w = inv_once_waiting [OF \<open>inv_seq s\<close> \<open>inv_once s\<close>, of c]
  note h = inv_result_hand [OF \<open>inv_result s\<close>]
  from step_enter(1) show ?thesis
    by (cases rule: send_enterE)
       (use w h in \<open>intro inv_result_weaken [OF \<open>inv_result s\<close>];
          fastforce simp: set_error_c_error split: if_splits\<close>)+
qed

lemma inv_result_header:
  assumes step_header: "input_header h s = Some t" "bounded t" "inv_alloc s" "inv_lock s" "inv_seq s" "inv_once s"
      "inv_chan s" "inv_result s"
  shows "inv_result t"
proof -
  from step_header(1) show ?thesis
    by (cases rule: input_headerE)
       (intro inv_result_weaken [OF \<open>inv_result s\<close>];
        auto dest: inv_seq_pending [OF \<open>inv_seq s\<close>])+
qed

lemma inv_result_step:
  assumes "client_step s t" "bounded t" "inv_alloc s" "inv_lock s" "inv_seq s" "inv_once s"
    "inv_chan s" "inv_result s"
  shows "inv_result t"
  using assms
proof (induction rule: client_step.induct)
  case (step_make n s d t)
  then show ?case
    by (intro inv_result_weaken [OF \<open>inv_result s\<close>])
       (auto elim!: make_chanE dest: inv_result_hand [OF \<open>inv_result s\<close>])
next
  case (step_go m a r s c t)
  then show ?case by (rule inv_result_go)
next
  case (step_go_on d s m a r c t)
  then show ?case by (rule inv_result_go_on)
next
  case (step_call m a r s c t)
  then show ?case by (rule inv_result_call)
next
  case (step_enter c s t)
  then show ?case by (rule inv_result_enter)
next
  case (step_unregister c s t)
  then show ?case by (rule inv_result_unregister)
next
  case (step_receive c s t)
  then show ?case by (rule inv_result_receive)
next
  case (step_ctx e c s t)
  then show ?case by (rule inv_result_ctx)
next
  case (step_cancelled c s t)
  then show ?case
    using inv_result_hand [OF \<open>inv_result s\<close>]
    by (intro inv_result_weaken [OF \<open>inv_result s\<close>]) (auto elim!: call_cancel_sentE split: if_splits)
next
  case (step_header h s t)
  then show ?case by (rule inv_result_header)
next
  case (step_body b s t)
  then show ?case by (rule inv_result_body)
next
  case (step_terminate ks s t)
  then show ?case by (rule inv_result_terminate)
next
  case (step_write w c s t)
  then show ?case
    using inv_result_hand [OF \<open>inv_result s\<close>]
    by (intro inv_result_weaken [OF \<open>inv_result s\<close>]) (auto elim!: send_writeE)
next
  case (step_close w s r b t)
  then show ?case
    using inv_result_hand [OF \<open>inv_result s\<close>]
    by (intro inv_result_weaken [OF \<open>inv_result s\<close>]) (auto elim!: client_closeE)
next
  case (step_user_receive s d t)
  then show ?case
    using inv_result_hand [OF \<open>inv_result s\<close>]
    by (intro inv_result_weaken [OF \<open>inv_result s\<close>]) (auto elim!: chan_popE)
qed


section \<open>Reachable states\<close>

lemma client_invariants:
  assumes "client_reach s" "bounded s"
  shows "inv_alloc s \<and> inv_lock s \<and> inv_seq s \<and> inv_once s \<and> inv_track s \<and> inv_wire s \<and>
    inv_chan s \<and> inv_result s"
  using assms
proof (induction rule: client_reach.induct)
  case reach_new
  show ?case
    by (simp add: new_basic_client_def inv_alloc_def inv_lock_def inv_seq_def inv_once_def
        inv_track_def inv_wire_def inv_chan_def inv_result_def)
next
  case (reach_step s t)
  have "bounded s" using client_step_bounded reach_step by blast
  with reach_step have I: "inv_alloc s" "inv_lock s" "inv_seq s" "inv_once s" "inv_track s"
    "inv_wire s" "inv_chan s" "inv_result s" by blast+
  note step = \<open>client_step s t\<close> and b = \<open>bounded t\<close>
  show ?case
    using inv_alloc_step [OF step I(1)] inv_lock_step [OF step I(1,2)]
      inv_seq_step [OF step b I(1-3)] inv_once_step [OF step b I(1-4)]
      inv_track_step [OF step b I(1-3,5)] inv_wire_step [OF step b I(1-3,6)]
      inv_chan_step [OF step b I(1-4,7)] inv_result_step [OF step b I(1-4,7,8)]
    by simp
qed

lemma reach_inv:
  assumes "client_reach s" "cl_ncalls s < 2 ^ 64"
  shows reach_alloc: "inv_alloc s" and reach_lock: "inv_lock s" and reach_seq: "inv_seq s"
    and reach_once: "inv_once s" and reach_track: "inv_track s" and reach_wire: "inv_wire s"
    and reach_chan: "inv_chan s" and reach_result: "inv_result s"
  using client_invariants [OF assms(1)] assms(2) by (simp_all add: bounded_def)

text \<open>The goroutine that holds \<open>reqMutex\<close> can go on, and the end of the connection visits a finite map.\<close>

lemma write_holder_can_move:
  assumes "inv_lock s" "cl_reqmu s = Some c"
  shows "send_write None c s \<noteq> None \<or> send_unregister c s \<noteq> None"
proof -
  have "in_write (cl_sender s c)" using assms unfolding inv_lock_def by blast
  then show ?thesis
    by (auto simp: send_write_def send_unregister_def Let_def elim!: in_write.elims split: send_pc.splits option.splits)
qed

lemma reader_can_end:
  assumes "cl_reader s = RTerm e" "cl_reqmu s = None"
  obtains ks t where "input_terminate ks s = Some t"
proof -
  obtain ks where "set ks = dom (cl_pending s)" "distinct ks"
    using finite_distinct_list [of "dom (cl_pending s)"] by auto
  then have "input_terminate ks s \<noteq> None" using assms by (simp add: input_terminate_def)
  then show thesis using that by blast
qed


section \<open>Concrete runs\<close>

text \<open>Scripts of steps, evaluated by the simplifier; they provide the witnesses below.\<close>

datatype act =
    ACall string goval "goval option"
  | AGo string goval "goval option"
  | AEnter nat
  | AWrite "go_error option" nat
  | AUnregister nat
  | AClose
  | AReceive nat
  | ACtx go_error nat
  | AHeader "go_error + response"
  | ABody "go_error + goval"
  | ATerminate "u64 list"

fun act_step :: "act \<Rightarrow> client \<Rightarrow> client option" where
  "act_step (ACall m a r) s = map_option snd (client_call m a r s)"
| "act_step (AGo m a r) s = map_option snd (client_go m a r None s)"
| "act_step (AEnter c) s = send_enter c s"
| "act_step (AWrite w c) s = send_write w c s"
| "act_step (AUnregister c) s = send_unregister c s"
| "act_step AClose s = Some (snd (snd (client_close None s)))"
| "act_step (AReceive c) s = call_receive c s"
| "act_step (ACtx e c) s = call_ctx_done e c s"
| "act_step (AHeader h) s = input_header h s"
| "act_step (ABody b) s = input_body b s"
| "act_step (ATerminate ks) s = input_terminate ks s"

fun act_run :: "act list \<Rightarrow> client \<Rightarrow> client option" where
  "act_run [] s = Some s"
| "act_run (a # as) s = (case act_step a s of None \<Rightarrow> None | Some t \<Rightarrow> act_run as t)"

lemma step_closing: "client_step s (snd (snd (client_close w s)))"
  by (cases "client_close w s") (auto intro: step_close)

lemma act_step_sound: "act_step a s = Some t \<Longrightarrow> client_step s t"
  by (cases a) (auto intro: client_step.intros step_closing)

lemma act_run_reach: "client_reach s \<Longrightarrow> act_run as s = Some t \<Longrightarrow> client_reach t"
  by (induction as arbitrary: s)
     (auto split: option.splits dest: act_step_sound intro: reach_step)

lemmas act_eval [run_eval] =
  make_chan_def client_go_def client_call_def send_enter_def send_write_def send_unregister_def
  client_close_def call_receive_def call_ctx_done_def call_cancel_sent_def chan_receive_def
  input_header_def input_body_def input_terminate_def call_done_def set_error_def set_reply_def set_sender_def set_caller_def
  new_basic_client_def zero_request_def no_call_def shutdown_error_def Let_def

lemmas act_reach = act_run_reach [OF reach_new]

text \<open>One call that is answered, one that is still pending when the connection ends.\<close>

definition answered_run :: "act list" where
  "answered_run =
     [ACall ''Arith.Add'' (VInt 7) (Some (VInt 0)), AEnter 0, AWrite None 0,
      AHeader (Inr \<lparr>resp_seq = 1, resp_error = []\<rparr>), ABody (Inr (VInt 15)), AReceive 0]"

definition lost_run :: "act list" where
  "lost_run =
     [ACall ''Arith.Add'' (VInt 7) (Some (VInt 0)), AEnter 0, AWrite None 0,
      AHeader (Inl EOF), ATerminate [1]]"

lemma answered_run_ends: "\<exists>s. act_run answered_run new_basic_client = Some s \<and>
    cl_ncalls s = 1 \<and> cl_signalled s = [0] \<and> cl_caller s 0 = Some (CDone None) \<and>
    c_seq (cl_calls s 0) = 1 \<and> c_reply (cl_calls s 0) = Some (VInt 15) \<and>
    cl_sent s = [(\<lparr>req_method = ''Arith.Add'', req_seq = 1\<rparr>, VInt 7)]"
  by (simp add: answered_run_def run_eval)

lemma lost_run_ends: "\<exists>s. act_run lost_run new_basic_client = Some s \<and>
    cl_ncalls s = 1 \<and> cl_signalled s = [0] \<and> cl_sender s 0 = Some SDone \<and> cl_reader s = REnded \<and>
    c_error (cl_calls s 0) = Some ErrUnexpectedEOF \<and> cl_caller s 0 = Some CSelect"
  by (simp add: lost_run_def run_eval)


section \<open>Properties\<close>

text \<open>
  C8: \<open>done\<close> runs at most once on a call, whatever the interleaving of the goroutines in \<open>send\<close>,
  \<open>Call\<close> and \<open>input\<close>, the results of the codec, cancellations, \<open>Close\<close> and the end of the connection
  (as long as fewer than \<open>2^64\<close> calls have been made, so that \<open>seq\<close> has not wrapped around).
\<close>

theorem call_signalled_at_most_once:
  assumes "client_reach s" and "cl_ncalls s < 2 ^ 64"
  shows "distinct (cl_signalled s)"
  by (rule inv_once_distinct [OF reach_once [OF assms]])

theorem call_signalled_at_most_once_witness:
  "\<exists>s. client_reach s \<and> cl_signalled s = [0] \<and> distinct (cl_signalled s)"
proof -
  obtain s where s: "act_run lost_run new_basic_client = Some s" "cl_ncalls s = 1"
    "cl_signalled s = [0]" using lost_run_ends by blast
  have r: "client_reach s" by (rule act_reach [OF s(1)])
  show ?thesis using call_signalled_at_most_once [OF r] r s(2,3) by auto
qed

text \<open>
  C10: no call is lost. Once \<open>input\<close> has returned, every call whose \<open>send\<close> has returned has been
  signalled, unless the \<open>Call\<close> that made it has left through its context.
\<close>

theorem ended_connection_loses_no_call:
  assumes "client_reach s" and "cl_ncalls s < 2 ^ 64"
    and "cl_reader s = REnded" and "cl_sender s c = Some SDone"
  shows "c \<in> set (cl_signalled s) \<or> by_ctx (cl_caller s c)"
proof -
  note I = reach_inv [OF assms(1,2)]
  have "c < cl_ncalls s" by (rule inv_alloc_fresh(3) [OF I(1) assms(4)])
  with I(5) assms(3,4) have "settled s c \<or> c \<in> ran (cl_pending s)"
    by (auto simp: inv_track_def)
  moreover have "cl_shutdown s" using assms(3) inv_once_ended [OF I(4)] by simp
  ultimately show ?thesis
    using inv_once_pending [OF I(4)] by (auto simp: settled_def ran_def)
qed

theorem ended_connection_loses_no_call_witness:
  "\<exists>s. client_reach s \<and> cl_reader s = REnded \<and> cl_sender s 0 = Some SDone \<and>
     \<not> by_ctx (cl_caller s 0) \<and> 0 \<in> set (cl_signalled s)"
proof -
  obtain s where s: "act_run lost_run new_basic_client = Some s" "cl_ncalls s = 1"
    "cl_sender s 0 = Some SDone" "cl_reader s = REnded" "cl_caller s 0 = Some CSelect"
    using lost_run_ends by blast
  have r: "client_reach s" by (rule act_reach [OF s(1)])
  show ?thesis using ended_connection_loses_no_call [OF r _ s(4,3)] r s by auto
qed

text \<open>
  C12: the requests given to \<open>WriteRequest\<close> carry strictly increasing sequence numbers, and each is the
  method, number and arguments of one registered call: the shared \<open>client.request\<close> is never
  overwritten while \<open>WriteRequest\<close> encodes it. Those it accepted are some of them, in the same order.
\<close>

theorem requests_in_order_and_intact:
  assumes "client_reach s" and "cl_ncalls s < 2 ^ 64"
  shows "sorted_wrt (<) (map (req_seq \<circ> fst) (cl_tried s)) \<and>
    (\<forall>x \<in> set (cl_tried s). \<exists>c \<in> set (cl_registered s). is_request_of s x c) \<and>
    subseq (cl_sent s) (cl_tried s)"
  using inv_wireD [OF reach_wire [OF assms]] by blast

theorem requests_in_order_and_intact_witness:
  "\<exists>s. client_reach s \<and> length (cl_sent s) = 1 \<and>
     (\<forall>x \<in> set (cl_tried s). \<exists>c \<in> set (cl_registered s). is_request_of s x c)"
proof -
  obtain s where s: "act_run answered_run new_basic_client = Some s" "cl_ncalls s = 1"
    "cl_sent s = [(\<lparr>req_method = ''Arith.Add'', req_seq = 1\<rparr>, VInt 7)]"
    using answered_run_ends by blast
  have r: "client_reach s" by (rule act_reach [OF s(1)])
  show ?thesis using requests_in_order_and_intact [OF r] r s(2,3) by (intro exI [of _ s]) auto
qed

text \<open>
  C13: when \<open>Call\<close> returns nil, a response that echoes the number of this very call and has an empty
  \<open>Error\<close> was read and given to this call, its body was decoded, and the reply holds the decoded value.
\<close>

theorem successful_call_got_its_own_reply:
  assumes "client_reach s" and "cl_ncalls s < 2 ^ 64"
    and "cl_caller s c = Some (CDone None)"
  shows "\<exists>r v. (r, Some c, Inr v) \<in> set (cl_received s) \<and> resp_seq r = c_seq (cl_calls s c) \<and>
    resp_error r = [] \<and> c_reply (cl_calls s c) \<in> {None, Some v}"
proof -
  note I = reach_result [OF assms(1,2)]
  from inv_result_caller [OF I assms(3)] have "answered s c"
    by (blast intro: inv_result_answered [OF I])
  then show ?thesis by (auto simp: answered_def)
qed

theorem successful_call_got_its_own_reply_witness:
  "\<exists>s r v. client_reach s \<and> cl_caller s 0 = Some (CDone None) \<and>
     (r, Some 0, Inr v) \<in> set (cl_received s) \<and> resp_seq r = 1 \<and> v = VInt 15"
proof -
  obtain s where s: "act_run answered_run new_basic_client = Some s" "cl_ncalls s = 1"
    "cl_caller s 0 = Some (CDone None)" "c_seq (cl_calls s 0) = 1"
    "c_reply (cl_calls s 0) = Some (VInt 15)" using answered_run_ends by blast
  have r: "client_reach s" by (rule act_reach [OF s(1)])
  show ?thesis using successful_call_got_its_own_reply [OF r _ s(3)] r s by auto
qed

text \<open>
  C22: the channel of capacity 2 that \<open>Call\<close> makes suffices: \<open>done\<close> never discards the completion of
  a call, or of its cancellation, that was made through \<open>Call\<close>.
\<close>

theorem call_completion_never_discarded:
  assumes "client_reach s" and "cl_ncalls s < 2 ^ 64"
    and "cl_caller s c \<noteq> None" and "c_done (cl_calls s x) = c_done (cl_calls s c)"
  shows "x \<notin> set (cl_dropped s)"
  using inv_chan_dropped [OF reach_chan [OF assms(1,2)]] assms(3,4)
  unfolding private_chan_def by metis

theorem call_completion_never_discarded_witness:
  "\<exists>s. client_reach s \<and> cl_caller s 0 = Some (CDone None) \<and> 0 \<notin> set (cl_dropped s)"
proof -
  obtain s where s: "act_run answered_run new_basic_client = Some s" "cl_ncalls s = 1"
    "cl_caller s 0 = Some (CDone None)" using answered_run_ends by blast
  have r: "client_reach s" by (rule act_reach [OF s(1)])
  show ?thesis using call_completion_never_discarded [OF r, of 0 0] r s by auto
qed

text \<open>
  A response is matched to the call that was sent with its number: the call in the reader's hand
  has the response's sequence number, was registered, has not been signalled and is no longer in
  \<open>pending\<close>.
\<close>

theorem response_matches_its_call:
  assumes "client_reach s" and "cl_ncalls s < 2 ^ 64" and "cl_reader s = RGot (Some c) r"
  shows "c_seq (cl_calls s c) = resp_seq r \<and> c \<in> set (cl_registered s) \<and>
    c \<notin> set (cl_signalled s) \<and> c \<notin> ran (cl_pending s)"
  using inv_result_hand [OF reach_result [OF assms(1,2)] assms(3)]
    inv_once_hand [OF reach_once [OF assms(1,2)]] assms(3)
  by (auto simp: ran_def)

theorem response_matches_its_call_witness:
  "\<exists>s r. client_reach s \<and> cl_reader s = RGot (Some 0) r \<and> c_seq (cl_calls s 0) = 1 \<and>
     resp_seq r = 1 \<and> c_seq (cl_calls s 0) = resp_seq r"
proof -
  let ?acts = "take 4 answered_run"
  obtain s r where s: "act_run ?acts new_basic_client = Some s" "cl_ncalls s = 1"
    "cl_reader s = RGot (Some 0) r" "c_seq (cl_calls s 0) = 1" "resp_seq r = 1"
    by (simp add: answered_run_def run_eval)
  have r: "client_reach s" by (rule act_reach [OF s(1)])
  show ?thesis using response_matches_its_call [OF r _ s(3)] r s by auto
qed

text \<open>
  What the end of the connection does to the calls still pending: each gets the error that ended
  the loop (with EOF turned into \<open>ErrShutdown\<close> after \<open>Close\<close> and into \<open>io.ErrUnexpectedEOF\<close> otherwise)
  and is signalled, no other call changes, and the client is shut down.
\<close>

theorem termination_fails_pending_calls:
  assumes "input_terminate ks s = Some t" and "cl_reader s = RTerm e"
  shows "cl_shutdown t \<and> cl_reader t = REnded \<and>
    set (cl_signalled t) = set (cl_signalled s) \<union> ran (cl_pending s) \<and>
    (\<forall>c. c_error (cl_calls t c) =
       (if c \<in> ran (cl_pending s)
        then Some (if e \<noteq> EOF then e else if cl_closing s then ErrShutdown else ErrUnexpectedEOF)
        else c_error (cl_calls s c)))"
proof -
  from assms have t: "t = (fail_calls (shutdown_error (cl_closing s) e) (map (the \<circ> cl_pending s) ks)
            (s\<lparr>cl_shutdown := True\<rparr>))\<lparr>cl_reader := REnded\<rparr>" and ks: "set ks = dom (cl_pending s)"
    by (auto elim!: input_terminateE)
  show ?thesis
    using pending_calls_set [OF ks]
    by (auto simp: t fail_calls_c_error shutdown_error_def simp del: set_map)
qed

theorem termination_fails_pending_calls_witness:
  "\<exists>s t. cl_pending s 1 = Some 0 \<and> input_terminate [1] s = Some t \<and>
     c_error (cl_calls t 0) = Some ErrUnexpectedEOF"
proof -
  obtain s where s: "act_run (take 4 lost_run) new_basic_client = Some s" "cl_reader s = RTerm EOF"
    "cl_pending s = [1 \<mapsto> 0]" "cl_reqmu s = None" "\<not> cl_closing s"
    by (simp add: lost_run_def run_eval)
  then obtain t where t: "input_terminate [1] s = Some t" by (simp add: input_terminate_def)
  have "0 \<in> ran (cl_pending s)" using s(3) by simp
  then have "c_error (cl_calls t 0) = Some ErrUnexpectedEOF"
    using termination_fails_pending_calls [OF t s(2)] s(5) by presburger
  with s(3) t show ?thesis by (intro exI [of _ s] exI [of _ t]) simp
qed

text \<open>
  After \<open>Close\<close> or after the connection has ended, a call is refused on the spot: it gets
  \<open>ErrShutdown\<close> and is signalled, no sequence number is used, nothing enters \<open>pending\<close> and
  \<open>WriteRequest\<close> is not called.
\<close>

theorem closed_client_refuses_calls:
  assumes "cl_closing s \<or> cl_shutdown s" and "send_enter c s = Some t"
  shows "c_error (cl_calls t c) = Some ErrShutdown \<and> c \<in> set (cl_signalled t) \<and>
    cl_sender t c = Some SDone \<and> cl_seq t = cl_seq s \<and> cl_pending t = cl_pending s \<and>
    cl_tried t = cl_tried s \<and> cl_reqmu t = None"
  using assms(2) by (cases rule: send_enterE) (use assms(1) in \<open>auto simp: set_error_c_error\<close>)

theorem closed_client_refuses_calls_witness:
  "\<exists>s t. cl_closing s \<and> send_enter 0 s = Some t \<and> c_error (cl_calls t 0) = Some ErrShutdown"
proof -
  obtain s where s: "act_run [AClose, AGo ''A.B'' VNil None] new_basic_client = Some s"
    "cl_closing s" "cl_sender s 0 = Some SWaiting" "cl_reqmu s = None"
    by (simp add: run_eval)
  then obtain t where t: "send_enter 0 s = Some t" by (simp add: send_enter_def)
  have "cl_closing s \<or> cl_shutdown s" using s(2) by simp
  from closed_client_refuses_calls [OF this t] s(2) t show ?thesis by blast
qed

text \<open>
  C17: a context that ends while its call is pending takes out of \<open>pending\<close> that call's own entry and
  no other, and starts one \<open>_goRPC_.Cancel\<close> that carries the call's sequence number on the call's own
  channel; when the call is no longer pending, nothing is sent.
\<close>

theorem context_cancels_its_own_call:
  assumes "client_reach s" and "cl_ncalls s < 2 ^ 64" and "call_ctx_done e c s = Some t"
    and "c_seq (cl_calls s c) \<noteq> 0"
  shows "(case cl_pending s (c_seq (cl_calls s c)) of
      Some x \<Rightarrow> x = c \<and> cl_pending t = (cl_pending s)(c_seq (cl_calls s c) := None) \<and>
        cl_ncalls t = Suc (cl_ncalls s) \<and> cl_sender t (cl_ncalls s) = Some SWaiting \<and>
        c_method (cl_calls t (cl_ncalls s)) = ''_goRPC_.Cancel'' \<and>
        c_args (cl_calls t (cl_ncalls s)) = cancel_args (c_seq (cl_calls s c)) \<and>
        c_done (cl_calls t (cl_ncalls s)) = c_done (cl_calls s c)
    | None \<Rightarrow> cl_pending t = cl_pending s \<and> cl_ncalls t = cl_ncalls s \<and>
        cl_caller t c = Some (CCtx e))"
  using assms(3)
proof (cases rule: call_ctx_doneE)
  case (pending n)
  note S = reach_seq [OF assms(1,2)]
  have b: "bounded s" using assms(2) by (simp add: bounded_def)
  have c: "c \<in> set (cl_registered s)"
    using inv_seq_nonzero [OF S pending(2)] pending(1,3,4) by auto
  from pending(5) obtain x where x: "cl_pending s n = Some x" by blast
  then have "x = c"
    using inv_seq_pending [OF S x] c pending(3) by (intro inv_seq_inj [OF S b]) auto
  with pending x show ?thesis by (simp add: alloc_call_def new_call_def cancel_method_def)
qed (use assms(4) in auto)

theorem context_cancels_its_own_call_witness:
  "\<exists>s t. client_reach s \<and> cl_pending s 1 = Some 0 \<and> call_ctx_done Canceled 0 s = Some t \<and>
     cl_pending t 1 = None \<and> c_args (cl_calls t 1) = cancel_args 1"
proof -
  obtain s where s: "act_run (take 3 answered_run) new_basic_client = Some s" "cl_ncalls s = 1"
    "cl_pending s = [1 \<mapsto> 0]" "c_seq (cl_calls s 0) = 1" "cl_caller s 0 = Some CSelect"
    "cl_sender s 0 = Some SDone" "ch_cap (cl_chans s (c_done (cl_calls s 0))) = 2"
    by (simp add: answered_run_def run_eval)
  have r: "client_reach s" by (rule act_reach [OF s(1)])
  obtain t where t: "call_ctx_done Canceled 0 s = Some t"
    using s by (simp add: call_ctx_done_def client_go_on Let_def)
  have "cl_ncalls s < 2 ^ 64" "c_seq (cl_calls s 0) \<noteq> 0" using s(2,4) by simp_all
  from context_cancels_its_own_call [OF r this(1) t this(2)] s r t show ?thesis by auto
qed

end
