(* ===== verification/GoContext.thy ===== *)
theory GoContext
  imports Prelude
begin

text \<open>
  context/context.go: the library's \<open>Context\<close>, a standard context paired with the connection a
  handler may call back on (\<open>Client\<close>). The standard contexts it wraps are nodes of a heap: a node
  knows its parent, which is older than itself, and the error it ended with. \<open>Done()\<close> is closed
  exactly when \<open>sc_err\<close> is set.
\<close>

section \<open>The standard library's contexts\<close>

datatype ctx_kind =
    KRoot
  | KCancel
  | KDeadline int
  | KValue goval goval

record std_ctx =
  sc_kind :: ctx_kind
  sc_parent :: "nat option"
  sc_err :: "go_error option"

type_synonym ctxs = "std_ctx list"

definition ctx_err :: "ctxs \<Rightarrow> nat \<Rightarrow> go_error option" where
  "ctx_err h i = sc_err (h ! i)"

definition ctx_up :: "ctxs \<Rightarrow> nat \<Rightarrow> nat option" where
  "ctx_up h i = sc_parent (h ! i)"

text \<open>\<open>below h i j\<close>: \<open>j\<close> is \<open>i\<close> or was derived from it.\<close>

function below :: "ctxs \<Rightarrow> nat \<Rightarrow> nat \<Rightarrow> bool" where
  "below h i j =
     (if i = j then True
      else (case ctx_up h j of
              Some p \<Rightarrow> if p < j then below h i p else False
            | None \<Rightarrow> False))"
  by pat_completeness auto
termination by (relation "measure (\<lambda>(h, i, j). j)") auto

declare below.simps [simp del]

text \<open>Ending a context ends what was derived from it; what has ended keeps its error.\<close>

definition std_cancel :: "nat \<Rightarrow> go_error \<Rightarrow> ctxs \<Rightarrow> ctxs" where
  "std_cancel i e h =
     map (\<lambda>j. if below h i j \<and> ctx_err h j = None then (h ! j)\<lparr>sc_err := Some e\<rparr> else h ! j)
       [0..<length h]"

text \<open>A derived context starts out ended when its parent has ended.\<close>

definition std_derive :: "ctx_kind \<Rightarrow> nat \<Rightarrow> ctxs \<Rightarrow> nat \<times> ctxs" where
  "std_derive k p h =
     (length h, h @ [\<lparr>sc_kind = k, sc_parent = Some p, sc_err = ctx_err h p\<rparr>])"

text \<open>\<open>Deadline()\<close>: the nearest deadline above, which is the earliest one.\<close>

function ctx_deadline :: "ctxs \<Rightarrow> nat \<Rightarrow> int option" where
  "ctx_deadline h i =
     (case sc_kind (h ! i) of
        KDeadline d \<Rightarrow> Some d
      | _ \<Rightarrow> (case ctx_up h i of
                 Some p \<Rightarrow> if p < i then ctx_deadline h p else None
               | None \<Rightarrow> None))"
  by pat_completeness auto
termination by (relation "measure (\<lambda>(h, i). i)") auto

declare ctx_deadline.simps [simp del]

text \<open>
  \<open>context.WithDeadline\<close> at time \<open>now\<close>: under an earlier deadline it is \<open>WithCancel\<close>; a deadline that
  has passed ends the new context at once.
\<close>

definition std_with_deadline :: "int \<Rightarrow> nat \<Rightarrow> int \<Rightarrow> ctxs \<Rightarrow> nat \<times> ctxs" where
  "std_with_deadline now p d h =
     (case ctx_deadline h p of
        Some d' \<Rightarrow>
          if d' < d then std_derive KCancel p h
          else (let (i, h') = std_derive (KDeadline d) p h
                in (i, if d \<le> now then std_cancel i DeadlineExceeded h' else h'))
      | None \<Rightarrow>
          (let (i, h') = std_derive (KDeadline d) p h
           in (i, if d \<le> now then std_cancel i DeadlineExceeded h' else h')))"

text \<open>\<open>Value(key)\<close>: the nearest binding above.\<close>

function ctx_value :: "ctxs \<Rightarrow> goval \<Rightarrow> nat \<Rightarrow> goval" where
  "ctx_value h k i =
     (case sc_kind (h ! i) of
        KValue k' v \<Rightarrow>
          if k' = k then v
          else (case ctx_up h i of Some p \<Rightarrow> if p < i then ctx_value h k p else VNil | None \<Rightarrow> VNil)
      | _ \<Rightarrow> (case ctx_up h i of Some p \<Rightarrow> if p < i then ctx_value h k p else VNil | None \<Rightarrow> VNil))"
  by pat_completeness auto
termination by (relation "measure (\<lambda>(h, k, i). i)") auto

declare ctx_value.simps [simp del]


section \<open>The library's contexts\<close>

text \<open>\<open>Context\<close>: the embedded standard context and the connection, if any.\<close>

record gctx =
  g_std :: nat
  g_client :: "nat option"

text \<open>The two roots made by the package's variables \<open>background\<close> and \<open>todo\<close>.\<close>

definition root_ctxs :: ctxs where
  "root_ctxs =
     [\<lparr>sc_kind = KRoot, sc_parent = None, sc_err = None\<rparr>,
      \<lparr>sc_kind = KRoot, sc_parent = None, sc_err = None\<rparr>]"

definition background :: gctx where
  "background = \<lparr>g_std = 0, g_client = None\<rparr>"

definition todo :: gctx where
  "todo = \<lparr>g_std = 1, g_client = None\<rparr>"

definition with_cancel :: "gctx \<Rightarrow> ctxs \<Rightarrow> gctx \<times> ctxs" where
  "with_cancel parent h =
     (let (i, h') = std_derive KCancel (g_std parent) h
      in (\<lparr>g_std = i, g_client = g_client parent\<rparr>, h'))"

definition with_deadline :: "int \<Rightarrow> gctx \<Rightarrow> int \<Rightarrow> ctxs \<Rightarrow> gctx \<times> ctxs" where
  "with_deadline now parent d h =
     (let (i, h') = std_with_deadline now (g_std parent) d h
      in (\<lparr>g_std = i, g_client = g_client parent\<rparr>, h'))"

definition with_timeout :: "int \<Rightarrow> gctx \<Rightarrow> int \<Rightarrow> ctxs \<Rightarrow> gctx \<times> ctxs" where
  "with_timeout now parent timeout h = with_deadline now parent (now + timeout) h"

definition with_value :: "gctx \<Rightarrow> goval \<Rightarrow> goval \<Rightarrow> ctxs \<Rightarrow> gctx \<times> ctxs" where
  "with_value parent k v h =
     (let (i, h') = std_derive (KValue k v) (g_std parent) h
      in (\<lparr>g_std = i, g_client = g_client parent\<rparr>, h'))"

definition with_client :: "gctx \<Rightarrow> nat option \<Rightarrow> gctx" where
  "with_client parent clnt = \<lparr>g_std = g_std parent, g_client = clnt\<rparr>"

text \<open>The cancel function of a context made by \<open>with_cancel\<close>, \<open>with_deadline\<close> or \<open>with_timeout\<close>.\<close>

definition ctx_cancel :: "nat \<Rightarrow> ctxs \<Rightarrow> ctxs" where
  "ctx_cancel i h = std_cancel i Canceled h"


section \<open>Trees of contexts\<close>

text \<open>Parents are older, and whatever hangs below an ended context has ended.\<close>

definition wf_ctxs :: "ctxs \<Rightarrow> bool" where
  "wf_ctxs h \<longleftrightarrow>
     (\<forall>i < length h. \<forall>p. ctx_up h i = Some p \<longrightarrow>
        p < i \<and> (ctx_err h p \<noteq> None \<longrightarrow> ctx_err h i \<noteq> None))"

lemma wf_ctxsD:
  assumes "wf_ctxs h" "i < length h" "ctx_up h i = Some p"
  shows "p < i" and "ctx_err h p \<noteq> None \<Longrightarrow> ctx_err h i \<noteq> None"
  using assms unfolding wf_ctxs_def by blast+

lemma length_root_ctxs [simp]: "length root_ctxs = 2"
  by (simp add: root_ctxs_def)

lemma wf_root_ctxs: "wf_ctxs root_ctxs"
  by (simp add: wf_ctxs_def root_ctxs_def ctx_up_def less_Suc_eq numeral_2_eq_2)

lemma below_refl [simp]: "below h i i"
  by (subst below.simps) simp

lemma below_le: "below h i j \<Longrightarrow> i \<le> j"
proof (induction j rule: less_induct)
  case (less j)
  then show ?case by (subst (asm) (2) below.simps) (fastforce split: option.splits if_splits)
qed

lemma below_step: "below h i p \<Longrightarrow> ctx_up h j = Some p \<Longrightarrow> p < j \<Longrightarrow> below h i j"
  by (subst below.simps) simp

lemma below_up: "below h i j \<Longrightarrow> i \<noteq> j \<Longrightarrow> \<exists>p. ctx_up h j = Some p \<and> p < j \<and> below h i p"
  by (subst (asm) below.simps) (auto split: option.splits if_splits)

lemma below_cong: "(\<And>k. k \<le> j \<Longrightarrow> ctx_up h k = ctx_up h' k) \<Longrightarrow> below h i j = below h' i j"
proof (induction j rule: less_induct)
  case (less j)
  have "below h i p = below h' i p" if "p < j" for p
    by (rule less.IH [OF that]) (use less.prems that in auto)
  then show ?case
    using less.prems [of j] below.simps [of h i j] below.simps [of h' i j]
    by (auto split: option.splits)
qed

lemma below_trans: "below h i j \<Longrightarrow> below h j k \<Longrightarrow> below h i k"
proof (induction k rule: less_induct)
  case (less k)
  show ?case
  proof (cases "j = k")
    case False
    then obtain p where "ctx_up h k = Some p" "p < k" "below h j p"
      using below_up less.prems by blast
    then show ?thesis using less by (blast intro: below_step)
  qed (use less in simp)
qed

lemma length_std_cancel [simp]: "length (std_cancel i e h) = length h"
  by (simp add: std_cancel_def)

lemma ctx_up_cancel [simp]: "j < length h \<Longrightarrow> ctx_up (std_cancel i e h) j = ctx_up h j"
  by (simp add: std_cancel_def ctx_up_def)

lemma ctx_err_cancel:
  "j < length h \<Longrightarrow> ctx_err (std_cancel i e h) j =
     (if below h i j \<and> ctx_err h j = None then Some e else ctx_err h j)"
  by (simp add: std_cancel_def ctx_err_def)

lemma below_cancel [simp]: "j < length h \<Longrightarrow> below (std_cancel k e h) i j = below h i j"
  by (rule below_cong) simp

lemma wf_cancel: "wf_ctxs h \<Longrightarrow> wf_ctxs (std_cancel i e h)"
  unfolding wf_ctxs_def
proof (intro allI impI)
  fix j p
  assume wf: "\<forall>i < length h. \<forall>p. ctx_up h i = Some p \<longrightarrow>
      p < i \<and> (ctx_err h p \<noteq> None \<longrightarrow> ctx_err h i \<noteq> None)"
    and j: "j < length (std_cancel i e h)" and up: "ctx_up (std_cancel i e h) j = Some p"
  then have *: "j < length h" "ctx_up h j = Some p" "p < j" by auto
  moreover have "below h i p \<Longrightarrow> below h i j" using below_step * by blast
  moreover have "p < length h" using * by simp
  ultimately show "p < j \<and> (ctx_err (std_cancel i e h) p \<noteq> None \<longrightarrow> ctx_err (std_cancel i e h) j \<noteq> None)"
    using wf by (auto simp: ctx_err_cancel)
qed

lemma std_derive_simps [simp]:
  "fst (std_derive k p h) = length h"
  "length (snd (std_derive k p h)) = Suc (length h)"
  "ctx_up (snd (std_derive k p h)) (length h) = Some p"
  "ctx_err (snd (std_derive k p h)) (length h) = ctx_err h p"
  "sc_kind (snd (std_derive k p h) ! length h) = k"
  by (simp_all add: std_derive_def ctx_up_def ctx_err_def)

lemma std_derive_old [simp]:
  "j < length h \<Longrightarrow> ctx_up (snd (std_derive k p h)) j = ctx_up h j"
  "j < length h \<Longrightarrow> ctx_err (snd (std_derive k p h)) j = ctx_err h j"
  "j < length h \<Longrightarrow> snd (std_derive k p h) ! j = h ! j"
  by (simp_all add: std_derive_def ctx_up_def ctx_err_def nth_append)

lemma below_derive_old [simp]:
  "j < length h \<Longrightarrow> below (snd (std_derive k p h)) i j = below h i j"
  by (rule below_cong) simp

lemma below_derive_new:
  "p < length h \<Longrightarrow> below (snd (std_derive k p h)) i (length h) \<longleftrightarrow> i = length h \<or> below h i p"
  by (subst below.simps) simp

lemma wf_derive: "wf_ctxs h \<Longrightarrow> p < length h \<Longrightarrow> wf_ctxs (snd (std_derive k p h))"
  unfolding wf_ctxs_def by (auto simp: less_Suc_eq)

lemma with_cancel_simps:
  assumes "with_cancel parent h = (c, h')"
  shows "g_std c = length h" "g_client c = g_client parent" "length h' = Suc (length h)"
    "h' = snd (std_derive KCancel (g_std parent) h)"
  using assms by (auto simp: with_cancel_def Let_def split_def)

lemma std_with_deadline_new:
  "fst (std_with_deadline now p d h) = length h \<and>
   (\<exists>k. snd (std_with_deadline now p d h) = snd (std_derive k p h) \<or>
        snd (std_with_deadline now p d h) =
          std_cancel (length h) DeadlineExceeded (snd (std_derive k p h)))"
  by (cases "ctx_deadline h p") (auto simp: std_with_deadline_def split_def Let_def)


section \<open>Chains of derivations\<close>

text \<open>What a program may do to get from one context to another, and doing it.\<close>

datatype derivation = DCancel | DDeadline int | DTimeout int | DValue goval goval

fun derive :: "int \<Rightarrow> derivation \<Rightarrow> gctx \<times> ctxs \<Rightarrow> gctx \<times> ctxs" where
  "derive now DCancel (c, h) = with_cancel c h"
| "derive now (DDeadline d) (c, h) = with_deadline now c d h"
| "derive now (DTimeout t) (c, h) = with_timeout now c t h"
| "derive now (DValue k v) (c, h) = with_value c k v h"

fun derive_all :: "(int \<times> derivation) list \<Rightarrow> gctx \<times> ctxs \<Rightarrow> gctx \<times> ctxs" where
  "derive_all [] ch = ch"
| "derive_all ((now, d) # ds) ch = derive_all ds (derive now d ch)"

text \<open>One derivation: a new node under the old one, and nothing else changes.\<close>

definition grows :: "gctx \<Rightarrow> ctxs \<Rightarrow> gctx \<Rightarrow> ctxs \<Rightarrow> bool" where
  "grows c h c' h' \<longleftrightarrow>
     wf_ctxs h' \<and> g_std c' < length h' \<and> length h \<le> length h' \<and>
     g_client c' = g_client c \<and> below h' (g_std c) (g_std c') \<and>
     (\<forall>j < length h. ctx_err h' j = ctx_err h j \<and> ctx_up h' j = ctx_up h j)"

lemma grows_refl: "wf_ctxs h \<Longrightarrow> g_std c < length h \<Longrightarrow> grows c h c h"
  by (simp add: grows_def)

lemma grows_below: "grows c h c' h' \<Longrightarrow> j < length h \<Longrightarrow> below h' i j = below h i j"
  by (rule below_cong) (simp add: grows_def)

lemma grows_trans:
  assumes "g_std c < length h" "grows c h c' h'" "grows c' h' c'' h''"
  shows "grows c h c'' h''"
proof -
  have "below h'' (g_std c) (g_std c')"
    using grows_below [OF assms(3), of "g_std c'"] assms(2) by (simp add: grows_def)
  with assms show ?thesis by (auto simp: grows_def intro: below_trans)
qed

lemma grows_derive_new:
  "wf_ctxs h \<Longrightarrow> g_std c < length h \<Longrightarrow>
   grows c h \<lparr>g_std = length h, g_client = g_client c\<rparr> (snd (std_derive k (g_std c) h))"
  by (simp add: grows_def wf_derive below_derive_new)

lemma grows_derive_passed:
  "wf_ctxs h \<Longrightarrow> g_std c < length h \<Longrightarrow>
   grows c h \<lparr>g_std = length h, g_client = g_client c\<rparr>
     (std_cancel (length h) e (snd (std_derive k (g_std c) h)))"
  using below_le [of h "length h"]
  by (fastforce simp: grows_def wf_derive wf_cancel below_derive_new ctx_err_cancel)

lemma grows_with_deadline:
  "wf_ctxs h \<Longrightarrow> g_std c < length h \<Longrightarrow> with_deadline now c d h = (c', h') \<Longrightarrow> grows c h c' h'"
  using std_with_deadline_new [of now "g_std c" d h]
  by (auto simp: with_deadline_def split_def Let_def intro: grows_derive_new grows_derive_passed)

lemma grows_derive:
  assumes "wf_ctxs h" "g_std c < length h" "derive now d (c, h) = (c', h')"
  shows "grows c h c' h'"
proof (cases d)
  case DCancel
  with assms show ?thesis by (auto simp: with_cancel_def split_def Let_def intro: grows_derive_new)
next
  case (DValue k v)
  with assms show ?thesis by (auto simp: with_value_def split_def Let_def intro: grows_derive_new)
qed (use assms in \<open>auto simp: with_timeout_def intro: grows_with_deadline\<close>)

lemma grows_derive_all:
  "wf_ctxs h \<Longrightarrow> g_std c < length h \<Longrightarrow> derive_all ds (c, h) = (c', h') \<Longrightarrow> grows c h c' h'"
proof (induction ds arbitrary: c h)
  case (Cons x ds)
  obtain now d where x: "x = (now, d)" by (cases x)
  obtain c1 h1 where 1: "derive now d (c, h) = (c1, h1)" by (cases "derive now d (c, h)")
  have g: "grows c h c1 h1" by (rule grows_derive [OF Cons.prems(1,2) 1])
  then have "grows c1 h1 c' h'"
    using Cons.IH [of h1 c1] Cons.prems(3) x 1 by (simp add: grows_def)
  with g Cons.prems(2) show ?case by (blast intro: grows_trans)
qed (simp add: grows_refl)


section \<open>Properties\<close>

text \<open>
  Whatever chain of \<open>WithCancel\<close>, \<open>WithDeadline\<close>, \<open>WithTimeout\<close> and \<open>WithValue\<close> leads from a
  context to another, the derived context keeps the connection of the first, and has ended once the
  first has been cancelled; no context that existed before the derivations was changed by them, and
  none that was not derived from the first is changed by its cancellation.
\<close>

theorem derived_contexts_follow_their_origin:
  assumes "wf_ctxs h" and "g_std c < length h" and "derive_all ds (c, h) = (c', h')"
  shows "g_client c' = g_client c \<and>
    ctx_err (ctx_cancel (g_std c) h') (g_std c') \<noteq> None \<and>
    (\<forall>j < length h. ctx_err h' j = ctx_err h j) \<and>
    (\<forall>j < length h. \<not> below h (g_std c) j \<longrightarrow>
       ctx_err (ctx_cancel (g_std c) h') j = ctx_err h j)"
proof -
  have g: "grows c h c' h'" by (rule grows_derive_all [OF assms])
  then show ?thesis
    using grows_below [OF g] by (auto simp: grows_def ctx_cancel_def ctx_err_cancel)
qed

theorem derived_contexts_follow_their_origin_witness:
  "\<exists>c h'. derive_all [(5, DCancel), (6, DTimeout 10)] (with_client background (Some 7), root_ctxs) = (c, h') \<and>
     g_client c = Some 7 \<and> ctx_err (ctx_cancel 0 h') (g_std c) \<noteq> None"
proof -
  obtain c h' where 1: "derive_all [(5, DCancel), (6, DTimeout 10)]
      (with_client background (Some 7), root_ctxs) = (c, h')"
    by (cases "derive_all [(5, DCancel), (6, DTimeout 10)]
      (with_client background (Some 7), root_ctxs)")
  have "g_std (with_client background (Some 7)) < length root_ctxs"
    by (simp add: with_client_def background_def)
  from derived_contexts_follow_their_origin [OF wf_root_ctxs this 1] 1 show ?thesis
    by (auto simp: with_client_def background_def)
qed

end
