(* ===== verification/Svc.thy ===== *)
theory Svc
  imports GoContext
begin

text \<open>
  internal/svc/svc.go: the map of the requests a connection is serving, from sequence number to the
  cancel function of the request's context, and the internal service \<open>_goRPC_\<close> whose \<open>Cancel\<close> the
  peer calls. A cancel function is identified with the context it cancels; a \<open>*Pending\<close> is an
  address, one per served connection.
\<close>

section \<open>State and operations\<close>

record pending =
  pd_m :: "u64 \<rightharpoonup> nat"
  pd_parent :: gctx

record svc_store =
  ss_ctxs :: ctxs
  ss_pend :: "nat \<Rightarrow> pending"
  ss_npend :: nat

definition new_pending :: "gctx \<Rightarrow> svc_store \<Rightarrow> nat \<times> svc_store" where
  "new_pending parent st =
     (ss_npend st,
      st\<lparr>ss_pend := (ss_pend st)(ss_npend st := \<lparr>pd_m = Map.empty, pd_parent = parent\<rparr>),
         ss_npend := Suc (ss_npend st)\<rparr>)"

definition pend_set :: "nat \<Rightarrow> u64 \<Rightarrow> nat option \<Rightarrow> svc_store \<Rightarrow> svc_store" where
  "pend_set p seq v st =
     st\<lparr>ss_pend := (ss_pend st)
          (p := (ss_pend st p)\<lparr>pd_m := (pd_m (ss_pend st p))(seq := v)\<rparr>)\<rparr>"

text \<open>\<open>Start\<close>: a context under the connection's, whose cancel function overwrites any earlier one.\<close>

definition pend_start :: "nat \<Rightarrow> u64 \<Rightarrow> svc_store \<Rightarrow> gctx \<times> svc_store" where
  "pend_start p seq st =
     (let (ctx, h) = with_cancel (pd_parent (ss_pend st p)) (ss_ctxs st)
      in (ctx, pend_set p seq (Some (g_std ctx)) (st\<lparr>ss_ctxs := h\<rparr>)))"

definition pend_cancel :: "nat \<Rightarrow> u64 \<Rightarrow> svc_store \<Rightarrow> svc_store" where
  "pend_cancel p seq st =
     (case pd_m (ss_pend st p) seq of
        Some i \<Rightarrow> (pend_set p seq None st)\<lparr>ss_ctxs := ctx_cancel i (ss_ctxs st)\<rparr>
      | None \<Rightarrow> st)"

text \<open>\<open>CancelArgs\<close>: the unexported field \<open>pending\<close> is not on the wire, the server sets it.\<close>

record cancel_req =
  ca_seq :: u64
  ca_pending :: "nat option"

definition set_pending :: "nat \<Rightarrow> cancel_req \<Rightarrow> cancel_req" where
  "set_pending p a = a\<lparr>ca_pending := Some p\<rparr>"

text \<open>\<open>GoRPC.Cancel\<close>: locking the mutex of a nil \<open>*Pending\<close> panics.\<close>

definition gorpc_cancel :: "cancel_req \<Rightarrow> svc_store \<Rightarrow> svc_store outcome" where
  "gorpc_cancel a st =
     (case ca_pending a of
        None \<Rightarrow> Panic
      | Some p \<Rightarrow> Ok (pend_cancel p (ca_seq a) st))"


section \<open>Well-formed stores\<close>

text \<open>
  Every entry is a context made by \<open>Start\<close> for its own connection: a child of the connection's
  context, and no two entries share one.
\<close>

definition wf_svc :: "svc_store \<Rightarrow> bool" where
  "wf_svc st \<longleftrightarrow> wf_ctxs (ss_ctxs st) \<and>
     (\<forall>p < ss_npend st. g_std (pd_parent (ss_pend st p)) < length (ss_ctxs st)) \<and>
     (\<forall>p < ss_npend st. \<forall>n i. pd_m (ss_pend st p) n = Some i \<longrightarrow>
        i < length (ss_ctxs st) \<and>
        ctx_up (ss_ctxs st) i = Some (g_std (pd_parent (ss_pend st p))) \<and>
        (\<forall>q < ss_npend st. \<forall>k. pd_m (ss_pend st q) k = Some i \<longrightarrow> q = p \<and> k = n))"

lemma wf_svcD:
  assumes "wf_svc st"
  shows wf_svc_ctxs: "wf_ctxs (ss_ctxs st)"
    and wf_svc_parent: "p < ss_npend st \<Longrightarrow> g_std (pd_parent (ss_pend st p)) < length (ss_ctxs st)"
    and wf_svc_entry: "p < ss_npend st \<Longrightarrow> pd_m (ss_pend st p) n = Some i \<Longrightarrow>
      i < length (ss_ctxs st) \<and> ctx_up (ss_ctxs st) i = Some (g_std (pd_parent (ss_pend st p)))"
    and wf_svc_inj: "p < ss_npend st \<Longrightarrow> pd_m (ss_pend st p) n = Some i \<Longrightarrow>
      q < ss_npend st \<Longrightarrow> pd_m (ss_pend st q) k = Some i \<Longrightarrow> q = p \<and> k = n"
  using assms unfolding wf_svc_def by blast+

lemma pend_set_simps [simp]:
  "ss_ctxs (pend_set p n v st) = ss_ctxs st"
  "ss_npend (pend_set p n v st) = ss_npend st"
  "pd_parent (ss_pend (pend_set p n v st) q) = pd_parent (ss_pend st q)"
  "pd_m (ss_pend (pend_set p n v st) q) =
     (if q = p then (pd_m (ss_pend st p))(n := v) else pd_m (ss_pend st q))"
  by (simp_all add: pend_set_def)

lemma pend_cancel_simps [simp]:
  "ss_npend (pend_cancel p n st) = ss_npend st"
  "pd_parent (ss_pend (pend_cancel p n st) q) = pd_parent (ss_pend st q)"
  "pd_m (ss_pend (pend_cancel p n st) q) =
     (if q = p then (pd_m (ss_pend st p))(n := None) else pd_m (ss_pend st q))"
  "length (ss_ctxs (pend_cancel p n st)) = length (ss_ctxs st)"
  by (auto simp: pend_cancel_def ctx_cancel_def split: option.splits)

lemma pend_cancel_up [simp]:
  "j < length (ss_ctxs st) \<Longrightarrow> ctx_up (ss_ctxs (pend_cancel p n st)) j = ctx_up (ss_ctxs st) j"
  by (auto simp: pend_cancel_def ctx_cancel_def split: option.splits)

lemma pend_cancel_err:
  "j < length (ss_ctxs st) \<Longrightarrow> ctx_err (ss_ctxs (pend_cancel p n st)) j =
     (case pd_m (ss_pend st p) n of
        Some i \<Rightarrow> if below (ss_ctxs st) i j \<and> ctx_err (ss_ctxs st) j = None then Some Canceled
          else ctx_err (ss_ctxs st) j
      | None \<Rightarrow> ctx_err (ss_ctxs st) j)"
  by (auto simp: pend_cancel_def ctx_cancel_def ctx_err_cancel split: option.splits)

lemma wf_pend_cancel: "wf_svc st \<Longrightarrow> wf_svc (pend_cancel p n st)"
  unfolding wf_svc_def
  by (auto simp: pend_cancel_def ctx_cancel_def wf_cancel split: option.splits)

lemma pend_startE:
  assumes "pend_start p n st = (ctx, t)"
  obtains "g_std ctx = length (ss_ctxs st)" "g_client ctx = g_client (pd_parent (ss_pend st p))"
    "t = pend_set p n (Some (length (ss_ctxs st)))
       (st\<lparr>ss_ctxs := snd (std_derive KCancel (g_std (pd_parent (ss_pend st p))) (ss_ctxs st))\<rparr>)"
  using assms by (auto simp: pend_start_def with_cancel_def split_def Let_def)

lemma wf_pend_start:
  assumes "wf_svc st" "p < ss_npend st" "pend_start p n st = (ctx, t)"
  shows "wf_svc t"
  using assms(3)
proof (rule pend_startE)
  assume *: "t = pend_set p n (Some (length (ss_ctxs st)))
       (st\<lparr>ss_ctxs := snd (std_derive KCancel (g_std (pd_parent (ss_pend st p))) (ss_ctxs st))\<rparr>)"
  have P: "g_std (pd_parent (ss_pend st q)) < length (ss_ctxs st)" if "q < ss_npend st" for q
    by (rule wf_svc_parent [OF assms(1) that])
  have E: "i < length (ss_ctxs st)" "ctx_up (ss_ctxs st) i = Some (g_std (pd_parent (ss_pend st q)))"
    if "q < ss_npend st" "pd_m (ss_pend st q) k = Some i" for q k i
    using wf_svc_entry [OF assms(1) that] by auto
  show ?thesis
    unfolding wf_svc_def
  proof (intro conjI allI impI)
    show "wf_ctxs (ss_ctxs t)"
      using * wf_derive [OF wf_svc_ctxs [OF assms(1)] P [OF assms(2)]] by simp
    show "g_std (pd_parent (ss_pend t q)) < length (ss_ctxs t)" if "q < ss_npend t" for q
      using P [of q] that * by simp
  next
    fix q k i assume q: "q < ss_npend t" and i: "pd_m (ss_pend t q) k = Some i"
    show "i < length (ss_ctxs t)" "ctx_up (ss_ctxs t) i = Some (g_std (pd_parent (ss_pend t q)))"
      using q i * E [of q k i] by (auto split: if_splits)
    fix q' k' assume "q' < ss_npend t" "pd_m (ss_pend t q') k' = Some i"
    then show "q' = q" "k' = k"
      using q i * E(1) [of q k i] E(1) [of q' k' i] wf_svc_inj [OF assms(1), of q k i q' k']
      by (auto split: if_splits)
  qed
qed

lemma siblings_not_below:
  assumes "wf_ctxs h" "i < length h" "j < length h" "ctx_up h i = Some p" "ctx_up h j = Some p" "i \<noteq> j"
  shows "\<not> below h i j"
proof
  assume "below h i j"
  then obtain q where "ctx_up h j = Some q" "below h i q" using below_up assms(6) by blast
  with below_le [of h i p] wf_ctxsD(1) [OF assms(1,2,4)] assms(5) show False by simp
qed


lemma entry_not_above_parent:
  assumes "wf_svc st" "p < ss_npend st" "pd_m (ss_pend st p) n = Some i"
  shows "\<not> below (ss_ctxs st) i (g_std (pd_parent (ss_pend st p)))"
proof
  assume "below (ss_ctxs st) i (g_std (pd_parent (ss_pend st p)))"
  with wf_svc_entry [OF assms] wf_ctxsD(1) [OF wf_svc_ctxs [OF assms(1)]] below_le show False
    by fastforce
qed

text \<open>\<open>Cancel(n)\<close> ends neither the connection's context nor that of another request of it.\<close>

lemma pend_cancel_others:
  assumes "wf_svc st" "p < ss_npend st"
  shows "ctx_err (ss_ctxs (pend_cancel p n st)) (g_std (pd_parent (ss_pend st p))) =
      ctx_err (ss_ctxs st) (g_std (pd_parent (ss_pend st p)))"
    and "pd_m (ss_pend st p) k = Some j \<Longrightarrow> k \<noteq> n \<Longrightarrow>
      ctx_err (ss_ctxs (pend_cancel p n st)) j = ctx_err (ss_ctxs st) j"
proof -
  show "ctx_err (ss_ctxs (pend_cancel p n st)) (g_std (pd_parent (ss_pend st p))) =
      ctx_err (ss_ctxs st) (g_std (pd_parent (ss_pend st p)))"
    using entry_not_above_parent [OF assms] wf_svc_parent [OF assms]
    by (auto simp: pend_cancel_err split: option.splits)
  assume k: "pd_m (ss_pend st p) k = Some j" "k \<noteq> n"
  note E = wf_svc_entry [OF assms]
  show "ctx_err (ss_ctxs (pend_cancel p n st)) j = ctx_err (ss_ctxs st) j"
  proof (cases "pd_m (ss_pend st p) n")
    case (Some i)
    have "i \<noteq> j" using wf_svc_inj [OF assms Some assms(2), of k] k by auto
    then have "\<not> below (ss_ctxs st) i j"
      using siblings_not_below [OF wf_svc_ctxs [OF assms(1)]] E [OF Some] E [OF k(1)] by blast
    then show ?thesis using E [OF k(1)] Some by (simp add: pend_cancel_err)
  qed (simp add: pend_cancel_def)
qed


section \<open>Properties\<close>

text \<open>
  \<open>Cancel(seq)\<close> ends the context of the request with that number, with the error \<open>Canceled\<close>, and
  takes it out of the map; the context of no other request of the connection is touched, and neither
  is the map of any other connection.
\<close>

theorem cancel_ends_exactly_its_request:
  assumes "wf_svc st" and "p < ss_npend st" and "pd_m (ss_pend st p) n = Some i"
    and "ctx_err (ss_ctxs st) i = None" and "gorpc_cancel (set_pending p a) st = Ok t"
    and "ca_seq a = n"
  shows "ctx_err (ss_ctxs t) i = Some Canceled \<and> pd_m (ss_pend t p) n = None \<and>
    (\<forall>k j. k \<noteq> n \<longrightarrow> pd_m (ss_pend st p) k = Some j \<longrightarrow>
       pd_m (ss_pend t p) k = Some j \<and> ctx_err (ss_ctxs t) j = ctx_err (ss_ctxs st) j) \<and>
    (\<forall>q. q \<noteq> p \<longrightarrow> pd_m (ss_pend t q) = pd_m (ss_pend st q))"
proof -
  have t: "t = pend_cancel p n st"
    using assms(5,6) by (simp add: gorpc_cancel_def set_pending_def)
  note E = wf_svc_entry [OF assms(1,2)]
  have "ctx_err (ss_ctxs t) j = ctx_err (ss_ctxs st) j"
    if "k \<noteq> n" "pd_m (ss_pend st p) k = Some j" for k j
    using pend_cancel_others(2) [OF assms(1,2) that(2,1)] t by simp
  then show ?thesis
    using E [OF assms(3)] assms(3,4) by (auto simp: t pend_cancel_err)
qed

text \<open>Two requests of one connection, with numbers 1 and 2.\<close>

definition two_requests :: svc_store where
  "two_requests =
     snd (pend_start 0 2 (snd (pend_start 0 1 (snd (new_pending background
       \<lparr>ss_ctxs = root_ctxs, ss_pend = \<lambda>_. \<lparr>pd_m = Map.empty, pd_parent = background\<rparr>,
        ss_npend = 0\<rparr>)))))"

lemmas svc_eval = two_requests_def pend_start_def new_pending_def with_cancel_def std_derive_def
  root_ctxs_def background_def pend_set_def ctx_err_def ctx_up_def

lemma wf_two_requests: "wf_svc two_requests"
proof -
  let ?st = "snd (new_pending background
       \<lparr>ss_ctxs = root_ctxs, ss_pend = \<lambda>_. \<lparr>pd_m = Map.empty, pd_parent = background\<rparr>,
        ss_npend = 0\<rparr>)"
  have 0: "wf_svc ?st" "0 < ss_npend ?st"
    by (simp_all add: wf_svc_def new_pending_def wf_root_ctxs background_def)
  obtain c st where 1: "pend_start 0 1 ?st = (c, st)" by fastforce
  have 2: "wf_svc st" "0 < ss_npend st"
    using wf_pend_start [OF 0 1] 1 0(2) by (auto elim!: pend_startE)
  show ?thesis
    unfolding two_requests_def using wf_pend_start [OF 2, of 2] 1 by (metis prod.collapse snd_conv)
qed

theorem cancel_ends_exactly_its_request_witness:
  "\<exists>t. gorpc_cancel (set_pending 0 \<lparr>ca_seq = 1, ca_pending = None\<rparr>) two_requests = Ok t \<and>
     ctx_err (ss_ctxs t) 2 = Some Canceled \<and> ctx_err (ss_ctxs t) 3 = None"
proof -
  have 1: "0 < ss_npend two_requests" "pd_m (ss_pend two_requests 0) 1 = Some 2"
    "pd_m (ss_pend two_requests 0) 2 = Some 3" "ctx_err (ss_ctxs two_requests) 2 = None"
    "ctx_err (ss_ctxs two_requests) 3 = None"
    by (simp_all add: svc_eval)
  obtain t where t: "gorpc_cancel (set_pending 0 \<lparr>ca_seq = 1, ca_pending = None\<rparr>) two_requests = Ok t"
    by (simp add: gorpc_cancel_def set_pending_def)
  show ?thesis
  proof -
    have "ca_seq \<lparr>ca_seq = (1 :: u64), ca_pending = None\<rparr> = 1" by simp
    note P = cancel_ends_exactly_its_request [OF wf_two_requests 1(1,2,4) t this]
    from P have "ctx_err (ss_ctxs t) 2 = Some Canceled" by blast
    moreover from P have "(2 :: u64) \<noteq> 1 \<longrightarrow> pd_m (ss_pend two_requests 0) 2 = Some 3 \<longrightarrow>
      ctx_err (ss_ctxs t) 3 = ctx_err (ss_ctxs two_requests) 3" by blast
    ultimately show ?thesis using t 1 by simp
  qed
qed

text \<open>
  The assumption written in \<open>Start\<close> is needed. When a second request reuses a number that is
  still being served, the cancel function of the first is lost: neither the peer's \<open>Cancel\<close> for that
  number nor the deferred \<open>Cancel\<close> of either handler ends the first request's context.
\<close>

theorem reused_number_loses_a_cancel:
  assumes "wf_svc st" and "p < ss_npend st"
    and "pend_start p n st = (c1, st1)" and "pend_start p n st1 = (c2, st2)"
  shows "ctx_err (ss_ctxs (pend_cancel p n (pend_cancel p n st2))) (g_std c1) =
    ctx_err (ss_ctxs st) (g_std (pd_parent (ss_pend st p)))"
proof -
  have w: "wf_svc st1" by (rule wf_pend_start [OF assms(1-3)])
  from assms(3) have 1: "g_std c1 = length (ss_ctxs st)" "pd_m (ss_pend st1 p) n = Some (g_std c1)"
    "length (ss_ctxs st1) = Suc (length (ss_ctxs st))" "p < ss_npend st1"
    "ctx_err (ss_ctxs st1) (g_std c1) = ctx_err (ss_ctxs st) (g_std (pd_parent (ss_pend st p)))"
    using assms(2) by (auto elim!: pend_startE)
  from assms(4) have 2: "pd_m (ss_pend st2 p) n = Some (length (ss_ctxs st1))"
    "ctx_err (ss_ctxs st2) (g_std c1) = ctx_err (ss_ctxs st1) (g_std c1)"
    "g_std c1 < length (ss_ctxs st2)"
    using 1 by (auto elim!: pend_startE)
  have "\<not> below (ss_ctxs st2) (length (ss_ctxs st1)) (g_std c1)"
    using below_le 1 by fastforce
  with 1 2 show ?thesis by (simp add: pend_cancel_err)
qed

theorem reused_number_loses_a_cancel_witness:
  "ctx_err (ss_ctxs (pend_cancel 0 1 (pend_cancel 0 1 (snd (pend_start 0 1 (snd (pend_start 0 1 two_requests)))))))
     (length (ss_ctxs two_requests)) = None"
proof -
  obtain c1 st1 where 1: "pend_start 0 1 two_requests = (c1, st1)" by fastforce
  obtain c2 st2 where 2: "pend_start 0 1 st1 = (c2, st2)" by fastforce
  have n: "0 < ss_npend two_requests" "g_std c1 = length (ss_ctxs two_requests)"
    "ctx_err (ss_ctxs two_requests) (g_std (pd_parent (ss_pend two_requests 0))) = None"
    using 1 by (auto simp: svc_eval)
  show ?thesis using reused_number_loses_a_cancel [OF wf_two_requests n(1) 1 2] 1 2 n by simp
qed

end
