(* ===== verification/Service.thy ===== *)
theory Service
  imports Svc
begin

text \<open>
  service.go: the services a program registers. \<open>gotype\<close> is what the code asks of a
  \<^verbatim>\<open>reflect.Type\<close> (kind, element, name, package path, identity); the method set of a type, in the
  order of \<^verbatim>\<open>reflect\<close>, is a parameter \<open>msets\<close>, and what a user's method does is a parameter
  \<open>invoke\<close>. A name counts as exported when it starts with an ASCII capital (Go also takes the
  upper-case letters of other alphabets). \<open>service.call\<close> is in the theory of the handlers.
\<close>

section \<open>Types\<close>

datatype gotype =
    TBasic string
  | TNamed string string gotype   \<comment> \<open>package path, name, underlying type\<close>
  | TPtr gotype
  | TSlice gotype
  | TMapOf gotype gotype
  | TStruct "(string \<times> gotype) list"
  | TInterface

datatype kind = KPointer | KMap | KSlice | KOther

fun t_kind :: "gotype \<Rightarrow> kind" where
  "t_kind (TPtr t) = KPointer"
| "t_kind (TSlice t) = KSlice"
| "t_kind (TMapOf k v) = KMap"
| "t_kind (TNamed p n u) = t_kind u"
| "t_kind _ = KOther"

fun t_elem :: "gotype \<Rightarrow> gotype" where
  "t_elem (TPtr t) = t"
| "t_elem (TSlice t) = t"
| "t_elem (TMapOf k v) = v"
| "t_elem (TNamed p n u) = t_elem u"
| "t_elem t = t"

fun t_name :: "gotype \<Rightarrow> string" where
  "t_name (TBasic n) = n"
| "t_name (TNamed p n u) = n"
| "t_name _ = []"

fun t_pkg :: "gotype \<Rightarrow> string" where
  "t_pkg (TNamed p n u) = p"
| "t_pkg _ = []"

text \<open>\<open>String()\<close>: named types by the last component of their package path.\<close>

fun t_string :: "gotype \<Rightarrow> string" where
  "t_string (TBasic n) = n"
| "t_string (TNamed p n u) =
     (if p = [] then n
      else (case last_index CHR ''/'' p of None \<Rightarrow> p | Some i \<Rightarrow> drop (Suc i) p) @ ''.'' @ n)"
| "t_string (TPtr t) = ''*'' @ t_string t"
| "t_string (TSlice t) = ''[]'' @ t_string t"
| "t_string (TMapOf k v) = ''map['' @ t_string k @ '']'' @ t_string v"
| "t_string (TStruct []) = ''struct {}''"
| "t_string (TStruct (f # fs)) =
     ''struct { '' @ fst f @ '' '' @ t_string (snd f) @
       concat (map (\<lambda>g. ''; '' @ fst g @ '' '' @ t_string (snd g)) fs) @ '' }''"
| "t_string TInterface = ''interface {}''"

definition is_exported :: "string \<Rightarrow> bool" where
  "is_exported s =
     (case s of [] \<Rightarrow> False | c # _ \<Rightarrow> 65 \<le> (of_char c :: nat) \<and> (of_char c :: nat) \<le> 90)"

text \<open>The loop of \<open>isExportedOrBuiltinType\<close>: down through pointers.\<close>

fun strip_pointers :: "gotype \<Rightarrow> gotype" where
  "strip_pointers (TPtr t) = strip_pointers t"
| "strip_pointers (TNamed p n u) =
     (if t_kind u = KPointer then strip_pointers u else TNamed p n u)"
| "strip_pointers t = t"

definition is_exported_or_builtin :: "gotype \<Rightarrow> bool" where
  "is_exported_or_builtin t =
     (let b = strip_pointers t in is_exported (t_name b) \<or> t_pkg b = [])"

definition type_of_error :: gotype where
  "type_of_error = TNamed [] ''error'' TInterface"

definition type_of_ctx :: gotype where
  "type_of_ctx =
     TPtr (TNamed ''github.com/cgrates/birpc/context'' ''Context''
       (TStruct [(''Context'', TNamed ''context'' ''Context'' TInterface),
                 (''Client'', TNamed ''github.com/cgrates/birpc/context'' ''ClientConnector'' TInterface)]))"


section \<open>Methods and services\<close>

text \<open>\<^verbatim>\<open>reflect.Method\<close>: an unexported method has a package path; the receiver is the first input;
  \<open>gm_func\<close> names the function value.\<close>

record gomethod =
  gm_name :: string
  gm_pkg :: string
  gm_in :: "gotype list"
  gm_out :: "gotype list"
  gm_func :: nat

record method_type =
  mt_method :: gomethod
  mt_arg :: gotype
  mt_reply :: gotype

record service =
  sv_name :: string
  sv_rcvr :: goval
  sv_typ :: gotype
  sv_methods :: "string \<rightharpoonup> method_type"

text \<open>Why a method is left out, in the order of the tests.\<close>

datatype reject =
    NotExported
  | NumIn nat
  | NotContext gotype
  | ArgNotExported gotype
  | ReplyNotPointer gotype
  | ReplyNotExported gotype
  | NumOut nat
  | NotError gotype

definition check_method :: "gomethod \<Rightarrow> reject + method_type" where
  "check_method m =
     (if gm_pkg m \<noteq> [] then Inl NotExported
      else if length (gm_in m) \<noteq> 4 then Inl (NumIn (length (gm_in m)))
      else if gm_in m ! 1 \<noteq> type_of_ctx then Inl (NotContext (gm_in m ! 1))
      else if \<not> is_exported_or_builtin (gm_in m ! 2) then Inl (ArgNotExported (gm_in m ! 2))
      else if t_kind (gm_in m ! 3) \<noteq> KPointer then Inl (ReplyNotPointer (gm_in m ! 3))
      else if \<not> is_exported_or_builtin (gm_in m ! 3) then Inl (ReplyNotExported (gm_in m ! 3))
      else if length (gm_out m) \<noteq> 1 then Inl (NumOut (length (gm_out m)))
      else if gm_out m ! 0 \<noteq> type_of_error then Inl (NotError (gm_out m ! 0))
      else Inr \<lparr>mt_method = m, mt_arg = gm_in m ! 2, mt_reply = gm_in m ! 3\<rparr>)"

text \<open>
  \<open>suitableMethods\<close>: the loop over the method set, with the map built so far and the log of reports
  (an unexported method is skipped silently).
\<close>

fun suitable_loop ::
  "bool \<Rightarrow> gomethod list \<Rightarrow> (string \<rightharpoonup> method_type) \<Rightarrow> (string \<times> reject) list \<Rightarrow>
   (string \<rightharpoonup> method_type) \<times> (string \<times> reject) list" where
  "suitable_loop rep [] ms log = (ms, log)"
| "suitable_loop rep (m # rest) ms log =
     (case check_method m of
        Inl r \<Rightarrow> suitable_loop rep rest ms
                  (if rep \<and> r \<noteq> NotExported then log @ [(gm_name m, r)] else log)
      | Inr mt \<Rightarrow> suitable_loop rep rest (ms(gm_name m \<mapsto> mt)) log)"

definition suitable_methods :: "bool \<Rightarrow> gomethod list \<Rightarrow> string \<rightharpoonup> method_type" where
  "suitable_methods rep meths = fst (suitable_loop rep meths Map.empty [])"

text \<open>
  \<open>NewService\<close>. The receiver is an interface value: \<open>None\<close>, or a type with a value. Asking a zero
  \<^verbatim>\<open>reflect.Value\<close> (nil interface, or what a nil pointer points to) for its type panics.
\<close>

definition service_name :: "gotype \<Rightarrow> goval \<Rightarrow> string \<Rightarrow> bool \<Rightarrow> string option" where
  "service_name t v name use_name =
     (if use_name then Some name
      else if t_kind t = KPointer
      then (if v = VNil then None else Some (t_name (t_elem t)))
      else Some (t_name t))"

definition new_service ::
  "(gotype \<Rightarrow> gomethod list) \<Rightarrow> (gotype \<times> goval) option \<Rightarrow> string \<Rightarrow> bool \<Rightarrow> service outcome" where
  "new_service msets rcvr name use_name =
     (case rcvr of
        None \<Rightarrow> Panic
      | Some (t, v) \<Rightarrow>
          (case service_name t v name use_name of
             None \<Rightarrow> Panic
           | Some sname \<Rightarrow>
               if sname = []
               then Fail (ErrorString (''rpc.Register: no service name for type '' @ t_string t))
               else if \<not> use_name \<and> \<not> is_exported sname
               then Fail (ErrorString (''rpc.Register: type '' @ sname @ '' is not exported''))
               else
                 (let ms = suitable_methods True (msets t) in
                  if dom ms = {}
                  then
                    if dom (suitable_methods False (msets (TPtr t))) \<noteq> {}
                    then Fail (ErrorString (''rpc.Register: type '' @ sname @
                      '' has no exported methods of suitable type (hint: pass a pointer to value of that type)''))
                    else Fail (ErrorString (''rpc.Register: type '' @ sname @
                      '' has no exported methods of suitable type''))
                  else Ok \<lparr>sv_name = sname, sv_rcvr = v, sv_typ = t, sv_methods = ms\<rparr>)))"

text \<open>\<open>updateMethodName\<close>; \<open>ks\<close> is the order in which \<open>range s.Methods\<close> visits the map.\<close>

fun rename_loop ::
  "(string \<Rightarrow> string) \<Rightarrow> (string \<rightharpoonup> method_type) \<Rightarrow> string list \<Rightarrow> (string \<rightharpoonup> method_type) \<Rightarrow>
   (string \<rightharpoonup> method_type)" where
  "rename_loop f old [] ms = ms"
| "rename_loop f old (k # ks) ms = rename_loop f old ks (ms(f k := old k))"

definition update_method_name :: "(string \<Rightarrow> string) \<Rightarrow> string list \<Rightarrow> service \<Rightarrow> service" where
  "update_method_name f ks s = s\<lparr>sv_methods := rename_loop f (sv_methods s) ks Map.empty\<rparr>"

definition new_service_with_methods_rename ::
  "(gotype \<Rightarrow> gomethod list) \<Rightarrow> (gotype \<times> goval) option \<Rightarrow> string \<Rightarrow> bool \<Rightarrow>
   (string \<Rightarrow> string) \<Rightarrow> (service \<Rightarrow> string list) \<Rightarrow> service outcome" where
  "new_service_with_methods_rename msets rcvr name use_name f order =
     (case new_service msets rcvr name use_name of
        Ok s \<Rightarrow> Ok (update_method_name f (order s) s)
      | r \<Rightarrow> r)"


section \<open>Arguments and replies\<close>

definition is_prefix_of :: "string \<Rightarrow> string \<Rightarrow> bool" where
  "is_prefix_of p s \<longleftrightarrow> take (length p) s = p"

text \<open>The zero value of a type (numbers other than \<^verbatim>\<open>uint...\<close> are integers here).\<close>

fun zero_value :: "gotype \<Rightarrow> goval" where
  "zero_value (TBasic n) =
     (if n = ''bool'' then VBool False
      else if n = ''string'' then VString []
      else if is_prefix_of ''uint'' n then VUint 0
      else VInt 0)"
| "zero_value (TNamed p n u) =
     (case u of TStruct _ \<Rightarrow> (case zero_value u of VStruct _ fs \<Rightarrow> VStruct n fs | v \<Rightarrow> v)
      | _ \<Rightarrow> zero_value u)"
| "zero_value (TStruct fs) = VStruct [] (map (\<lambda>f. (fst f, zero_value (snd f))) fs)"
| "zero_value _ = VNil"

text \<open>\<open>getArgv\<close>: a pointer to decode into, and whether to pass on what it points to.\<close>

definition get_argv :: "method_type \<Rightarrow> goval \<times> bool" where
  "get_argv mt =
     (if t_kind (mt_arg mt) = KPointer then (VPtr (zero_value (t_elem (mt_arg mt))), False)
      else (VPtr (zero_value (mt_arg mt)), True))"

text \<open>\<open>argv\<close> when the handler is called: \<open>v\<close> has been decoded behind the pointer.\<close>

definition decoded_argv :: "method_type \<Rightarrow> goval \<Rightarrow> goval" where
  "decoded_argv mt v = (if snd (get_argv mt) then v else VPtr v)"

definition get_replyv :: "method_type \<Rightarrow> goval" where
  "get_replyv mt =
     (case t_kind (t_elem (mt_reply mt)) of
        KMap \<Rightarrow> VPtr (VMap [])
      | KSlice \<Rightarrow> VPtr (VSlice [])
      | _ \<Rightarrow> VPtr (zero_value (t_elem (mt_reply mt))))"

text \<open>\<open>v\<close> is a value of type \<open>t\<close>.\<close>

fun value_ok :: "gotype \<Rightarrow> goval \<Rightarrow> bool" where
  "value_ok (TBasic n) v =
     (if n = ''bool'' then (case v of VBool _ \<Rightarrow> True | _ \<Rightarrow> False)
      else if n = ''string'' then (case v of VString _ \<Rightarrow> True | _ \<Rightarrow> False)
      else if is_prefix_of ''uint'' n then (case v of VUint _ \<Rightarrow> True | _ \<Rightarrow> False)
      else (case v of VInt _ \<Rightarrow> True | _ \<Rightarrow> False))"
| "value_ok (TNamed p n u) v =
     (case u of
        TStruct _ \<Rightarrow> (case v of VStruct s fs \<Rightarrow> s = n \<and> value_ok u (VStruct [] fs) | _ \<Rightarrow> False)
      | _ \<Rightarrow> value_ok u v)"
| "value_ok (TPtr t) v = (case v of VNil \<Rightarrow> True | VPtr w \<Rightarrow> value_ok t w | _ \<Rightarrow> False)"
| "value_ok (TSlice t) v = (case v of VNil \<Rightarrow> True | VSlice ws \<Rightarrow> (\<forall>w \<in> set ws. value_ok t w) | _ \<Rightarrow> False)"
| "value_ok (TMapOf k e) v =
     (case v of VNil \<Rightarrow> True
      | VMap kvs \<Rightarrow> (\<forall>x \<in> set kvs. value_ok k (fst x) \<and> value_ok e (snd x)) | _ \<Rightarrow> False)"
| "value_ok (TStruct fs) v =
     (case v of VStruct s vs \<Rightarrow>
        s = [] \<and> list_all2 (\<lambda>f w. fst f = fst w \<and> value_ok (snd f) (snd w)) fs vs | _ \<Rightarrow> False)"
| "value_ok TInterface v = True"

lemma zero_value_ok: "value_ok t (zero_value t)"
proof (induction t)
  case (TNamed p n u)
  then show ?case by (cases u) auto
next
  case (TStruct fs)
  then show ?case
    by (auto simp: list_all2_map2 intro!: list.rel_refl_strong)
qed auto


lemma empty_map_ok: "t_kind t = KMap \<Longrightarrow> value_ok t (VMap [])"
proof (induction t)
  case (TNamed p n u)
  then show ?case by (cases u) simp_all
qed simp_all

lemma empty_slice_ok: "t_kind t = KSlice \<Longrightarrow> value_ok t (VSlice [])"
proof (induction t)
  case (TNamed p n u)
  then show ?case by (cases u) simp_all
qed simp_all

lemma pointer_ok: "t_kind t = KPointer \<Longrightarrow> value_ok t (VPtr w) = value_ok (t_elem t) w"
proof (induction t)
  case (TNamed p n u)
  then show ?case by (cases u) simp_all
qed simp_all


section \<open>Calling a method in the process\<close>

definition lookup_error :: "string \<Rightarrow> string \<Rightarrow> go_error" where
  "lookup_error what sm = ErrorString (what @ sm)"

text \<open>
  \<open>Service.Call\<close>: the error it returns and what the reply holds. \<open>invoke g rcvr ctx args reply\<close> is the
  call of the function \<open>g\<close>, which may panic (so does \<^verbatim>\<open>reflect\<close> on arguments of wrong types).
\<close>

definition service_call ::
  "(nat \<Rightarrow> goval \<Rightarrow> gctx \<Rightarrow> goval \<Rightarrow> goval \<Rightarrow> (go_error option \<times> goval) outcome) \<Rightarrow>
   service \<Rightarrow> gctx \<Rightarrow> string \<Rightarrow> goval \<Rightarrow> goval \<Rightarrow> (go_error option \<times> goval) outcome" where
  "service_call invoke s ctx sm args rply =
     (case split_service_method sm of
        None \<Rightarrow> Fail (lookup_error ''rpc: service/method request ill-formed: '' sm)
      | Some (sname, mname) \<Rightarrow>
          if sv_name s \<noteq> sname then Fail (lookup_error ''rpc: can't find service '' sm)
          else (case sv_methods s mname of
                  None \<Rightarrow> Fail (lookup_error ''rpc: can't find method '' sm)
                | Some mt \<Rightarrow> invoke (gm_func (mt_method mt)) (sv_rcvr s) ctx args rply))"


section \<open>Which methods are served\<close>

text \<open>The documented conditions on a method, with the context the code requires.\<close>

definition suitable :: "gomethod \<Rightarrow> bool" where
  "suitable m \<longleftrightarrow> gm_pkg m = [] \<and>
     (\<exists>rcvr arg reply. gm_in m = [rcvr, type_of_ctx, arg, reply] \<and>
        is_exported_or_builtin arg \<and> is_exported_or_builtin reply \<and> t_kind reply = KPointer) \<and>
     gm_out m = [type_of_error]"

definition method_entry :: "gomethod \<Rightarrow> method_type" where
  "method_entry m = \<lparr>mt_method = m, mt_arg = gm_in m ! 2, mt_reply = gm_in m ! 3\<rparr>"

lemma length_4_conv: "length xs = 4 \<longleftrightarrow> (\<exists>a b c d. xs = [a, b, c, d])"
  by (auto simp: numeral_eq_Suc length_Suc_conv)

lemma length_1_conv: "length xs = Suc 0 \<longleftrightarrow> (\<exists>a. xs = [a])"
  by (auto simp: length_Suc_conv)

lemma check_method_Inr: "check_method m = Inr mt \<longleftrightarrow> suitable m \<and> mt = method_entry m"
  by (auto simp: check_method_def suitable_def method_entry_def length_4_conv length_1_conv
      split: if_splits)

lemma check_method_entry: "check_method m = Inr mt \<Longrightarrow> mt_reply mt = gm_in m ! 3 \<and> t_kind (mt_reply mt) = KPointer"
  by (auto simp: check_method_def split: if_splits)

lemma suitable_loop_defined:
  "fst (suitable_loop rep meths ms log) n = None \<longleftrightarrow>
     ms n = None \<and> \<not> (\<exists>m \<in> set meths. gm_name m = n \<and> suitable m)"
proof (induction meths arbitrary: ms log)
  case (Cons m meths)
  show ?case
  proof (cases "check_method m")
    case (Inl r)
    then have "\<not> suitable m" using check_method_Inr [of m] by force
    with Inl Cons show ?thesis by simp
  next
    case (Inr mt)
    then have "suitable m" using check_method_Inr by blast
    with Inr Cons show ?thesis by auto
  qed
qed simp

lemma suitable_loop_lookup:
  "distinct (map gm_name meths) \<Longrightarrow>
   fst (suitable_loop rep meths ms log) n =
     (case find (\<lambda>m. gm_name m = n \<and> suitable m) meths of
        Some m \<Rightarrow> Some (method_entry m)
      | None \<Rightarrow> ms n)"
proof (induction meths arbitrary: ms log)
  case (Cons m meths)
  show ?case
  proof (cases "check_method m")
    case (Inl r)
    then have "\<not> suitable m" using check_method_Inr [of m] by force
    with Inl Cons show ?thesis by simp
  next
    case (Inr mt)
    then have "suitable m" "mt = method_entry m" using check_method_Inr by blast+
    moreover have "find (\<lambda>x. gm_name x = gm_name m \<and> suitable x) meths = None"
      using Cons.prems by (auto simp: find_None_iff image_iff)
    ultimately show ?thesis using Inr Cons by (auto split: option.splits)
  qed
qed simp

lemma no_suitable_method:
  "suitable_methods rep meths = Map.empty \<longleftrightarrow> \<not> (\<exists>m \<in> set meths. suitable m)"
  by (auto simp: suitable_methods_def fun_eq_iff suitable_loop_defined)

lemma suitable_methods_Some:
  assumes "distinct (map gm_name meths)"
  shows "suitable_methods rep meths n = Some mt \<longleftrightarrow>
    (\<exists>m \<in> set meths. gm_name m = n \<and> suitable m \<and> mt = method_entry m)"
proof -
  let ?P = "\<lambda>m. gm_name m = n \<and> suitable m"
  have uniq: "m' = m" if "m \<in> set meths" "m' \<in> set meths" "?P m" "?P m'" for m m'
    using that assms by (auto simp: distinct_map inj_on_def)
  have hit: "find ?P meths = Some m \<Longrightarrow> m \<in> set meths \<and> ?P m" for m
    by (auto simp: find_Some_iff)
  show ?thesis
  proof (cases "find ?P meths")
    case None
    then have "\<not> (\<exists>m \<in> set meths. ?P m)" by (auto simp: find_None_iff)
    with None show ?thesis
      unfolding suitable_methods_def suitable_loop_lookup [OF assms] by simp blast
  next
    case (Some m)
    with hit uniq show ?thesis
      by (auto simp: suitable_methods_def suitable_loop_lookup [OF assms])
  qed
qed

lemma suitable_loop_log:
  "set (snd (suitable_loop rep meths ms log)) = set log \<union>
     {(gm_name m, r) |m r. rep \<and> m \<in> set meths \<and> check_method m = Inl r \<and> r \<noteq> NotExported}"
proof (induction meths arbitrary: ms log)
  case (Cons m meths)
  show ?case
    by (cases "check_method m") (auto simp: Cons)
qed simp


section \<open>Renaming\<close>

lemma rename_loop_other: "n \<notin> f ` set ks \<Longrightarrow> rename_loop f old ks ms n = ms n"
  by (induction ks arbitrary: ms) auto

lemma rename_loop_hit:
  "inj_on f (set ks) \<Longrightarrow> k \<in> set ks \<Longrightarrow> rename_loop f old ks ms (f k) = old k"
proof (induction ks arbitrary: ms)
  case (Cons x ks)
  show ?case
  proof (cases "k \<in> set ks")
    case False
    then have "f k \<notin> f ` set ks" using Cons.prems by (auto simp: inj_on_def)
    then show ?thesis using False Cons.prems by (simp add: rename_loop_other)
  qed (use Cons in auto)
qed simp

text \<open>With a collision, whichever old name is visited last wins.\<close>

lemma rename_loop_last: "rename_loop f old (ks @ [k]) ms (f k) = old k"
  by (induction ks arbitrary: ms) auto


section \<open>Properties\<close>


definition arith_type :: gotype where
  "arith_type = TNamed ''main'' ''Arith'' (TStruct [])"

definition add_method :: gomethod where
  "add_method = \<lparr>gm_name = ''Add'', gm_pkg = [],
     gm_in = [TPtr arith_type, type_of_ctx, TPtr (TNamed ''main'' ''Args'' (TStruct [(''A'', TBasic ''int'')])),
       TPtr (TBasic ''int'')], gm_out = [type_of_error], gm_func = 1\<rparr>"

definition arith_meths :: "gotype \<Rightarrow> gomethod list" where
  "arith_meths t =
     (if t = TPtr arith_type
      then [add_method, add_method\<lparr>gm_name := ''Bad'', gm_out := []\<rparr>]
      else [])"

lemmas service_eval = arith_meths_def add_method_def arith_type_def type_of_ctx_def type_of_error_def
  suitable_methods_def check_method_def is_exported_or_builtin_def is_exported_def


text \<open>
  \<open>NewService\<close> succeeds exactly when there is a receiver whose service name can be determined and
  is not empty, that name is exported unless the caller chose it, and the receiver has a method that
  can be served; the service then has that name and offers exactly the suitable methods. It panics
  exactly on a nil interface, and on a nil pointer whose type name it needs.
\<close>

theorem new_service_outcome:
  "((\<exists>s. new_service msets (Some (t, v)) name use_name = Ok s \<and> sv_name s = sname \<and>
      sv_methods s = ms) \<longleftrightarrow>
     service_name t v name use_name = Some sname \<and> sname \<noteq> [] \<and>
     (use_name \<or> is_exported sname) \<and> ms = suitable_methods True (msets t) \<and>
     (\<exists>m \<in> set (msets t). suitable m)) \<and>
   (new_service msets rcvr name use_name = Panic \<longleftrightarrow>
     rcvr = None \<or> (\<exists>t. rcvr = Some (t, VNil) \<and> t_kind t = KPointer \<and> \<not> use_name))"
proof (rule conjI)
  show "(\<exists>s. new_service msets (Some (t, v)) name use_name = Ok s \<and> sv_name s = sname \<and>
      sv_methods s = ms) \<longleftrightarrow>
     service_name t v name use_name = Some sname \<and> sname \<noteq> [] \<and>
     (use_name \<or> is_exported sname) \<and> ms = suitable_methods True (msets t) \<and>
     (\<exists>m \<in> set (msets t). suitable m)"
    by (cases "service_name t v name use_name")
       (auto simp: new_service_def Let_def no_suitable_method)
  show "new_service msets rcvr name use_name = Panic \<longleftrightarrow>
     rcvr = None \<or> (\<exists>t. rcvr = Some (t, VNil) \<and> t_kind t = KPointer \<and> \<not> use_name)"
    by (auto simp: new_service_def service_name_def Let_def split: option.splits prod.splits if_splits)
qed

text \<open>
  C26: a handler is called with values of its parameter types: when the codec decoded a value of the
  type it was asked for, the argument has the method's argument type, and the reply is a non-nil
  pointer of the method's reply type, to an empty map or slice rather than a nil one.
\<close>

theorem handler_is_called_with_typed_values:
  assumes "check_method m = Inr mt"
    and "value_ok (if snd (get_argv mt) then mt_arg mt else t_elem (mt_arg mt)) v"
  shows "value_ok (mt_arg mt) (decoded_argv mt v) \<and> value_ok (mt_reply mt) (get_replyv mt) \<and>
    (\<exists>w. get_replyv mt = VPtr w \<and> (t_kind (t_elem (mt_reply mt)) \<in> {KMap, KSlice} \<longrightarrow> w \<noteq> VNil))"
proof -
  let ?r = "t_elem (mt_reply mt)"
  have r: "value_ok (mt_reply mt) (VPtr w) = value_ok ?r w" for w
    using check_method_entry [OF assms(1)] pointer_ok by blast
  show ?thesis
  proof (intro conjI)
    show "value_ok (mt_arg mt) (decoded_argv mt v)"
      using assms(2) by (cases "t_kind (mt_arg mt) = KPointer")
        (simp_all add: decoded_argv_def get_argv_def pointer_ok)
    show "value_ok (mt_reply mt) (get_replyv mt)"
      using zero_value_ok [of ?r]
      by (cases "t_kind ?r") (simp_all add: get_replyv_def r empty_map_ok empty_slice_ok)
    show "\<exists>w. get_replyv mt = VPtr w \<and> (t_kind ?r \<in> {KMap, KSlice} \<longrightarrow> w \<noteq> VNil)"
      by (cases "t_kind ?r") (simp_all add: get_replyv_def)
  qed
qed

theorem handler_is_called_with_typed_values_witness:
  "\<exists>mt. check_method add_method = Inr mt \<and>
     value_ok (mt_arg mt) (decoded_argv mt (VStruct ''Args'' [(''A'', VInt 3)])) \<and>
     get_replyv mt = VPtr (VInt 0)"
proof -
  obtain mt where mt: "check_method add_method = Inr mt"
    "mt_arg mt = TPtr (TNamed ''main'' ''Args'' (TStruct [(''A'', TBasic ''int'')]))"
    "mt_reply mt = TPtr (TBasic ''int'')"
    by (simp add: service_eval)
  have "value_ok (if snd (get_argv mt) then mt_arg mt else t_elem (mt_arg mt))
      (VStruct ''Args'' [(''A'', VInt 3)])"
    by (simp add: get_argv_def mt(2) is_prefix_of_def)
  from handler_is_called_with_typed_values [OF mt(1) this] mt
  show ?thesis by (auto simp: get_replyv_def is_prefix_of_def)
qed

text \<open>
  Renaming the methods of a service with an injective function does not depend on the order in
  which Go visits the map: the method called \<open>k\<close> is served as \<open>f k\<close> and nothing else is. (Two names
  that collide keep only the one visited last, and Go's order is random.)
\<close>

theorem renaming_is_order_independent:
  assumes "inj_on f (dom (sv_methods s))" and "set ks = dom (sv_methods s)"
  shows "sv_methods (update_method_name f ks s) n = Some mt \<longleftrightarrow>
    (\<exists>k. n = f k \<and> sv_methods s k = Some mt)"
proof (cases "n \<in> f ` set ks")
  case True
  then obtain k where k: "n = f k" "k \<in> set ks" by blast
  then have "rename_loop f (sv_methods s) ks Map.empty n = sv_methods s k"
    using rename_loop_hit [of f ks k] assms by simp
  moreover have "j = k" if "f j = f k" "sv_methods s j = Some mt" for j
    using that k(2) assms by (auto simp: inj_on_def)
  ultimately show ?thesis using k by (auto simp: update_method_name_def)
next
  case False
  then show ?thesis
    using assms(2) by (auto simp: update_method_name_def rename_loop_other domIff)
qed

theorem renaming_is_order_independent_witness:
  "\<exists>s mt. sv_methods s ''Add'' = Some mt \<and>
     sv_methods (update_method_name (\<lambda>k. CHR ''V'' # k) [''Add''] s) ''VAdd'' = Some mt"
proof -
  let ?mt = "method_entry add_method"
  let ?s = "\<lparr>sv_name = ''Arith'', sv_rcvr = VNil, sv_typ = arith_type, sv_methods = [''Add'' \<mapsto> ?mt]\<rparr>"
  have "inj_on (\<lambda>k. CHR ''V'' # k) (dom (sv_methods ?s))" "set [''Add''] = dom (sv_methods ?s)"
    by simp_all
  from renaming_is_order_independent [OF this, of "''VAdd''" ?mt] show ?thesis
    by (intro exI [of _ ?s] exI [of _ ?mt]) simp
qed

end
