(* ===== verification/Pool.thy ===== *)
theory Pool
  imports Prelude
begin

text \<open>
  The free lists of basic_server.go: \<open>getRequest\<close>/\<open>freeRequest\<close> and \<open>getResponse\<close>/\<open>freeResponse\<close> are
  the same code at two types, a linked list threaded through the objects' \<open>next\<close> fields. An object is
  an address; taking one from the list clears it, and an empty list allocates. The locale
  \<open>object_pool\<close> is what the server relies on; its two interpretations are in the theory of the server.
\<close>

record 'a pool =
  pl_obj :: "nat \<Rightarrow> 'a"
  pl_next :: "nat \<Rightarrow> nat option"
  pl_free :: "nat option"
  pl_n :: nat

definition new_pool :: "'a \<Rightarrow> 'a pool" where
  "new_pool z = \<lparr>pl_obj = (\<lambda>_. z), pl_next = (\<lambda>_. None), pl_free = None, pl_n = 0\<rparr>"

text \<open>\<open>getRequest\<close>, \<open>getResponse\<close>, with the zero value \<open>z\<close> of the type.\<close>

definition pool_get :: "'a \<Rightarrow> 'a pool \<Rightarrow> nat \<times> 'a pool" where
  "pool_get z p =
     (case pl_free p of
        None \<Rightarrow>
          (pl_n p, p\<lparr>pl_obj := (pl_obj p)(pl_n p := z), pl_next := (pl_next p)(pl_n p := None),
                     pl_n := Suc (pl_n p)\<rparr>)
      | Some a \<Rightarrow>
          (a, p\<lparr>pl_free := pl_next p a, pl_obj := (pl_obj p)(a := z),
                pl_next := (pl_next p)(a := None)\<rparr>))"

text \<open>\<open>freeRequest\<close>, \<open>freeResponse\<close>.\<close>

definition pool_put :: "nat \<Rightarrow> 'a pool \<Rightarrow> 'a pool" where
  "pool_put a p = p\<lparr>pl_next := (pl_next p)(a := pl_free p), pl_free := Some a\<rparr>"

definition pool_write :: "nat \<Rightarrow> 'a \<Rightarrow> 'a pool \<Rightarrow> 'a pool" where
  "pool_write a v p = p\<lparr>pl_obj := (pl_obj p)(a := v)\<rparr>"


section \<open>The free list\<close>

fun linked :: "(nat \<Rightarrow> nat option) \<Rightarrow> nat option \<Rightarrow> nat list \<Rightarrow> bool" where
  "linked nx h [] = (h = None)"
| "linked nx h (x # xs) = (h = Some x \<and> linked nx (nx x) xs)"

fun chain :: "nat \<Rightarrow> (nat \<Rightarrow> nat option) \<Rightarrow> nat option \<Rightarrow> nat list" where
  "chain 0 nx h = []"
| "chain (Suc k) nx None = []"
| "chain (Suc k) nx (Some a) = a # chain k nx (nx a)"

definition free_list :: "'a pool \<Rightarrow> nat list" where
  "free_list p = chain (pl_n p) (pl_next p) (pl_free p)"

text \<open>The list ends, has no cycle and contains allocated objects only.\<close>

definition pool_ok :: "'a pool \<Rightarrow> bool" where
  "pool_ok p \<longleftrightarrow>
     linked (pl_next p) (pl_free p) (free_list p) \<and> distinct (free_list p) \<and>
     (\<forall>a \<in> set (free_list p). a < pl_n p)"

lemma chain_linked: "linked nx h xs \<Longrightarrow> length xs \<le> k \<Longrightarrow> chain k nx h = xs"
proof (induction xs arbitrary: h k)
  case Nil
  then show ?case by (cases k) auto
next
  case (Cons x xs)
  then show ?case by (cases k) auto
qed

lemma linked_upd: "a \<notin> set xs \<Longrightarrow> linked (nx(a := v)) h xs = linked nx h xs"
  by (induction xs arbitrary: h) auto

lemma free_list_intro:
  assumes "linked (pl_next p) (pl_free p) xs" "distinct xs" "\<forall>a \<in> set xs. a < pl_n p"
  shows "pool_ok p" "free_list p = xs"
proof -
  have "length xs \<le> pl_n p" using distinct_bounded_length assms(2,3) by blast
  then show "free_list p = xs" by (simp add: free_list_def chain_linked [OF assms(1)])
  with assms show "pool_ok p" by (simp add: pool_ok_def)
qed

lemma new_pool_ok [simp]: "pool_ok (new_pool z)" "free_list (new_pool z) = []"
  by (simp_all add: pool_ok_def free_list_def new_pool_def)

lemma pool_get_cases:
  assumes "pool_ok p" "pool_get z p = (a, q)"
  obtains (alloc) "free_list p = []" "a = pl_n p" "pl_n q = Suc (pl_n p)" "pool_ok q"
      "free_list q = []" "pl_obj q = (pl_obj p)(a := z)"
  | (reuse) xs where "free_list p = a # xs" "pl_n q = pl_n p" "pool_ok q" "free_list q = xs"
      "pl_obj q = (pl_obj p)(a := z)"
proof (cases "pl_free p")
  case None
  then have "free_list p = []" by (cases "pl_n p") (simp_all add: free_list_def)
  moreover have "linked (pl_next q) (pl_free q) []" "pl_n q = Suc (pl_n p)" "a = pl_n p"
    "pl_obj q = (pl_obj p)(a := z)"
    using None assms(2) by (auto simp: pool_get_def)
  ultimately show ?thesis using alloc free_list_intro [of q "[]"] by simp
next
  case (Some b)
  from assms(1) have l: "linked (pl_next p) (pl_free p) (free_list p)" "distinct (free_list p)"
    "\<forall>a \<in> set (free_list p). a < pl_n p" by (simp_all add: pool_ok_def)
  with Some obtain xs where xs: "free_list p = b # xs" by (cases "free_list p") auto
  have q: "a = b" "pl_n q = pl_n p" "pl_obj q = (pl_obj p)(a := z)"
    "pl_free q = pl_next p b" "pl_next q = (pl_next p)(b := None)"
    using Some assms(2) by (auto simp: pool_get_def)
  have "linked (pl_next q) (pl_free q) xs" using l xs q by (simp add: linked_upd)
  then show ?thesis using reuse [of xs] free_list_intro [of q xs] l xs q by simp
qed

lemma pool_get_facts:
  assumes "pool_ok p" "pool_get z p = (a, q)"
  shows "pool_ok q \<and> a < pl_n q \<and> pl_n p \<le> pl_n q \<and> a \<notin> set (free_list q) \<and>
    set (free_list q) \<subseteq> set (free_list p) \<and> (a \<in> set (free_list p) \<or> pl_n p \<le> a) \<and>
    pl_obj q = (pl_obj p)(a := z)"
  using assms
proof (cases rule: pool_get_cases)
  case (reuse xs)
  then have "a < pl_n p" "a \<notin> set xs" using assms(1) by (auto simp: pool_ok_def)
  with reuse show ?thesis by auto
qed auto

lemma pool_put_ok:
  assumes "pool_ok p" "a < pl_n p" "a \<notin> set (free_list p)"
  shows "pool_ok (pool_put a p)" "free_list (pool_put a p) = a # free_list p"
    "pl_n (pool_put a p) = pl_n p" "pl_obj (pool_put a p) = pl_obj p"
proof -
  show "pl_n (pool_put a p) = pl_n p" "pl_obj (pool_put a p) = pl_obj p" by (simp_all add: pool_put_def)
  have "linked (pl_next (pool_put a p)) (pl_free (pool_put a p)) (a # free_list p)"
    using assms by (simp add: pool_put_def pool_ok_def linked_upd)
  moreover have "distinct (a # free_list p)" "\<forall>b \<in> set (a # free_list p). b < pl_n (pool_put a p)"
    using assms by (auto simp: pool_ok_def pool_put_def)
  ultimately show "pool_ok (pool_put a p)" "free_list (pool_put a p) = a # free_list p"
    using free_list_intro by blast+
qed

lemma pool_write_ok [simp]:
  "free_list (pool_write a v p) = free_list p" "pool_ok (pool_write a v p) = pool_ok p"
  "pl_n (pool_write a v p) = pl_n p" "pl_obj (pool_write a v p) = (pl_obj p)(a := v)"
  by (simp_all add: pool_write_def free_list_def pool_ok_def)


section \<open>The contract\<close>

text \<open>
  What the server relies on: \<open>get\<close> hands out a cleared object that is not on the free list any more
  and was either free or not allocated, \<open>put\<close> gives one back, and both leave other objects alone.
\<close>

locale object_pool =
  fixes get :: "'s \<Rightarrow> nat \<times> 's"
    and put :: "nat \<Rightarrow> 's \<Rightarrow> 's"
    and ok :: "'s \<Rightarrow> bool"
    and free :: "'s \<Rightarrow> nat set"
    and bound :: "'s \<Rightarrow> nat"
    and obj :: "'s \<Rightarrow> nat \<Rightarrow> 'a"
    and zero :: 'a
  assumes get_ok: "ok s \<Longrightarrow> get s = (a, t) \<Longrightarrow>
      ok t \<and> a < bound t \<and> bound s \<le> bound t \<and> a \<notin> free t \<and> free t \<subseteq> free s \<and>
      (a \<in> free s \<or> bound s \<le> a) \<and> obj t = (obj s)(a := zero)"
    and put_ok: "ok s \<Longrightarrow> a < bound s \<Longrightarrow> a \<notin> free s \<Longrightarrow>
      ok (put a s) \<and> free (put a s) = insert a (free s) \<and> bound (put a s) = bound s \<and>
      obj (put a s) = obj s"
begin

text \<open>The objects in \<open>H\<close> are in use.\<close>

definition safe :: "'s \<Rightarrow> nat set \<Rightarrow> bool" where
  "safe s H \<longleftrightarrow> ok s \<and> H \<subseteq> {..<bound s} \<and> H \<inter> free s = {}"

lemma safe_get:
  assumes "safe s H" "get s = (a, t)"
  shows "a \<notin> H" "safe t (insert a H)" "obj t a = zero" "\<And>b. b \<in> H \<Longrightarrow> obj t b = obj s b"
proof -
  have "ok s" "H \<subseteq> {..<bound s}" "H \<inter> free s = {}" using assms(1) by (auto simp: safe_def)
  note g = get_ok [OF this(1) assms(2)]
  show "a \<notin> H" using g \<open>H \<subseteq> {..<bound s}\<close> \<open>H \<inter> free s = {}\<close> by auto
  then show "obj t b = obj s b" if "b \<in> H" for b using g that by auto
  show "safe t (insert a H)" "obj t a = zero"
    using g \<open>H \<subseteq> {..<bound s}\<close> \<open>H \<inter> free s = {}\<close> by (auto simp: safe_def)
qed

lemma safe_put:
  assumes "safe s H" "a \<in> H"
  shows "safe (put a s) (H - {a})" "obj (put a s) = obj s"
proof -
  have "ok s" "a < bound s" "a \<notin> free s" using assms by (auto simp: safe_def)
  from put_ok [OF this] assms show "safe (put a s) (H - {a})" "obj (put a s) = obj s"
    by (auto simp: safe_def)
qed

lemma safe_subset: "safe s H \<Longrightarrow> G \<subseteq> H \<Longrightarrow> safe s G"
  by (auto simp: safe_def)

end

end
