(* ===== verification/BasicServer.thy ===== *)
theory BasicServer
  imports Service Pool
begin

text \<open>
  basic_server.go: the registry of services, the free lists of request and response headers, and the
  lookup and reply that every kind of server shares. The \<open>sync.Map\<close> from names to services is a map;
  a header object's fields are in its pool.
\<close>

section \<open>State\<close>

record basic_server =
  bs_services :: "string \<rightharpoonup> service"
  bs_reqs :: "request pool"
  bs_resps :: "response pool"


section \<open>The registry\<close>

text \<open>\<open>LoadOrStore\<close> and \<open>LoadAndDelete\<close>: \<open>None\<close> when the name is taken, and when it is not defined.\<close>

definition store_service :: "service \<Rightarrow> basic_server \<Rightarrow> basic_server option" where
  "store_service sv s =
     (if bs_services s (sv_name sv) = None
      then Some (s\<lparr>bs_services := (bs_services s)(sv_name sv \<mapsto> sv)\<rparr>)
      else None)"

definition delete_service :: "string \<Rightarrow> basic_server \<Rightarrow> basic_server option" where
  "delete_service name s =
     (if bs_services s name = None then None
      else Some (s\<lparr>bs_services := (bs_services s)(name := None)\<rparr>))"

text \<open>What is registered: a \<open>*Service\<close> built before (nil, or a service) or any other value.\<close>

datatype receiver = RService "service option" | RValue "(gotype \<times> goval) option"

definition register ::
  "(gotype \<Rightarrow> gomethod list) \<Rightarrow> receiver \<Rightarrow> string \<Rightarrow> bool \<Rightarrow> basic_server \<Rightarrow> basic_server outcome" where
  "register msets rcvr name use_name s =
     (case (case rcvr of
              RService None \<Rightarrow> Panic
            | RService (Some sv) \<Rightarrow> Ok sv
            | RValue v \<Rightarrow> new_service msets v name use_name) of
        Panic \<Rightarrow> Panic
      | Fail e \<Rightarrow> Fail e
      | Ok sv \<Rightarrow>
          (case store_service sv s of
             None \<Rightarrow> Fail (ErrorString (''rpc: service already defined: '' @ sv_name sv))
           | Some s' \<Rightarrow> Ok s'))"

definition register_type where
  "register_type msets rcvr = register msets rcvr [] False"

definition register_name where
  "register_name msets name rcvr = register msets rcvr name True"

definition unregister_name :: "string \<Rightarrow> basic_server \<Rightarrow> basic_server outcome" where
  "unregister_name name s =
     (case delete_service name s of
        None \<Rightarrow> Fail (ErrorString (''rpc: service not defined: '' @ name))
      | Some s' \<Rightarrow> Ok s')"

text \<open>\<open>Range\<close> over the entries in some order; \<open>f\<close> says whether to go on and threads its own state.\<close>

fun range_services :: "(string \<Rightarrow> service \<Rightarrow> 'x \<Rightarrow> bool \<times> 'x) \<Rightarrow> (string \<times> service) list \<Rightarrow> 'x \<Rightarrow> 'x" where
  "range_services f [] x = x"
| "range_services f ((k, v) # es) x =
     (case f k v x of (go_on, x') \<Rightarrow> if go_on then range_services f es x' else x')"

text \<open>\<open>getService\<close>\<close>

definition get_service :: "request \<Rightarrow> basic_server \<Rightarrow> go_error + (service \<times> method_type)" where
  "get_service req s =
     (case split_service_method (req_method req) of
        None \<Rightarrow> Inl (lookup_error ''rpc: service/method request ill-formed: '' (req_method req))
      | Some (sname, mname) \<Rightarrow>
          (case bs_services s sname of
             None \<Rightarrow> Inl (lookup_error ''rpc: can't find service '' (req_method req))
           | Some sv \<Rightarrow>
               (case sv_methods sv mname of
                  None \<Rightarrow> Inl (lookup_error ''rpc: can't find method '' (req_method req))
                | Some mt \<Rightarrow> Inr (sv, mt))))"


section \<open>The header objects\<close>

definition get_request :: "basic_server \<Rightarrow> nat \<times> basic_server" where
  "get_request s = (case pool_get zero_request (bs_reqs s) of (a, p) \<Rightarrow> (a, s\<lparr>bs_reqs := p\<rparr>))"

definition free_request :: "nat \<Rightarrow> basic_server \<Rightarrow> basic_server" where
  "free_request a s = s\<lparr>bs_reqs := pool_put a (bs_reqs s)\<rparr>"

definition get_response :: "basic_server \<Rightarrow> nat \<times> basic_server" where
  "get_response s = (case pool_get zero_response (bs_resps s) of (a, p) \<Rightarrow> (a, s\<lparr>bs_resps := p\<rparr>))"

definition free_response :: "nat \<Rightarrow> basic_server \<Rightarrow> basic_server" where
  "free_response a s = s\<lparr>bs_resps := pool_put a (bs_resps s)\<rparr>"

definition req_obj :: "basic_server \<Rightarrow> nat \<Rightarrow> request" where
  "req_obj s = pl_obj (bs_reqs s)"

definition resp_obj :: "basic_server \<Rightarrow> nat \<Rightarrow> response" where
  "resp_obj s = pl_obj (bs_resps s)"

definition set_request :: "nat \<Rightarrow> request \<Rightarrow> basic_server \<Rightarrow> basic_server" where
  "set_request a r s = s\<lparr>bs_reqs := pool_write a r (bs_reqs s)\<rparr>"

text \<open>The placeholder reply of an error response.\<close>

definition invalid_request :: goval where
  "invalid_request = VStruct [] []"

text \<open>\<open>sendResponse\<close> before it takes \<open>sending\<close>: the response object, filled in, and the reply to
  encode.\<close>

definition prepare_response ::
  "nat \<Rightarrow> goval \<Rightarrow> string \<Rightarrow> basic_server \<Rightarrow> nat \<times> goval \<times> basic_server" where
  "prepare_response req reply errmsg s =
     (let (a, s1) = get_response s;
          resp = \<lparr>resp_seq = req_seq (req_obj s1 req),
                  resp_error = (if errmsg \<noteq> [] then errmsg else resp_error (resp_obj s1 a))\<rparr>;
          body = (if errmsg \<noteq> [] then invalid_request else reply)
      in (a, body, s1\<lparr>bs_resps := pool_write a resp (bs_resps s1)\<rparr>))"


section \<open>A new server\<close>

definition cancel_func :: nat where
  "cancel_func = 0"

definition svc_package :: string where
  "svc_package = ''github.com/cgrates/birpc/internal/svc''"

definition gorpc_type :: gotype where
  "gorpc_type = TPtr (TNamed svc_package ''GoRPC'' (TStruct []))"

definition cancel_args_type :: gotype where
  "cancel_args_type =
     TPtr (TNamed svc_package ''CancelArgs''
       (TStruct [(''Seq'', TBasic ''uint64''),
                 (''pending'', TPtr (TNamed svc_package ''Pending'' (TStruct [])))]))"

definition gorpc_cancel_method :: gomethod where
  "gorpc_cancel_method =
     \<lparr>gm_name = ''Cancel'', gm_pkg = [],
      gm_in = [gorpc_type, type_of_ctx, cancel_args_type, TPtr (TBasic ''bool'')],
      gm_out = [type_of_error], gm_func = cancel_func\<rparr>"

definition gorpc_msets :: "gotype \<Rightarrow> gomethod list" where
  "gorpc_msets t = (if t = gorpc_type then [gorpc_cancel_method] else [])"

definition empty_server :: basic_server where
  "empty_server =
     \<lparr>bs_services = Map.empty, bs_reqs = new_pool zero_request, bs_resps = new_pool zero_response\<rparr>"

text \<open>\<open>newBasicServer\<close> ignores the result of \<open>RegisterName\<close>.\<close>

definition new_basic_server :: basic_server where
  "new_basic_server =
     (case register_name gorpc_msets ''_goRPC_''
             (RValue (Some (gorpc_type, VPtr (VStruct ''GoRPC'' [])))) empty_server of
        Ok s \<Rightarrow> s
      | _ \<Rightarrow> empty_server)"


section \<open>The registry as an interface\<close>

text \<open>A store of named values where the first one keeps the name until it is deleted.\<close>

locale registry =
  fixes add :: "'v \<Rightarrow> 's \<Rightarrow> 's option"
    and del :: "'k \<Rightarrow> 's \<Rightarrow> 's option"
    and lookup :: "'s \<Rightarrow> 'k \<Rightarrow> 'v option"
    and key :: "'v \<Rightarrow> 'k"
  assumes add_some: "lookup s (key v) = None \<Longrightarrow> \<exists>t. add v s = Some t \<and> lookup t = (lookup s)(key v \<mapsto> v)"
    and add_none: "lookup s (key v) \<noteq> None \<Longrightarrow> add v s = None"
    and del_some: "lookup s k \<noteq> None \<Longrightarrow> \<exists>t. del k s = Some t \<and> lookup t = (lookup s)(k := None)"
    and del_none: "lookup s k = None \<Longrightarrow> del k s = None"
begin

text \<open>Any sequence of additions and deletions; one that fails changes nothing.\<close>

fun play :: "('v + 'k) list \<Rightarrow> 's \<Rightarrow> 's" where
  "play [] s = s"
| "play (Inl v # ops) s = play ops (case add v s of Some t \<Rightarrow> t | None \<Rightarrow> s)"
| "play (Inr k # ops) s = play ops (case del k s of Some t \<Rightarrow> t | None \<Rightarrow> s)"

definition keyed :: "'s \<Rightarrow> bool" where
  "keyed s \<longleftrightarrow> (\<forall>k v. lookup s k = Some v \<longrightarrow> key v = k)"

lemma add_keeps: "lookup s k = Some v \<Longrightarrow> add w s = Some t \<Longrightarrow> lookup t k = Some v"
  using add_some [of s w] add_none [of s w] by (cases "lookup s (key w)") auto

lemma del_keeps: "lookup s k = Some v \<Longrightarrow> k \<noteq> k' \<Longrightarrow> del k' s = Some t \<Longrightarrow> lookup t k = Some v"
  using del_some [of s k'] del_none [of s k'] by (cases "lookup s k'") auto

lemma play_keeps:
  "lookup s k = Some v \<Longrightarrow> Inr k \<notin> set ops \<Longrightarrow> lookup (play ops s) k = Some v"
proof (induction ops s rule: play.induct)
  case (2 w ops s)
  then show ?case by (cases "add w s") (auto intro: add_keeps)
next
  case (3 k' ops s)
  then show ?case by (cases "del k' s") (auto dest: del_keeps)
qed simp

lemma keyed_add: "keyed s \<Longrightarrow> add v s = Some t \<Longrightarrow> keyed t"
  using add_some [of s v] add_none [of s v] unfolding keyed_def by (cases "lookup s (key v)") auto

lemma keyed_del: "keyed s \<Longrightarrow> del k s = Some t \<Longrightarrow> keyed t"
  using del_some [of s k] del_none [of s k] unfolding keyed_def by (cases "lookup s k") auto

lemma keyed_play: "keyed s \<Longrightarrow> keyed (play ops s)"
proof (induction ops s rule: play.induct)
  case (2 w ops s)
  then show ?case by (cases "add w s") (auto intro: keyed_add)
next
  case (3 k ops s)
  then show ?case by (cases "del k s") (auto intro: keyed_del)
qed simp

end

interpretation services: registry store_service delete_service bs_services sv_name
  by unfold_locales (auto simp: store_service_def delete_service_def)

interpretation reqs: object_pool get_request free_request "\<lambda>s. pool_ok (bs_reqs s)"
    "\<lambda>s. set (free_list (bs_reqs s))" "\<lambda>s. pl_n (bs_reqs s)" req_obj zero_request
proof unfold_locales
  fix s t :: basic_server and a assume "pool_ok (bs_reqs s)" "get_request s = (a, t)"
  then have "pool_ok (bs_reqs s)" "pool_get zero_request (bs_reqs s) = (a, bs_reqs t)"
    by (auto simp: get_request_def split: prod.splits)
  from pool_get_facts [OF this]
  show "pool_ok (bs_reqs t) \<and> a < pl_n (bs_reqs t) \<and> pl_n (bs_reqs s) \<le> pl_n (bs_reqs t) \<and>
      a \<notin> set (free_list (bs_reqs t)) \<and>
      set (free_list (bs_reqs t)) \<subseteq> set (free_list (bs_reqs s)) \<and>
      (a \<in> set (free_list (bs_reqs s)) \<or> pl_n (bs_reqs s) \<le> a) \<and>
      req_obj t = (req_obj s)(a := zero_request)"
    by (simp add: req_obj_def)
next
  fix s :: basic_server and a assume "pool_ok (bs_reqs s)" "a < pl_n (bs_reqs s)" "a \<notin> set (free_list (bs_reqs s))"
  from pool_put_ok [OF this] show "pool_ok (bs_reqs (free_request a s)) \<and>
      set (free_list (bs_reqs (free_request a s))) = insert a (set (free_list (bs_reqs s))) \<and>
      pl_n (bs_reqs (free_request a s)) = pl_n (bs_reqs s) \<and> req_obj (free_request a s) = req_obj s"
    by (simp add: free_request_def req_obj_def)
qed

interpretation resps: object_pool get_response free_response "\<lambda>s. pool_ok (bs_resps s)"
    "\<lambda>s. set (free_list (bs_resps s))" "\<lambda>s. pl_n (bs_resps s)" resp_obj zero_response
proof unfold_locales
  fix s t :: basic_server and a assume "pool_ok (bs_resps s)" "get_response s = (a, t)"
  then have "pool_ok (bs_resps s)" "pool_get zero_response (bs_resps s) = (a, bs_resps t)"
    by (auto simp: get_response_def split: prod.splits)
  from pool_get_facts [OF this]
  show "pool_ok (bs_resps t) \<and> a < pl_n (bs_resps t) \<and> pl_n (bs_resps s) \<le> pl_n (bs_resps t) \<and>
      a \<notin> set (free_list (bs_resps t)) \<and>
      set (free_list (bs_resps t)) \<subseteq> set (free_list (bs_resps s)) \<and>
      (a \<in> set (free_list (bs_resps s)) \<or> pl_n (bs_resps s) \<le> a) \<and>
      resp_obj t = (resp_obj s)(a := zero_response)"
    by (simp add: resp_obj_def)
next
  fix s :: basic_server and a assume "pool_ok (bs_resps s)" "a < pl_n (bs_resps s)" "a \<notin> set (free_list (bs_resps s))"
  from pool_put_ok [OF this] show "pool_ok (bs_resps (free_response a s)) \<and>
      set (free_list (bs_resps (free_response a s))) = insert a (set (free_list (bs_resps s))) \<and>
      pl_n (bs_resps (free_response a s)) = pl_n (bs_resps s) \<and> resp_obj (free_response a s) = resp_obj s"
    by (simp add: free_response_def resp_obj_def)
qed


section \<open>Lookups\<close>

text \<open>The services of a server stand under their own names.\<close>

lemma new_basic_server_services:
  "bs_services new_basic_server =
     [''_goRPC_'' \<mapsto> \<lparr>sv_name = ''_goRPC_'', sv_rcvr = VPtr (VStruct ''GoRPC'' []), sv_typ = gorpc_type,
        sv_methods = [''Cancel'' \<mapsto> method_entry gorpc_cancel_method]\<rparr>]"
  "bs_reqs new_basic_server = new_pool zero_request" "bs_resps new_basic_server = new_pool zero_response"
proof -
  have c: "check_method gorpc_cancel_method = Inr (method_entry gorpc_cancel_method)"
    by (simp add: check_method_Inr suitable_def gorpc_cancel_method_def is_exported_or_builtin_def
        cancel_args_type_def is_exported_def)
  have m: "suitable_methods True (gorpc_msets gorpc_type) = [''Cancel'' \<mapsto> method_entry gorpc_cancel_method]"
    by (simp add: suitable_methods_def gorpc_msets_def c) (simp add: gorpc_cancel_method_def)
  have "new_service gorpc_msets (Some (gorpc_type, VPtr (VStruct ''GoRPC'' []))) ''_goRPC_'' True =
    Ok \<lparr>sv_name = ''_goRPC_'', sv_rcvr = VPtr (VStruct ''GoRPC'' []), sv_typ = gorpc_type,
        sv_methods = [''Cancel'' \<mapsto> method_entry gorpc_cancel_method]\<rparr>"
    by (simp add: new_service_def service_name_def m)
  then have eq: "new_basic_server = empty_server\<lparr>bs_services :=
     [''_goRPC_'' \<mapsto> \<lparr>sv_name = ''_goRPC_'', sv_rcvr = VPtr (VStruct ''GoRPC'' []), sv_typ = gorpc_type,
        sv_methods = [''Cancel'' \<mapsto> method_entry gorpc_cancel_method]\<rparr>]\<rparr>"
    by (simp add: new_basic_server_def register_name_def register_def store_service_def empty_server_def)
  show "bs_services new_basic_server =
     [''_goRPC_'' \<mapsto> \<lparr>sv_name = ''_goRPC_'', sv_rcvr = VPtr (VStruct ''GoRPC'' []), sv_typ = gorpc_type,
        sv_methods = [''Cancel'' \<mapsto> method_entry gorpc_cancel_method]\<rparr>]"
    "bs_reqs new_basic_server = new_pool zero_request" "bs_resps new_basic_server = new_pool zero_response"
    by (simp_all add: eq empty_server_def)
qed

lemma new_basic_server_keyed: "services.keyed new_basic_server"
  by (simp add: services.keyed_def new_basic_server_services)

lemma register_Ok:
  "register msets rcvr name use_name s = Ok t \<Longrightarrow>
   \<exists>sv. store_service sv s = Some t \<and> bs_services s (sv_name sv) = None \<and>
     (rcvr = RService (Some sv) \<or> (\<exists>v. rcvr = RValue v \<and> new_service msets v name use_name = Ok sv))"
  by (auto simp: register_def store_service_def split: receiver.splits option.splits outcome.splits if_splits)

lemma get_service_eq:
  assumes "dot \<notin> set m"
  shows "get_service \<lparr>req_method = sname @ dot # m, req_seq = n\<rparr> s = Inr (sv, mt) \<longleftrightarrow>
    bs_services s sname = Some sv \<and> sv_methods sv m = Some mt"
  by (auto simp: get_service_def split_service_method_join [OF assms] split: option.splits)


section \<open>Properties\<close>

text \<open>
  C24: a service registered under a name is the one its clients reach, until that name is
  unregistered: after a successful registration, and whatever further registrations and
  unregistrations of other names follow, a request for one of its methods finds this service and this
  method, even when somebody else tries to register the name.
\<close>

theorem registered_service_keeps_its_name:
  assumes "register msets rcvr name use_name s = Ok t"
  shows "\<exists>sv. (rcvr = RService (Some sv) \<or>
      (\<exists>v. rcvr = RValue v \<and> new_service msets v name use_name = Ok sv)) \<and>
    (\<forall>m mt ops n. sv_methods sv m = Some mt \<longrightarrow> dot \<notin> set m \<longrightarrow> Inr (sv_name sv) \<notin> set ops \<longrightarrow>
       get_service \<lparr>req_method = sv_name sv @ dot # m, req_seq = n\<rparr> (services.play ops t) = Inr (sv, mt))"
proof -
  obtain sv where sv: "store_service sv s = Some t"
      "rcvr = RService (Some sv) \<or> (\<exists>v. rcvr = RValue v \<and> new_service msets v name use_name = Ok sv)"
    using register_Ok [OF assms] by blast
  then have "bs_services t (sv_name sv) = Some sv" by (auto simp: store_service_def split: if_splits)
  note found = services.play_keeps [OF this]
  show ?thesis using sv(2) by (intro exI [of _ sv]) (simp add: get_service_eq found)
qed

definition arith_service :: service where
  "arith_service =
     \<lparr>sv_name = ''Arith'', sv_rcvr = VPtr (VStruct ''Arith'' []), sv_typ = TPtr arith_type,
      sv_methods = [''Add'' \<mapsto> method_entry add_method]\<rparr>"

theorem registered_service_keeps_its_name_witness:
  "\<exists>t. register arith_meths (RService (Some arith_service)) [] False new_basic_server = Ok t \<and>
     get_service \<lparr>req_method = ''Arith.Add'', req_seq = 7\<rparr>
       (services.play [Inl (arith_service\<lparr>sv_rcvr := VNil\<rparr>), Inr ''Other''] t) =
     Inr (arith_service, method_entry add_method)"
proof -
  obtain t where t: "register arith_meths (RService (Some arith_service)) [] False new_basic_server = Ok t"
    by (simp add: register_def store_service_def arith_service_def new_basic_server_services)
  let ?ops = "[Inl (arith_service\<lparr>sv_rcvr := VNil\<rparr>), Inr ''Other'']"
  have "Inr (sv_name arith_service) \<notin> set ?ops"
    "sv_methods arith_service ''Add'' = Some (method_entry add_method)" "dot \<notin> set ''Add''"
    by (simp_all add: arith_service_def dot_def)
  with registered_service_keeps_its_name [OF t]
  have "get_service \<lparr>req_method = sv_name arith_service @ dot # ''Add'', req_seq = 7\<rparr>
      (services.play ?ops t) = Inr (arith_service, method_entry add_method)"
    by (metis option.inject receiver.distinct(1) receiver.inject(1))
  with t show ?thesis by (simp add: arith_service_def dot_def)
qed

text \<open>
  Calling a registered service in the process with \<open>Service.Call\<close> and looking the same name up
  for a remote request agree: on a server whose services were registered under their own names, a
  name the server resolves to this service makes \<open>Service.Call\<close> run the very same function, and
  one that it does not resolve to it makes \<open>Service.Call\<close> fail without running anything.
\<close>

theorem local_call_agrees_with_remote_lookup:
  assumes "services.keyed s" and "bs_services s (sv_name sv) = Some sv"
  shows "service_call invoke sv ctx sm args rply =
    (case get_service \<lparr>req_method = sm, req_seq = n\<rparr> s of
       Inr (sv', mt) \<Rightarrow>
         if sv' = sv then invoke (gm_func (mt_method mt)) (sv_rcvr sv) ctx args rply
         else Fail (lookup_error ''rpc: can't find service '' sm)
     | Inl e \<Rightarrow>
         Fail (if (\<exists>m. split_service_method sm = Some (sv_name sv, m)) \<or> split_service_method sm = None
               then e else lookup_error ''rpc: can't find service '' sm))"
proof (cases "split_service_method sm")
  case (Some x)
  obtain sn m where x: "x = (sn, m)" by (cases x)
  show ?thesis
  proof (cases "sn = sv_name sv")
    case True
    then show ?thesis using assms(2) Some x
      by (auto simp: service_call_def get_service_def split: option.splits)
  next
    case False
    then have "bs_services s sn \<noteq> Some sv" using assms(1) unfolding services.keyed_def by blast
    then show ?thesis using False Some x
      by (auto simp: service_call_def get_service_def split: option.splits)
  qed
qed (simp add: service_call_def get_service_def)

theorem local_call_agrees_with_remote_lookup_witness:
  "\<exists>sv. bs_services new_basic_server (sv_name sv) = Some sv \<and>
     service_call (\<lambda>g r c a y. Ok (None, VInt (int g))) sv background ''_goRPC_.Cancel'' VNil VNil = Ok (None, VInt 0)"
proof -
  let ?sv = "\<lparr>sv_name = ''_goRPC_'', sv_rcvr = VPtr (VStruct ''GoRPC'' []), sv_typ = gorpc_type,
        sv_methods = [''Cancel'' \<mapsto> method_entry gorpc_cancel_method]\<rparr>"
  have s: "bs_services new_basic_server (sv_name ?sv) = Some ?sv" by (simp add: new_basic_server_services)
  have "get_service \<lparr>req_method = ''_goRPC_.Cancel'', req_seq = 1\<rparr> new_basic_server =
      Inr (?sv, method_entry gorpc_cancel_method)"
    by (simp add: get_service_def split_service_method_def dot_def new_basic_server_services)
  then show ?thesis
    using local_call_agrees_with_remote_lookup [OF new_basic_server_keyed s,
        of "\<lambda>g r c a y. Ok (None, VInt (int g))" background "''_goRPC_.Cancel''" VNil VNil 1] s
    by (intro exI [of _ ?sv])
       (simp add: method_entry_def gorpc_cancel_method_def cancel_func_def)
qed

text \<open>
  A new server answers to \<open>_goRPC_.Cancel\<close>, whose argument is decoded as a \<open>*svc.CancelArgs\<close>,
  and to nothing else; a user's registration of \<open>_goRPC_\<close> is refused.
\<close>

theorem new_server_offers_only_cancel:
  "(\<exists>sv mt. get_service r new_basic_server = Inr (sv, mt)) = (req_method r = ''_goRPC_.Cancel'') \<and>
   (get_service r new_basic_server = Inr (sv, mt) \<longrightarrow>
      sv_name sv = ''_goRPC_'' \<and> gm_func (mt_method mt) = cancel_func \<and> mt_arg mt = cancel_args_type) \<and>
   store_service (user\<lparr>sv_name := ''_goRPC_''\<rparr>) new_basic_server = None"
proof -
  have split: "split_service_method sm = Some (''_goRPC_'', ''Cancel'') \<longleftrightarrow> sm = ''_goRPC_.Cancel''" for sm
    using split_service_method_Some [of sm "''_goRPC_''" "''Cancel''"]
      split_service_method_join [of "''Cancel''" "''_goRPC_''"] by (auto simp: dot_def)
  show ?thesis
    using split [of "req_method r"]
    by (auto simp: get_service_def new_basic_server_services store_service_def method_entry_def
        gorpc_cancel_method_def split: option.splits prod.splits if_splits)
qed

theorem new_server_offers_only_cancel_witness:
  "\<exists>sv mt. get_service \<lparr>req_method = ''_goRPC_.Cancel'', req_seq = 1\<rparr> new_basic_server = Inr (sv, mt) \<and>
     mt_arg mt = cancel_args_type"
proof -
  let ?r = "\<lparr>req_method = ''_goRPC_.Cancel'', req_seq = 1\<rparr>"
  obtain sv mt where "get_service ?r new_basic_server = Inr (sv, mt)"
    using new_server_offers_only_cancel [of ?r] by fastforce
  with new_server_offers_only_cancel [of ?r sv mt] show ?thesis by blast
qed

end
