(* ===== verification/Handlers.thy ===== *)
theory Handlers
  imports BasicServer
begin

text \<open>
  The requests a connection is serving: \<open>service.call\<close> of service.go, one goroutine per request,
  and \<open>sendResponse\<close> of basic_server.go, which the goroutine and the reading loop both run. A job is
  one such activity; its program counter moves through the critical sections of the source, so that
  jobs interleave where the mutexes let them. The loops that read requests (server.go,
  birpc_client.go) use the operations \<open>conn_get\<close> to \<open>conn_fail\<close> and are in theories of their own.

  Other connections of the same server share its free lists and registry: the objects they hold are
  \<open>cn_oreqs\<close> and \<open>cn_oresps\<close>, and the steps named \<open>env\<close> are theirs, or those of whoever ends the
  context the connection's requests hang below. \<open>j_head\<close>, \<open>j_result\<close>, \<open>cn_wire\<close>
  and \<open>cn_cancels\<close> are logs that no operation reads.
\<close>

section \<open>State\<close>

datatype job_kind =
    JCall service method_type goval   \<comment> \<open>\<open>service.call\<close> with its argument\<close>
  | JError                            \<comment> \<open>the loop's own error response\<close>

text \<open>
  \<open>service.call\<close>: before \<open>pending.Start\<close>; in the method, with the context made for it; in
  \<open>sendResponse\<close> before the response object is taken; waiting for \<open>sending\<close>; in \<open>WriteResponse\<close>; before
  \<open>freeResponse\<close>; before \<open>freeRequest\<close>; before the deferred calls; ended.
\<close>

datatype job_pc =
    JStart
  | JRun nat
  | JReply goval string
  | JReady nat goval
  | JWriting nat goval
  | JWritten nat
  | JReleased
  | JFreed
  | JDone

record job =
  j_kind :: job_kind
  j_req :: nat              \<comment> \<open>the request object\<close>
  j_defer :: u64            \<comment> \<open>the argument of the deferred \<open>pending.Cancel\<close>\<close>
  j_pc :: job_pc
  j_head :: request         \<comment> \<open>log: the header that was read\<close>
  j_result :: "(goval \<times> string) option" \<comment> \<open>log: the reply and error text to send\<close>

record conn =
  cn_server :: basic_server
  cn_store :: svc_store
  cn_pend :: nat
  cn_cur :: "nat option"    \<comment> \<open>the request object the reading loop holds\<close>
  cn_jobs :: "nat \<Rightarrow> job"
  cn_njobs :: nat
  cn_sending :: "nat option" \<comment> \<open>the job that holds \<open>sending\<close>\<close>
  cn_panic :: bool
  cn_oreqs :: "nat set"
  cn_oresps :: "nat set"
  cn_wire :: "(nat \<times> response \<times> goval) list" \<comment> \<open>log: calls of \<open>WriteResponse\<close>\<close>
  cn_cancels :: "u64 list"   \<comment> \<open>log: numbers given to \<open>GoRPC.Cancel\<close>\<close>

fun has_req :: "job_pc \<Rightarrow> bool" where
  "has_req JFreed = False"
| "has_req JDone = False"
| "has_req _ = True"

fun resp_of :: "job_pc \<Rightarrow> nat option" where
  "resp_of (JReady a b) = Some a"
| "resp_of (JWriting a b) = Some a"
| "resp_of (JWritten a) = Some a"
| "resp_of _ = None"

fun is_writing :: "job_pc \<Rightarrow> bool" where
  "is_writing (JWriting a b) = True"
| "is_writing _ = False"

fun has_answered :: "job_pc \<Rightarrow> bool" where
  "has_answered (JWritten a) = True"
| "has_answered JReleased = True"
| "has_answered JFreed = True"
| "has_answered JDone = True"
| "has_answered _ = False"

fun is_call :: "job_kind \<Rightarrow> bool" where
  "is_call (JCall sv mt v) = True"
| "is_call JError = False"

text \<open>Between \<open>pending.Start\<close> and the deferred \<open>pending.Cancel\<close>.\<close>

definition started :: "job \<Rightarrow> bool" where
  "started j \<longleftrightarrow> is_call (j_kind j) \<and> j_pc j \<noteq> JStart \<and> j_pc j \<noteq> JDone"

definition no_job :: job where
  "no_job = \<lparr>j_kind = JError, j_req = 0, j_defer = 0, j_pc = JDone, j_head = zero_request, j_result = None\<rparr>"


section \<open>The reading loop's operations\<close>

text \<open>\<open>getRequest\<close>, the codec storing a header, forgetting the object, and \<open>freeRequest\<close>.\<close>

definition conn_get :: "conn \<Rightarrow> conn option" where
  "conn_get c =
     (if cn_cur c = None
      then (case get_request (cn_server c) of
              (a, s) \<Rightarrow> Some (c\<lparr>cn_server := s, cn_cur := Some a\<rparr>))
      else None)"

definition conn_fill :: "request \<Rightarrow> conn \<Rightarrow> conn option" where
  "conn_fill r c =
     map_option (\<lambda>a. c\<lparr>cn_server := set_request a r (cn_server c)\<rparr>) (cn_cur c)"

definition conn_drop :: "conn \<Rightarrow> conn" where
  "conn_drop c = c\<lparr>cn_cur := None\<rparr>"

definition conn_free :: "conn \<Rightarrow> conn option" where
  "conn_free c =
     map_option (\<lambda>a. c\<lparr>cn_server := free_request a (cn_server c), cn_cur := None\<rparr>) (cn_cur c)"

definition add_job :: "job_kind \<Rightarrow> job_pc \<Rightarrow> (goval \<times> string) option \<Rightarrow> nat \<Rightarrow> conn \<Rightarrow> conn" where
  "add_job k pc res a c =
     c\<lparr>cn_jobs := (cn_jobs c)(cn_njobs c :=
          \<lparr>j_kind = k, j_req = a, j_defer = 0, j_pc = pc, j_head = req_obj (cn_server c) a, j_result = res\<rparr>),
       cn_njobs := Suc (cn_njobs c), cn_cur := None\<rparr>"

text \<open>\<open>go service.call(...)\<close>, and \<open>sendResponse\<close> with an error in the loop itself.\<close>

definition conn_spawn :: "service \<Rightarrow> method_type \<Rightarrow> goval \<Rightarrow> conn \<Rightarrow> conn option" where
  "conn_spawn sv mt v c =
     map_option (\<lambda>a. add_job (JCall sv mt (decoded_argv mt v)) JStart None a c) (cn_cur c)"

definition conn_fail :: "go_error \<Rightarrow> conn \<Rightarrow> conn option" where
  "conn_fail e c =
     map_option (\<lambda>a. add_job JError (JReply invalid_request (error_text e))
        (Some (invalid_request, error_text e)) a c) (cn_cur c)"


section \<open>A job's operations\<close>

definition set_pc :: "nat \<Rightarrow> job_pc \<Rightarrow> conn \<Rightarrow> conn" where
  "set_pc j pc c = c\<lparr>cn_jobs := (cn_jobs c)(j := (cn_jobs c j)\<lparr>j_pc := pc\<rparr>)\<rparr>"

definition job_start :: "nat \<Rightarrow> conn \<Rightarrow> conn option" where
  "job_start j c =
     (if j < cn_njobs c \<and> j_pc (cn_jobs c j) = JStart
      then
        (let n = req_seq (req_obj (cn_server c) (j_req (cn_jobs c j)));
             (ctx, st) = pend_start (cn_pend c) n (cn_store c);
             job = (cn_jobs c j)\<lparr>j_defer := n, j_pc := JRun (g_std ctx)\<rparr>
         in Some (c\<lparr>cn_store := st, cn_jobs := (cn_jobs c)(j := job)\<rparr>))
      else None)"

text \<open>
  The argument of \<open>GoRPC.Cancel\<close>; the type switch of \<open>service.call\<close> sets \<open>pending\<close> when the service
  is called \<open>_goRPC_\<close>.
\<close>

definition cancel_req_of :: "goval \<Rightarrow> cancel_req" where
  "cancel_req_of v =
     \<lparr>ca_seq = (case v of VPtr (VStruct s fs) \<Rightarrow>
                  (case map_of fs ''Seq'' of Some (VUint n) \<Rightarrow> n | _ \<Rightarrow> 0) | _ \<Rightarrow> 0),
      ca_pending = None\<rparr>"

definition call_cancel :: "service \<Rightarrow> goval \<Rightarrow> nat \<Rightarrow> svc_store \<Rightarrow> svc_store outcome" where
  "call_cancel sv argv p st =
     (let a = cancel_req_of argv
      in gorpc_cancel (if sv_name sv = ''_goRPC_'' then set_pending p a else a) st)"

text \<open>\<open>errmsg\<close>: empty for a nil error.\<close>

definition err_msg :: "go_error option \<Rightarrow> string" where
  "err_msg e = (case e of None \<Rightarrow> [] | Some err \<Rightarrow> error_text err)"

definition finish_method :: "nat \<Rightarrow> goval \<Rightarrow> go_error option \<Rightarrow> conn \<Rightarrow> conn" where
  "finish_method j reply e c =
     c\<lparr>cn_jobs := (cn_jobs c)
          (j := (cn_jobs c j)\<lparr>j_pc := JReply reply (err_msg e), j_result := Some (reply, err_msg e)\<rparr>)\<rparr>"

text \<open>
  \<open>function.Call\<close> returns: the internal \<open>Cancel\<close> does its work and leaves the reply alone; a user's
  method leaves \<open>reply\<close> behind the reply pointer and returns \<open>e\<close>.
\<close>

definition job_return :: "goval \<Rightarrow> go_error option \<Rightarrow> nat \<Rightarrow> conn \<Rightarrow> conn option" where
  "job_return reply e j c =
     (case (j < cn_njobs c, j_pc (cn_jobs c j), j_kind (cn_jobs c j)) of
        (True, JRun i, JCall sv mt argv) \<Rightarrow>
          if gm_func (mt_method mt) = cancel_func
          then (case call_cancel sv argv (cn_pend c) (cn_store c) of
                  Ok st \<Rightarrow> Some (finish_method j (get_replyv mt) None
                             (c\<lparr>cn_store := st,
                                cn_cancels := cn_cancels c @ [ca_seq (cancel_req_of argv)]\<rparr>))
                | _ \<Rightarrow> Some (c\<lparr>cn_panic := True\<rparr>))
          else Some (finish_method j reply e c)
      | _ \<Rightarrow> None)"

definition job_prepare :: "nat \<Rightarrow> conn \<Rightarrow> conn option" where
  "job_prepare j c =
     (case (j < cn_njobs c, j_pc (cn_jobs c j)) of
        (True, JReply reply msg) \<Rightarrow>
          (case prepare_response (j_req (cn_jobs c j)) reply msg (cn_server c) of
             (a, body, s) \<Rightarrow> Some (set_pc j (JReady a body) (c\<lparr>cn_server := s\<rparr>)))
      | _ \<Rightarrow> None)"

definition job_lock :: "nat \<Rightarrow> conn \<Rightarrow> conn option" where
  "job_lock j c =
     (case (j < cn_njobs c, j_pc (cn_jobs c j)) of
        (True, JReady a body) \<Rightarrow>
          if cn_sending c = None
          then Some (set_pc j (JWriting a body) (c\<lparr>cn_sending := Some j\<rparr>)) else None
      | _ \<Rightarrow> None)"

text \<open>\<open>WriteResponse\<close> returns, whatever its error (it is only logged), and \<open>sending\<close> is unlocked.\<close>

definition job_write :: "nat \<Rightarrow> conn \<Rightarrow> conn option" where
  "job_write j c =
     (case (j < cn_njobs c, j_pc (cn_jobs c j)) of
        (True, JWriting a body) \<Rightarrow>
          Some (set_pc j (JWritten a)
            (c\<lparr>cn_wire := cn_wire c @ [(j, resp_obj (cn_server c) a, body)], cn_sending := None\<rparr>))
      | _ \<Rightarrow> None)"

definition job_free_response :: "nat \<Rightarrow> conn \<Rightarrow> conn option" where
  "job_free_response j c =
     (case (j < cn_njobs c, j_pc (cn_jobs c j)) of
        (True, JWritten a) \<Rightarrow>
          Some (set_pc j JReleased (c\<lparr>cn_server := free_response a (cn_server c)\<rparr>))
      | _ \<Rightarrow> None)"

text \<open>\<open>freeRequest\<close>; the loop's own response is done then, a call has its deferred functions left.\<close>

definition job_free_request :: "nat \<Rightarrow> conn \<Rightarrow> conn option" where
  "job_free_request j c =
     (if j < cn_njobs c \<and> j_pc (cn_jobs c j) = JReleased
      then Some (set_pc j (if is_call (j_kind (cn_jobs c j)) then JFreed else JDone)
             (c\<lparr>cn_server := free_request (j_req (cn_jobs c j)) (cn_server c)\<rparr>))
      else None)"

definition job_finish :: "nat \<Rightarrow> conn \<Rightarrow> conn option" where
  "job_finish j c =
     (if j < cn_njobs c \<and> j_pc (cn_jobs c j) = JFreed
      then Some (set_pc j JDone
             (c\<lparr>cn_store := pend_cancel (cn_pend c) (j_defer (cn_jobs c j)) (cn_store c)\<rparr>))
      else None)"


section \<open>Steps\<close>

inductive conn_step :: "conn \<Rightarrow> conn \<Rightarrow> bool" where
  cs_get: "conn_get c = Some t \<Longrightarrow> conn_step c t"
| cs_fill: "conn_fill r c = Some t \<Longrightarrow> conn_step c t"
| cs_drop: "conn_step c (conn_drop c)"
| cs_free: "conn_free c = Some t \<Longrightarrow> conn_step c t"
| cs_spawn: "conn_spawn sv mt v c = Some t \<Longrightarrow> conn_step c t"
| cs_fail: "conn_fail e c = Some t \<Longrightarrow> conn_step c t"
| cs_start: "job_start j c = Some t \<Longrightarrow> conn_step c t"
| cs_return: "job_return r e j c = Some t \<Longrightarrow> conn_step c t"
| cs_prepare: "job_prepare j c = Some t \<Longrightarrow> conn_step c t"
| cs_lock: "job_lock j c = Some t \<Longrightarrow> conn_step c t"
| cs_write: "job_write j c = Some t \<Longrightarrow> conn_step c t"
| cs_free_response: "job_free_response j c = Some t \<Longrightarrow> conn_step c t"
| cs_free_request: "job_free_request j c = Some t \<Longrightarrow> conn_step c t"
| cs_finish: "job_finish j c = Some t \<Longrightarrow> conn_step c t"
| env_get_request: "get_request (cn_server c) = (a, s) \<Longrightarrow>
    conn_step c (c\<lparr>cn_server := s, cn_oreqs := insert a (cn_oreqs c)\<rparr>)"
| env_set_request: "a \<in> cn_oreqs c \<Longrightarrow>
    conn_step c (c\<lparr>cn_server := set_request a r (cn_server c)\<rparr>)"
| env_free_request: "a \<in> cn_oreqs c \<Longrightarrow>
    conn_step c (c\<lparr>cn_server := free_request a (cn_server c), cn_oreqs := cn_oreqs c - {a}\<rparr>)"
| env_get_response: "prepare_response q reply msg (cn_server c) = (a, b, s) \<Longrightarrow>
    conn_step c (c\<lparr>cn_server := s, cn_oresps := insert a (cn_oresps c)\<rparr>)"
| env_free_response: "a \<in> cn_oresps c \<Longrightarrow>
    conn_step c (c\<lparr>cn_server := free_response a (cn_server c), cn_oresps := cn_oresps c - {a}\<rparr>)"
| env_end_context: "below (ss_ctxs (cn_store c)) i (g_std (pd_parent (ss_pend (cn_store c) (cn_pend c)))) \<Longrightarrow>
    conn_step c (c\<lparr>cn_store := (cn_store c)\<lparr>ss_ctxs := std_cancel i e (ss_ctxs (cn_store c))\<rparr>\<rparr>)"
| env_services: "conn_step c (c\<lparr>cn_server := (cn_server c)\<lparr>bs_services := m\<rparr>\<rparr>)"

text \<open>
  A connection starts with a context \<open>ctx\<close> for its requests, on a server that may be serving others.
\<close>

definition new_conn :: "basic_server \<Rightarrow> nat set \<Rightarrow> nat set \<Rightarrow> gctx \<Rightarrow> svc_store \<Rightarrow> conn" where
  "new_conn s oreqs oresps ctx st =
     (case new_pending ctx st of (p, st') \<Rightarrow>
        \<lparr>cn_server = s, cn_store = st', cn_pend = p, cn_cur = None, cn_jobs = (\<lambda>_. no_job), cn_njobs = 0,
         cn_sending = None, cn_panic = False, cn_oreqs = oreqs, cn_oresps = oresps,
         cn_wire = [], cn_cancels = []\<rparr>)"

end
