(* ===== verification/HandlersInv.thy ===== *)
theory HandlersInv
  imports Handlers
begin

text \<open>
  Invariants of the jobs of a connection: the header objects are never shared, every job answers at
  most once and with its own number, and one \<open>WriteResponse\<close> runs at a time.
\<close>

section \<open>The operations by cases\<close>

lemma set_pc_simps [simp]:
  "cn_server (set_pc j pc c) = cn_server c" "cn_store (set_pc j pc c) = cn_store c"
  "cn_pend (set_pc j pc c) = cn_pend c" "cn_cur (set_pc j pc c) = cn_cur c"
  "cn_njobs (set_pc j pc c) = cn_njobs c" "cn_sending (set_pc j pc c) = cn_sending c"
  "cn_panic (set_pc j pc c) = cn_panic c" "cn_oreqs (set_pc j pc c) = cn_oreqs c"
  "cn_oresps (set_pc j pc c) = cn_oresps c" "cn_wire (set_pc j pc c) = cn_wire c"
  "cn_cancels (set_pc j pc c) = cn_cancels c"
  "cn_jobs (set_pc j pc c) = (cn_jobs c)(j := (cn_jobs c j)\<lparr>j_pc := pc\<rparr>)"
  by (simp_all add: set_pc_def)

lemma add_job_simps [simp]:
  "cn_server (add_job k pc res a c) = cn_server c" "cn_store (add_job k pc res a c) = cn_store c"
  "cn_pend (add_job k pc res a c) = cn_pend c" "cn_cur (add_job k pc res a c) = None"
  "cn_njobs (add_job k pc res a c) = Suc (cn_njobs c)" "cn_sending (add_job k pc res a c) = cn_sending c"
  "cn_oreqs (add_job k pc res a c) = cn_oreqs c" "cn_oresps (add_job k pc res a c) = cn_oresps c"
  "cn_wire (add_job k pc res a c) = cn_wire c" "cn_cancels (add_job k pc res a c) = cn_cancels c"
  "cn_panic (add_job k pc res a c) = cn_panic c"
  "cn_jobs (add_job k pc res a c) = (cn_jobs c)(cn_njobs c :=
     \<lparr>j_kind = k, j_req = a, j_defer = 0, j_pc = pc, j_head = req_obj (cn_server c) a, j_result = res\<rparr>)"
  by (simp_all add: add_job_def)

lemma finish_method_simps [simp]:
  "cn_server (finish_method j r e c) = cn_server c" "cn_store (finish_method j r e c) = cn_store c"
  "cn_pend (finish_method j r e c) = cn_pend c" "cn_cur (finish_method j r e c) = cn_cur c"
  "cn_njobs (finish_method j r e c) = cn_njobs c" "cn_sending (finish_method j r e c) = cn_sending c"
  "cn_oreqs (finish_method j r e c) = cn_oreqs c" "cn_oresps (finish_method j r e c) = cn_oresps c"
  "cn_wire (finish_method j r e c) = cn_wire c" "cn_cancels (finish_method j r e c) = cn_cancels c"
  "cn_panic (finish_method j r e c) = cn_panic c"
  "cn_jobs (finish_method j r e c) = (cn_jobs c)
     (j := (cn_jobs c j)\<lparr>j_pc := JReply r (err_msg e), j_result := Some (r, err_msg e)\<rparr>)"
  by (simp_all add: finish_method_def)

lemma job_startE:
  assumes "job_start j c = Some t"
  obtains n ctx st where "j < cn_njobs c" "j_pc (cn_jobs c j) = JStart"
    "n = req_seq (req_obj (cn_server c) (j_req (cn_jobs c j)))"
    "pend_start (cn_pend c) n (cn_store c) = (ctx, st)"
    "t = c\<lparr>cn_store := st, cn_jobs := (cn_jobs c)
       (j := (cn_jobs c j)\<lparr>j_defer := n, j_pc := JRun (g_std ctx)\<rparr>)\<rparr>"
  using assms by (auto simp: job_start_def Let_def split: if_splits prod.splits)

lemma cancel_req_no_pending [simp]: "ca_pending (cancel_req_of v) = None"
  by (simp add: cancel_req_of_def)

lemma job_returnE:
  assumes "job_return r e j c = Some t"
  obtains (cancel) i sv mt argv where "j < cn_njobs c" "j_pc (cn_jobs c j) = JRun i"
      "j_kind (cn_jobs c j) = JCall sv mt argv" "gm_func (mt_method mt) = cancel_func"
      "sv_name sv = ''_goRPC_''"
      "t = finish_method j (get_replyv mt) None
         (c\<lparr>cn_store := pend_cancel (cn_pend c) (ca_seq (cancel_req_of argv)) (cn_store c),
            cn_cancels := cn_cancels c @ [ca_seq (cancel_req_of argv)]\<rparr>)"
  | (panic) i sv mt argv where "j < cn_njobs c" "j_pc (cn_jobs c j) = JRun i"
      "j_kind (cn_jobs c j) = JCall sv mt argv" "gm_func (mt_method mt) = cancel_func"
      "sv_name sv \<noteq> ''_goRPC_''" "t = c\<lparr>cn_panic := True\<rparr>"
  | (user) i sv mt argv where "j < cn_njobs c" "j_pc (cn_jobs c j) = JRun i"
      "j_kind (cn_jobs c j) = JCall sv mt argv" "gm_func (mt_method mt) \<noteq> cancel_func"
      "t = finish_method j r e c"
  using assms
  unfolding job_return_def call_cancel_def gorpc_cancel_def Let_def
  by (auto simp: set_pending_def cancel_req_no_pending split: if_splits job_pc.splits job_kind.splits bool.splits)

lemma job_prepareE:
  assumes "job_prepare j c = Some t"
  obtains r m a body s where "j < cn_njobs c" "j_pc (cn_jobs c j) = JReply r m"
    "prepare_response (j_req (cn_jobs c j)) r m (cn_server c) = (a, body, s)"
    "t = set_pc j (JReady a body) (c\<lparr>cn_server := s\<rparr>)"
  using assms by (auto simp: job_prepare_def split: if_splits job_pc.splits prod.splits bool.splits)

lemma job_lockE:
  assumes "job_lock j c = Some t"
  obtains a body where "j < cn_njobs c" "j_pc (cn_jobs c j) = JReady a body" "cn_sending c = None"
    "t = set_pc j (JWriting a body) (c\<lparr>cn_sending := Some j\<rparr>)"
  using assms by (auto simp: job_lock_def split: if_splits job_pc.splits bool.splits)

lemma job_writeE:
  assumes "job_write j c = Some t"
  obtains a body where "j < cn_njobs c" "j_pc (cn_jobs c j) = JWriting a body"
    "t = set_pc j (JWritten a)
       (c\<lparr>cn_wire := cn_wire c @ [(j, resp_obj (cn_server c) a, body)], cn_sending := None\<rparr>)"
  using assms by (auto simp: job_write_def split: if_splits job_pc.splits bool.splits)

lemma job_free_responseE:
  assumes "job_free_response j c = Some t"
  obtains a where "j < cn_njobs c" "j_pc (cn_jobs c j) = JWritten a"
    "t = set_pc j JReleased (c\<lparr>cn_server := free_response a (cn_server c)\<rparr>)"
  using assms by (auto simp: job_free_response_def split: if_splits job_pc.splits bool.splits)

lemma job_free_requestE:
  assumes "job_free_request j c = Some t"
  obtains pc where "j < cn_njobs c" "j_pc (cn_jobs c j) = JReleased"
    "pc = (if is_call (j_kind (cn_jobs c j)) then JFreed else JDone)"
    "t = set_pc j pc (c\<lparr>cn_server := free_request (j_req (cn_jobs c j)) (cn_server c)\<rparr>)"
  using assms by (auto simp: job_free_request_def split: if_splits)

lemma job_finishE:
  assumes "job_finish j c = Some t"
  obtains "j < cn_njobs c" "j_pc (cn_jobs c j) = JFreed"
    "t = set_pc j JDone
       (c\<lparr>cn_store := pend_cancel (cn_pend c) (j_defer (cn_jobs c j)) (cn_store c)\<rparr>)"
  using assms by (auto simp: job_finish_def split: if_splits)

lemma conn_getE:
  assumes "conn_get c = Some t"
  obtains a s where "cn_cur c = None" "get_request (cn_server c) = (a, s)"
    "t = c\<lparr>cn_server := s, cn_cur := Some a\<rparr>"
  using assms by (auto simp: conn_get_def split: if_splits prod.splits)

lemma conn_fillE:
  assumes "conn_fill r c = Some t"
  obtains a where "cn_cur c = Some a" "t = c\<lparr>cn_server := set_request a r (cn_server c)\<rparr>"
  using assms by (auto simp: conn_fill_def)

lemma conn_freeE:
  assumes "conn_free c = Some t"
  obtains a where "cn_cur c = Some a" "t = c\<lparr>cn_server := free_request a (cn_server c), cn_cur := None\<rparr>"
  using assms by (auto simp: conn_free_def)

lemma conn_spawnE:
  assumes "conn_spawn sv mt v c = Some t"
  obtains a where "cn_cur c = Some a" "t = add_job (JCall sv mt (decoded_argv mt v)) JStart None a c"
  using assms by (auto simp: conn_spawn_def)

lemma conn_failE:
  assumes "conn_fail e c = Some t"
  obtains a where "cn_cur c = Some a"
    "t = add_job JError (JReply invalid_request (error_text e)) (Some (invalid_request, error_text e)) a c"
  using assms by (auto simp: conn_fail_def)

lemmas conn_elims = job_startE job_returnE job_prepareE job_lockE job_writeE job_free_responseE
  job_free_requestE job_finishE conn_getE conn_fillE conn_freeE conn_spawnE conn_failE


section \<open>What the server's operations touch\<close>

lemma get_request_frame:
  "get_request s = (a, t) \<Longrightarrow> bs_resps t = bs_resps s \<and> bs_services t = bs_services s"
  by (auto simp: get_request_def split: prod.splits)

lemma prepare_responseE:
  assumes "prepare_response q reply msg s = (a, body, t)"
  obtains s1 where "get_response s = (a, s1)" "bs_reqs s1 = bs_reqs s" "bs_services s1 = bs_services s"
    "body = (if msg \<noteq> [] then invalid_request else reply)"
    "t = s1\<lparr>bs_resps := pool_write a \<lparr>resp_seq = req_seq (req_obj s q),
        resp_error = (if msg \<noteq> [] then msg else resp_error (resp_obj s1 a))\<rparr> (bs_resps s1)\<rparr>"
  using assms
  by (auto simp: prepare_response_def get_response_def Let_def req_obj_def split: prod.splits)

lemma prepare_response_reqs: "prepare_response q reply msg s = (a, body, t) \<Longrightarrow> bs_reqs t = bs_reqs s"
  by (auto elim!: prepare_responseE)

lemma free_frames [simp]:
  "bs_resps (free_request a s) = bs_resps s" "bs_reqs (free_response a s) = bs_reqs s"
  "bs_resps (set_request a r s) = bs_resps s"
  by (simp_all add: free_request_def free_response_def set_request_def)

lemma safe_reqs_cong: "bs_reqs s = bs_reqs t \<Longrightarrow> reqs.safe s H = reqs.safe t H"
  by (simp add: reqs.safe_def)

lemma safe_resps_cong: "bs_resps s = bs_resps t \<Longrightarrow> resps.safe s H = resps.safe t H"
  by (simp add: resps.safe_def)

lemma safe_set_request [simp]: "reqs.safe (set_request a r s) H = reqs.safe s H"
  by (simp add: reqs.safe_def set_request_def)

lemma req_obj_set [simp]: "req_obj (set_request a r s) = (req_obj s)(a := r)"
  by (simp add: req_obj_def set_request_def)

lemma req_obj_cong: "bs_reqs s = bs_reqs t \<Longrightarrow> req_obj s = req_obj t"
  by (simp add: req_obj_def)

lemma resp_obj_cong: "bs_resps s = bs_resps t \<Longrightarrow> resp_obj s = resp_obj t"
  by (simp add: resp_obj_def)

lemma prepare_safe:
  assumes "resps.safe s H" "prepare_response q reply msg s = (a, body, t)"
  shows "a \<notin> H" "resps.safe t (insert a H)"
    "resp_obj t a = \<lparr>resp_seq = req_seq (req_obj s q), resp_error = msg\<rparr>"
    "\<And>b. b \<in> H \<Longrightarrow> resp_obj t b = resp_obj s b"
    "body = (if msg \<noteq> [] then invalid_request else reply)"
proof -
  from assms(2) obtain s1 where s1: "get_response s = (a, s1)"
    "body = (if msg \<noteq> [] then invalid_request else reply)"
    "t = s1\<lparr>bs_resps := pool_write a \<lparr>resp_seq = req_seq (req_obj s q),
        resp_error = (if msg \<noteq> [] then msg else resp_error (resp_obj s1 a))\<rparr> (bs_resps s1)\<rparr>"
    by (rule prepare_responseE)
  note g = resps.safe_get [OF assms(1) s1(1)]
  show a: "a \<notin> H" by (rule g(1))
  show "resps.safe t (insert a H)" using g(2) by (simp add: s1(3) resps.safe_def)
  show "resp_obj t a = \<lparr>resp_seq = req_seq (req_obj s q), resp_error = msg\<rparr>"
    using g(3) by (simp add: s1(3) resp_obj_def zero_response_def)
  show "resp_obj t b = resp_obj s b" if "b \<in> H" for b
    using g(4) [OF that] a that by (auto simp: s1(3) resp_obj_def)
qed (use assms(2) in \<open>auto elim!: prepare_responseE\<close>)


section \<open>Request objects are not shared\<close>

text \<open>The request objects in use: those of other connections, of the jobs and of the loop.\<close>

definition req_users :: "conn \<Rightarrow> nat set" where
  "req_users c = cn_oreqs c \<union>
     {j_req (cn_jobs c j) |j. j < cn_njobs c \<and> has_req (j_pc (cn_jobs c j))} \<union> set_option (cn_cur c)"

definition inv_reqs :: "conn \<Rightarrow> bool" where
  "inv_reqs c \<longleftrightarrow> reqs.safe (cn_server c) (req_users c) \<and>
     (\<forall>a. cn_cur c = Some a \<longrightarrow> a \<notin> cn_oreqs c) \<and>
     (\<forall>j < cn_njobs c. has_req (j_pc (cn_jobs c j)) \<longrightarrow>
        j_req (cn_jobs c j) \<notin> cn_oreqs c \<and> cn_cur c \<noteq> Some (j_req (cn_jobs c j)) \<and>
        req_obj (cn_server c) (j_req (cn_jobs c j)) = j_head (cn_jobs c j) \<and>
        (\<forall>k < cn_njobs c. has_req (j_pc (cn_jobs c k)) \<longrightarrow> j_req (cn_jobs c k) = j_req (cn_jobs c j) \<longrightarrow> k = j))"

lemma inv_reqsD:
  assumes "inv_reqs c"
  shows inv_reqs_safe: "reqs.safe (cn_server c) (req_users c)"
    and inv_reqs_cur: "cn_cur c = Some a \<Longrightarrow> a \<notin> cn_oreqs c"
    and inv_reqs_job: "j < cn_njobs c \<Longrightarrow> has_req (j_pc (cn_jobs c j)) \<Longrightarrow>
      j_req (cn_jobs c j) \<notin> cn_oreqs c \<and> cn_cur c \<noteq> Some (j_req (cn_jobs c j)) \<and>
      req_obj (cn_server c) (j_req (cn_jobs c j)) = j_head (cn_jobs c j)"
    and inv_reqs_inj: "j < cn_njobs c \<Longrightarrow> has_req (j_pc (cn_jobs c j)) \<Longrightarrow> k < cn_njobs c \<Longrightarrow>
      has_req (j_pc (cn_jobs c k)) \<Longrightarrow> j_req (cn_jobs c k) = j_req (cn_jobs c j) \<Longrightarrow> k = j"
  using assms unfolding inv_reqs_def by blast+

lemma req_usersI:
  "a \<in> cn_oreqs c \<Longrightarrow> a \<in> req_users c"
  "j < cn_njobs c \<Longrightarrow> has_req (j_pc (cn_jobs c j)) \<Longrightarrow> j_req (cn_jobs c j) \<in> req_users c"
  "cn_cur c = Some a \<Longrightarrow> a \<in> req_users c"
  by (auto simp: req_users_def)

lemma held_minus:
  assumes "\<And>k. P' k \<longleftrightarrow> P k \<and> k \<noteq> j" "\<And>k. P k \<Longrightarrow> f k = f j \<Longrightarrow> k = j"
    "\<And>k. k \<noteq> j \<Longrightarrow> f' k = f k"
  shows "{f' k |k. P' k} = {f k |k. P k} - {f j}"
proof (intro set_eqI iffI)
  fix x assume "x \<in> {f' k |k. P' k}"
  then obtain k where "x = f' k" "P k" "k \<noteq> j" using assms(1) by blast
  then have "x = f k" "P k" "f k \<noteq> f j" using assms(2,3) by metis+
  then show "x \<in> {f k |k. P k} - {f j}" by auto
next
  fix x assume "x \<in> {f k |k. P k} - {f j}"
  then obtain k where "x = f k" "P k" "k \<noteq> j" by blast
  then have "x = f' k" "P' k" using assms(1,3) by metis+
  then show "x \<in> {f' k |k. P' k}" by blast
qed

lemma held_add:
  fixes n :: nat
  assumes "\<And>k. k < n \<Longrightarrow> f' k = f k \<and> (P' k \<longleftrightarrow> P k)" "P' n" "f' n = a"
  shows "{f' k |k. k < Suc n \<and> P' k} = insert a {f k |k. k < n \<and> P k}"
proof (intro set_eqI iffI)
  fix x assume "x \<in> {f' k |k. k < Suc n \<and> P' k}"
  then obtain k where k: "x = f' k" "k < Suc n" "P' k" by blast
  show "x \<in> insert a {f k |k. k < n \<and> P k}"
  proof (cases "k = n")
    case False
    with k(2) have "k < n" by simp
    with assms(1) [OF this] k show ?thesis by auto
  qed (use k assms(3) in simp)
next
  fix x assume "x \<in> insert a {f k |k. k < n \<and> P k}"
  then consider "x = a" | k where "x = f k" "k < n" "P k" by blast
  then show "x \<in> {f' k |k. k < Suc n \<and> P' k}"
  proof cases
    case (2 k)
    with assms(1) [OF this(2)] show ?thesis by (auto intro!: exI [of _ k])
  qed (use assms(2,3) in blast)
qed

lemma req_users_add_job:
  assumes "cn_cur c = Some a" "has_req pc"
  shows "req_users (add_job k pc res a c) = req_users c"
proof -
  let ?d = "add_job k pc res a c"
  have "{j_req (cn_jobs ?d j) |j. j < cn_njobs ?d \<and> has_req (j_pc (cn_jobs ?d j))} =
      insert a {j_req (cn_jobs c j) |j. j < cn_njobs c \<and> has_req (j_pc (cn_jobs c j))}"
    unfolding add_job_simps by (rule held_add) (use assms(2) in auto)
  then show ?thesis using assms(1) by (simp add: req_users_def)
qed

text \<open>Steps that leave the request objects and their holders alone.\<close>

lemma inv_reqs_frame:
  assumes "inv_reqs c" "bs_reqs (cn_server t) = bs_reqs (cn_server c)"
    "cn_oreqs t = cn_oreqs c" "cn_cur t = cn_cur c" "cn_njobs t = cn_njobs c"
    "\<And>j. j < cn_njobs c \<Longrightarrow> j_req (cn_jobs t j) = j_req (cn_jobs c j) \<and>
      j_head (cn_jobs t j) = j_head (cn_jobs c j) \<and>
      has_req (j_pc (cn_jobs t j)) = has_req (j_pc (cn_jobs c j))"
  shows "inv_reqs t"
proof -
  have "req_users t = req_users c"
    unfolding req_users_def using assms(3-6) by (intro arg_cong2 [of _ _ _ _ "(\<union>)"]) (auto, metis+)
  then show ?thesis
    using assms(1,3-6) safe_reqs_cong [OF assms(2)] req_obj_cong [OF assms(2)]
    unfolding inv_reqs_def by auto
qed

lemma inv_reqs_return:
  assumes cs_return: "job_return r e j c = Some t" "inv_reqs c"
  shows "inv_reqs t"
proof -
  have f: "inv_reqs (finish_method j r e d)" if "j_pc (cn_jobs d j) = JRun i" "inv_reqs d" for r e d i
    using that(1) by (intro inv_reqs_frame [OF that(2)]) (auto split: if_splits)
  from cs_return(1) show ?thesis
  proof (cases rule: job_returnE)
    case (cancel i sv mt argv)
    let ?d = "c\<lparr>cn_store := pend_cancel (cn_pend c) (ca_seq (cancel_req_of argv)) (cn_store c),
            cn_cancels := cn_cancels c @ [ca_seq (cancel_req_of argv)]\<rparr>"
    have "inv_reqs ?d" by (rule inv_reqs_frame [OF \<open>inv_reqs c\<close>]) auto
    with f [of ?d i] cancel show ?thesis by simp
  next
    case (panic i sv mt argv)
    then show ?thesis by (auto intro: inv_reqs_frame [OF \<open>inv_reqs c\<close>])
  next
    case (user i sv mt argv)
    with f [of c] \<open>inv_reqs c\<close> show ?thesis by simp
  qed
qed

lemma inv_reqs_get:
  assumes cs_get: "conn_get c = Some t" "inv_reqs c"
  shows "inv_reqs t"
proof -
  note I = \<open>inv_reqs c\<close>
  from cs_get(1) obtain a s where a: "cn_cur c = None" "get_request (cn_server c) = (a, s)"
    "t = c\<lparr>cn_server := s, cn_cur := Some a\<rparr>" by (rule conn_getE)
  note g = reqs.safe_get [OF inv_reqs_safe [OF I] a(2)]
  have "req_users t = insert a (req_users c)" using a by (auto simp: req_users_def)
  then show ?thesis
    using a g inv_reqs_job [OF I] inv_reqs_inj [OF I] req_usersI [where c = c]
    unfolding inv_reqs_def by auto
qed

lemma inv_reqs_fill:
  assumes cs_fill: "conn_fill r c = Some t" "inv_reqs c"
  shows "inv_reqs t"
proof -
  note I = \<open>inv_reqs c\<close>
  from cs_fill(1) obtain a where a: "cn_cur c = Some a" "t = c\<lparr>cn_server := set_request a r (cn_server c)\<rparr>"
    by (rule conn_fillE)
  have "req_users t = req_users c" using a by (auto simp: req_users_def)
  then show ?thesis
    using a inv_reqs_safe [OF I] inv_reqs_cur [OF I] inv_reqs_job [OF I] inv_reqs_inj [OF I]
    unfolding inv_reqs_def by auto
qed

lemma inv_reqs_free:
  assumes cs_free: "conn_free c = Some t" "inv_reqs c"
  shows "inv_reqs t"
proof -
  note I = \<open>inv_reqs c\<close>
  from cs_free(1) obtain a where a: "cn_cur c = Some a"
    "t = c\<lparr>cn_server := free_request a (cn_server c), cn_cur := None\<rparr>" by (rule conn_freeE)
  note p = reqs.safe_put [OF inv_reqs_safe [OF I] req_usersI(3) [of c, OF a(1)]]
  have "req_users t = req_users c - {a}"
    using a inv_reqs_cur [OF I] inv_reqs_job [OF I] by (auto simp: req_users_def)
  then show ?thesis
    using a p inv_reqs_job [OF I] inv_reqs_inj [OF I] unfolding inv_reqs_def by auto
qed

lemma inv_reqs_spawn:
  assumes cs_spawn: "conn_spawn sv mt v c = Some t" "inv_reqs c"
  shows "inv_reqs t"
proof -
  note I = \<open>inv_reqs c\<close>
  from cs_spawn(1) obtain a where a: "cn_cur c = Some a"
    "t = add_job (JCall sv mt (decoded_argv mt v)) JStart None a c" by (rule conn_spawnE)
  have "req_users t = req_users c" unfolding a(2) by (rule req_users_add_job [OF a(1)]) simp
  then show ?thesis
    using a inv_reqs_safe [OF I] inv_reqs_cur [OF I] inv_reqs_job [OF I] inv_reqs_inj [OF I]
    unfolding inv_reqs_def by (auto simp: less_Suc_eq)
qed

lemma inv_reqs_fail:
  assumes cs_fail: "conn_fail e c = Some t" "inv_reqs c"
  shows "inv_reqs t"
proof -
  note I = \<open>inv_reqs c\<close>
  from cs_fail(1) obtain a where a: "cn_cur c = Some a"
    "t = add_job JError (JReply invalid_request (error_text e)) (Some (invalid_request, error_text e)) a c"
    by (rule conn_failE)
  have "req_users t = req_users c" unfolding a(2) by (rule req_users_add_job [OF a(1)]) simp
  then show ?thesis
    using a inv_reqs_safe [OF I] inv_reqs_cur [OF I] inv_reqs_job [OF I] inv_reqs_inj [OF I]
    unfolding inv_reqs_def by (auto simp: less_Suc_eq)
qed

lemma inv_reqs_free_request:
  assumes cs_free_request: "job_free_request j c = Some t" "inv_reqs c"
  shows "inv_reqs t"
proof -
  note I = \<open>inv_reqs c\<close>
  from cs_free_request(1) obtain pc where t: "j < cn_njobs c" "j_pc (cn_jobs c j) = JReleased"
    "pc = (if is_call (j_kind (cn_jobs c j)) then JFreed else JDone)"
    "t = set_pc j pc (c\<lparr>cn_server := free_request (j_req (cn_jobs c j)) (cn_server c)\<rparr>)"
    by (rule job_free_requestE)
  have h: "has_req (j_pc (cn_jobs c j))" "\<not> has_req pc" using t(2,3) by simp_all
  note p = reqs.safe_put [OF inv_reqs_safe [OF I] req_usersI(2) [OF t(1) h(1)]]
  have "req_users t = req_users c - {j_req (cn_jobs c j)}"
  proof -
    have "{j_req (cn_jobs t k) |k. k < cn_njobs t \<and> has_req (j_pc (cn_jobs t k))} =
        {j_req (cn_jobs c k) |k. k < cn_njobs c \<and> has_req (j_pc (cn_jobs c k))} - {j_req (cn_jobs c j)}"
      by (rule held_minus) (use t(4) h(2) inv_reqs_inj [OF I t(1) h(1)] in \<open>auto split: if_splits\<close>)
    then show ?thesis
      using t(4) inv_reqs_job [OF I t(1) h(1)] by (auto simp: req_users_def)
  qed
  then show ?thesis
    using t(4) h p inv_reqs_cur [OF I] inv_reqs_job [OF I] inv_reqs_inj [OF I] unfolding inv_reqs_def by auto
qed

lemma inv_reqs_get_request:
  assumes env_get_request: "get_request (cn_server c) = (a, s)" "inv_reqs c"
  shows "inv_reqs (c\<lparr>cn_server := s, cn_oreqs := insert a (cn_oreqs c)\<rparr>)"
proof -
  note I = \<open>inv_reqs c\<close>
  note g = reqs.safe_get [OF inv_reqs_safe [OF I] env_get_request(1)]
  have "req_users (c\<lparr>cn_server := s, cn_oreqs := insert a (cn_oreqs c)\<rparr>) = insert a (req_users c)"
    by (auto simp: req_users_def)
  then show ?thesis
    using g inv_reqs_cur [OF I] inv_reqs_job [OF I] inv_reqs_inj [OF I] req_usersI [where c = c]
    unfolding inv_reqs_def by auto
qed

lemma inv_reqs_set_request:
  assumes env_set_request: "a \<in> cn_oreqs c" "inv_reqs c"
  shows "inv_reqs (c\<lparr>cn_server := set_request a r (cn_server c)\<rparr>)"
proof -
  note I = \<open>inv_reqs c\<close>
  have "req_users (c\<lparr>cn_server := set_request a r (cn_server c)\<rparr>) = req_users c"
    by (simp add: req_users_def)
  then show ?thesis
    using env_set_request(1) inv_reqs_safe [OF I] inv_reqs_cur [OF I] inv_reqs_job [OF I] inv_reqs_inj [OF I]
    unfolding inv_reqs_def by auto
qed

lemma inv_reqs_others_free:
  assumes env_free_request: "a \<in> cn_oreqs c" "inv_reqs c"
  shows "inv_reqs (c\<lparr>cn_server := free_request a (cn_server c), cn_oreqs := cn_oreqs c - {a}\<rparr>)"
proof -
  note I = \<open>inv_reqs c\<close>
  note p = reqs.safe_put [OF inv_reqs_safe [OF I] req_usersI(1) [OF env_free_request(1)]]
  have "req_users (c\<lparr>cn_server := free_request a (cn_server c), cn_oreqs := cn_oreqs c - {a}\<rparr>) = req_users c - {a}"
    using env_free_request(1) inv_reqs_cur [OF I] inv_reqs_job [OF I] by (auto simp: req_users_def)
  then show ?thesis
    using p inv_reqs_cur [OF I] inv_reqs_job [OF I] inv_reqs_inj [OF I] unfolding inv_reqs_def by auto
qed

lemma inv_reqs_step: "conn_step c t \<Longrightarrow> inv_reqs c \<Longrightarrow> inv_reqs t"
proof (induction rule: conn_step.induct)
  case (cs_start j c t)
  then show ?case
    by (auto elim!: job_startE intro!: inv_reqs_frame [OF \<open>inv_reqs c\<close>] split: if_splits)
next
  case (cs_return r e j c t)
  then show ?case by (rule inv_reqs_return)
next
  case (cs_prepare j c t)
  then show ?case
    by (auto elim!: job_prepareE dest: prepare_response_reqs intro!: inv_reqs_frame [OF \<open>inv_reqs c\<close>] split: if_splits)
next
  case (cs_lock j c t)
  then show ?case by (auto elim!: job_lockE intro!: inv_reqs_frame [OF \<open>inv_reqs c\<close>] split: if_splits)
next
  case (cs_write j c t)
  then show ?case by (auto elim!: job_writeE intro!: inv_reqs_frame [OF \<open>inv_reqs c\<close>] split: if_splits)
next
  case (cs_free_response j c t)
  then show ?case by (auto elim!: job_free_responseE intro!: inv_reqs_frame [OF \<open>inv_reqs c\<close>] split: if_splits)
next
  case (cs_finish j c t)
  then show ?case by (auto elim!: job_finishE intro!: inv_reqs_frame [OF \<open>inv_reqs c\<close>] split: if_splits)
next
  case (env_get_response q reply msg c a b s)
  then show ?case
    by (auto dest: prepare_response_reqs intro!: inv_reqs_frame [OF \<open>inv_reqs c\<close>] split: if_splits)
next
  case (env_free_response a c)
  then show ?case by (auto intro!: inv_reqs_frame [OF \<open>inv_reqs c\<close>] split: if_splits)
next
  case (env_end_context c i e)
  then show ?case by (auto intro!: inv_reqs_frame [OF \<open>inv_reqs c\<close>])
next
  case (env_services c m)
  then show ?case by (auto intro!: inv_reqs_frame [OF \<open>inv_reqs c\<close>] split: if_splits)
next
  case (cs_get c t)
  then show ?case by (rule inv_reqs_get)
next
  case (cs_fill r c t)
  then show ?case by (rule inv_reqs_fill)
next
  case (cs_drop c)
  note I = \<open>inv_reqs c\<close>
  have "req_users (conn_drop c) \<subseteq> req_users c" by (auto simp: req_users_def conn_drop_def)
  then show ?case
    using reqs.safe_subset [OF inv_reqs_safe [OF I]] inv_reqs_job [OF I] inv_reqs_inj [OF I]
    unfolding inv_reqs_def by (auto simp: conn_drop_def)
next
  case (cs_free c t)
  then show ?case by (rule inv_reqs_free)
next
  case (cs_spawn sv mt v c t)
  then show ?case by (rule inv_reqs_spawn)
next
  case (cs_fail e c t)
  then show ?case by (rule inv_reqs_fail)
next
  case (cs_free_request j c t)
  then show ?case by (rule inv_reqs_free_request)
next
  case (env_get_request c a s)
  then show ?case by (rule inv_reqs_get_request)
next
  case (env_set_request a c r)
  then show ?case by (rule inv_reqs_set_request)
next
  case (env_free_request a c)
  then show ?case by (rule inv_reqs_others_free)
qed


section \<open>Answers\<close>

fun reply_of :: "job_pc \<Rightarrow> (goval \<times> string) option" where
  "reply_of (JReply r m) = Some (r, m)"
| "reply_of _ = None"

fun ready_of :: "job_pc \<Rightarrow> (nat \<times> goval) option" where
  "ready_of (JReady a b) = Some (a, b)"
| "ready_of (JWriting a b) = Some (a, b)"
| "ready_of _ = None"

lemma ready_resp: "ready_of pc = Some (a, b) \<Longrightarrow> resp_of pc = Some a"
  by (cases pc) auto

text \<open>The response a job owes: the number of its header, and the reply unless there is an error.\<close>

definition answer :: "job \<Rightarrow> (response \<times> goval) option" where
  "answer job =
     (case j_result job of
        None \<Rightarrow> None
      | Some (r, m) \<Rightarrow>
          Some (\<lparr>resp_seq = req_seq (j_head job), resp_error = m\<rparr>,
                if m \<noteq> [] then invalid_request else r))"

definition resp_users :: "conn \<Rightarrow> nat set" where
  "resp_users c = cn_oresps c \<union>
     {a. \<exists>j < cn_njobs c. resp_of (j_pc (cn_jobs c j)) = Some a}"

definition inv_resps :: "conn \<Rightarrow> bool" where
  "inv_resps c \<longleftrightarrow> resps.safe (cn_server c) (resp_users c) \<and>
     (\<forall>j < cn_njobs c. \<forall>a. resp_of (j_pc (cn_jobs c j)) = Some a \<longrightarrow> a \<notin> cn_oresps c \<and>
        (\<forall>k < cn_njobs c. resp_of (j_pc (cn_jobs c k)) = Some a \<longrightarrow> k = j))"

definition inv_answer :: "conn \<Rightarrow> bool" where
  "inv_answer c \<longleftrightarrow>
     (\<forall>j < cn_njobs c. \<forall>x. reply_of (j_pc (cn_jobs c j)) = Some x \<longrightarrow> j_result (cn_jobs c j) = Some x) \<and>
     (\<forall>j < cn_njobs c. \<forall>a b. ready_of (j_pc (cn_jobs c j)) = Some (a, b) \<longrightarrow>
        answer (cn_jobs c j) = Some (resp_obj (cn_server c) a, b))"

definition inv_once_wire :: "conn \<Rightarrow> bool" where
  "inv_once_wire c \<longleftrightarrow> distinct (map fst (cn_wire c)) \<and>
     (\<forall>j < cn_njobs c. has_answered (j_pc (cn_jobs c j)) \<longrightarrow> j \<in> fst ` set (cn_wire c)) \<and>
     (\<forall>x \<in> set (cn_wire c). fst x < cn_njobs c \<and> has_answered (j_pc (cn_jobs c (fst x))) \<and>
        answer (cn_jobs c (fst x)) = Some (snd x)) \<and>
     (\<forall>j. cn_sending c = Some j \<longleftrightarrow> j < cn_njobs c \<and> is_writing (j_pc (cn_jobs c j)))"

lemma inv_respsD:
  assumes "inv_resps c"
  shows inv_resps_safe: "resps.safe (cn_server c) (resp_users c)"
    and inv_resps_job: "j < cn_njobs c \<Longrightarrow> resp_of (j_pc (cn_jobs c j)) = Some a \<Longrightarrow> a \<notin> cn_oresps c"
    and inv_resps_inj: "j < cn_njobs c \<Longrightarrow> resp_of (j_pc (cn_jobs c j)) = Some a \<Longrightarrow>
      k < cn_njobs c \<Longrightarrow> resp_of (j_pc (cn_jobs c k)) = Some a \<Longrightarrow> k = j"
  using assms unfolding inv_resps_def by blast+

lemma inv_answerD:
  assumes "inv_answer c"
  shows inv_answer_reply: "j < cn_njobs c \<Longrightarrow> reply_of (j_pc (cn_jobs c j)) = Some x \<Longrightarrow>
      j_result (cn_jobs c j) = Some x"
    and inv_answer_ready: "j < cn_njobs c \<Longrightarrow> ready_of (j_pc (cn_jobs c j)) = Some (a, b) \<Longrightarrow>
      answer (cn_jobs c j) = Some (resp_obj (cn_server c) a, b)"
  using assms unfolding inv_answer_def by blast+

lemma inv_once_wireD:
  assumes "inv_once_wire c"
  shows inv_wire_distinct: "distinct (map fst (cn_wire c))"
    and inv_wire_answered: "j < cn_njobs c \<Longrightarrow> has_answered (j_pc (cn_jobs c j)) \<Longrightarrow> j \<in> fst ` set (cn_wire c)"
    and inv_wire_entry: "x \<in> set (cn_wire c) \<Longrightarrow> fst x < cn_njobs c \<and>
      has_answered (j_pc (cn_jobs c (fst x))) \<and> answer (cn_jobs c (fst x)) = Some (snd x)"
    and inv_wire_sending: "cn_sending c = Some j \<longleftrightarrow> j < cn_njobs c \<and> is_writing (j_pc (cn_jobs c j))"
  using assms unfolding inv_once_wire_def by blast+

lemma resp_usersI:
  "a \<in> cn_oresps c \<Longrightarrow> a \<in> resp_users c"
  "j < cn_njobs c \<Longrightarrow> resp_of (j_pc (cn_jobs c j)) = Some a \<Longrightarrow> a \<in> resp_users c"
  by (auto simp: resp_users_def)

text \<open>Steps that change no job's place in \<open>sendResponse\<close>.\<close>

definition same_sends :: "conn \<Rightarrow> conn \<Rightarrow> bool" where
  "same_sends c t \<longleftrightarrow> bs_resps (cn_server t) = bs_resps (cn_server c) \<and> cn_oresps t = cn_oresps c \<and>
     cn_njobs t = cn_njobs c \<and> cn_sending t = cn_sending c \<and> cn_wire t = cn_wire c \<and>
     (\<forall>j < cn_njobs c. j_head (cn_jobs t j) = j_head (cn_jobs c j) \<and>
        j_result (cn_jobs t j) = j_result (cn_jobs c j) \<and>
        resp_of (j_pc (cn_jobs t j)) = resp_of (j_pc (cn_jobs c j)) \<and>
        ready_of (j_pc (cn_jobs t j)) = ready_of (j_pc (cn_jobs c j)) \<and>
        reply_of (j_pc (cn_jobs t j)) = reply_of (j_pc (cn_jobs c j)) \<and>
        has_answered (j_pc (cn_jobs t j)) = has_answered (j_pc (cn_jobs c j)) \<and>
        is_writing (j_pc (cn_jobs t j)) = is_writing (j_pc (cn_jobs c j)))"

lemma answer_cong: "j_head a = j_head b \<Longrightarrow> j_result a = j_result b \<Longrightarrow> answer a = answer b"
  by (simp add: answer_def cong: option.case_cong)

lemma same_sends_inv:
  assumes "same_sends c t"
  shows "inv_resps c \<Longrightarrow> inv_resps t" and "inv_answer c \<Longrightarrow> inv_answer t"
    and "inv_once_wire c \<Longrightarrow> inv_once_wire t"
proof -
  have b: "bs_resps (cn_server t) = bs_resps (cn_server c)"
    and e: "cn_oresps t = cn_oresps c" "cn_njobs t = cn_njobs c" "cn_sending t = cn_sending c"
      "cn_wire t = cn_wire c"
    using assms by (simp_all add: same_sends_def)
  have j: "resp_of (j_pc (cn_jobs t j)) = resp_of (j_pc (cn_jobs c j))"
    "ready_of (j_pc (cn_jobs t j)) = ready_of (j_pc (cn_jobs c j))"
    "reply_of (j_pc (cn_jobs t j)) = reply_of (j_pc (cn_jobs c j))"
    "has_answered (j_pc (cn_jobs t j)) = has_answered (j_pc (cn_jobs c j))"
    "is_writing (j_pc (cn_jobs t j)) = is_writing (j_pc (cn_jobs c j))"
    "j_result (cn_jobs t j) = j_result (cn_jobs c j)"
    "answer (cn_jobs t j) = answer (cn_jobs c j)" if "j < cn_njobs c" for j
    using that assms answer_cong [of "cn_jobs t j" "cn_jobs c j"] unfolding same_sends_def by blast+
  have u: "resp_users t = resp_users c" using e j by (auto simp: resp_users_def)
  have "inv_resps t = inv_resps c"
    by (simp add: inv_resps_def u e j safe_resps_cong [OF b] cong: conj_cong)
  then show "inv_resps c \<Longrightarrow> inv_resps t" by simp
  have "inv_answer t = inv_answer c"
    by (simp add: inv_answer_def e j resp_obj_cong [OF b] cong: conj_cong)
  then show "inv_answer c \<Longrightarrow> inv_answer t" by simp
  show "inv_once_wire t" if I: "inv_once_wire c"
    unfolding inv_once_wire_def e
  proof (intro conjI ballI allI impI)
    show "distinct (map fst (cn_wire c))" by (rule inv_wire_distinct [OF I])
    show "k \<in> fst ` set (cn_wire c)" if "k < cn_njobs c" "has_answered (j_pc (cn_jobs t k))" for k
      using inv_wire_answered [OF I that(1)] that(2) j(4) [OF that(1)] by simp
    show "cn_sending c = Some k \<longleftrightarrow> k < cn_njobs c \<and> is_writing (j_pc (cn_jobs t k))" for k
      using inv_wire_sending [OF I, of k] j(5) [of k] by blast
    fix x assume "x \<in> set (cn_wire c)"
    note E = inv_wire_entry [OF I this]
    then show "fst x < cn_njobs c" by blast
    with E show "has_answered (j_pc (cn_jobs t (fst x)))" "answer (cn_jobs t (fst x)) = Some (snd x)"
      by (simp_all add: j(4,7))
  qed
qed

text \<open>Steps at which no job enters or leaves \<open>sendResponse\<close>.\<close>

lemma conn_step_sends:
  assumes "conn_step c t"
  obtains (same) "same_sends c t"
  | (added) k pc res a where "t = add_job k pc res a c" "pc = JStart \<and> res = None \<or>
      (\<exists>r m. pc = JReply r m \<and> res = Some (r, m))"
  | (returned) j r m i where "j < cn_njobs c" "j_pc (cn_jobs c j) = JRun i"
      "cn_jobs t = (cn_jobs c)(j := (cn_jobs c j)\<lparr>j_pc := JReply r m, j_result := Some (r, m)\<rparr>)"
      "cn_server t = cn_server c" "cn_oresps t = cn_oresps c" "cn_njobs t = cn_njobs c"
      "cn_sending t = cn_sending c" "cn_wire t = cn_wire c"
  | (prepare) j where "job_prepare j c = Some t"
  | (lock) j where "job_lock j c = Some t"
  | (written) j where "job_write j c = Some t"
  | (free) j where "job_free_response j c = Some t"
  | (others_get) q r m a b s where "prepare_response q r m (cn_server c) = (a, b, s)"
      "t = c\<lparr>cn_server := s, cn_oresps := insert a (cn_oresps c)\<rparr>"
  | (others_free) a where "a \<in> cn_oresps c"
      "t = c\<lparr>cn_server := free_response a (cn_server c), cn_oresps := cn_oresps c - {a}\<rparr>"
  using assms
proof (cases rule: conn_step.cases)
  case cs_get
  then show ?thesis by (auto elim!: conn_getE dest!: get_request_frame intro!: same simp: same_sends_def)
next
  case (cs_fill r)
  then show ?thesis by (auto elim!: conn_fillE intro!: same simp: same_sends_def)
next
  case cs_drop
  then show ?thesis by (auto simp: conn_drop_def intro!: same simp: same_sends_def)
next
  case cs_free
  then show ?thesis by (auto elim!: conn_freeE intro!: same simp: same_sends_def)
next
  case (cs_spawn sv mt v)
  then show ?thesis by (auto elim!: conn_spawnE intro: added)
next
  case (cs_fail e)
  then show ?thesis by (auto elim!: conn_failE intro: added)
next
  case (cs_start j)
  then show ?thesis by (auto elim!: job_startE intro!: same simp: same_sends_def)
next
  case (cs_return r e j)
  then show ?thesis
  proof (cases rule: job_returnE)
    case (cancel i sv mt argv)
    from returned [OF cancel(1,2)] cancel(6) show ?thesis by simp
  next
    case (panic i sv mt argv)
    then show ?thesis by (auto intro!: same simp: same_sends_def)
  next
    case (user i sv mt argv)
    from returned [OF user(1,2)] user(5) show ?thesis by simp
  qed
next
  case (cs_free_request j)
  then show ?thesis by (auto elim!: job_free_requestE intro!: same simp: same_sends_def)
next
  case (cs_finish j)
  then show ?thesis by (auto elim!: job_finishE intro!: same simp: same_sends_def)
next
  case (env_get_request a s)
  then show ?thesis by (auto dest!: get_request_frame intro!: same simp: same_sends_def)
qed (auto intro!: same simp: same_sends_def intro: prepare lock written free others_get others_free)

lemma resp_users_same_resp:
  assumes "cn_oresps t = cn_oresps c" "cn_njobs t = cn_njobs c"
    "\<And>j. j < cn_njobs c \<Longrightarrow> resp_of (j_pc (cn_jobs t j)) = resp_of (j_pc (cn_jobs c j))"
  shows "resp_users t = resp_users c"
  using assms by (auto simp: resp_users_def)

text \<open>Steps that change which response objects are in use in no way.\<close>

lemma inv_resps_frame:
  assumes "inv_resps c" "bs_resps (cn_server t) = bs_resps (cn_server c)"
    "cn_oresps t = cn_oresps c" "cn_njobs t = cn_njobs c"
    "\<And>j. j < cn_njobs c \<Longrightarrow> resp_of (j_pc (cn_jobs t j)) = resp_of (j_pc (cn_jobs c j))"
  shows "inv_resps t"
proof -
  have "inv_resps t = inv_resps c"
    using assms(3-5)
    by (simp add: inv_resps_def resp_users_same_resp [OF assms(3-5)] safe_resps_cong [OF assms(2)]
        cong: conj_cong)
  with assms(1) show ?thesis by simp
qed

lemma resp_users_add_job [simp]:
  "resp_of pc = None \<Longrightarrow> resp_users (add_job k pc res a c) = resp_users c"
  unfolding resp_users_def add_job_simps
  by (intro arg_cong2 [of _ _ _ _ "(\<union>)"] refl set_eqI) (auto simp: less_Suc_eq, metis less_irrefl)

lemma resp_set_add:
  fixes n :: nat
  assumes "k < n" "g k = None"
  shows "{a. \<exists>j < n. (if j = k then Some b else g j) = Some a} = insert b {a. \<exists>j < n. g j = Some a}"
proof (intro set_eqI iffI)
  fix a assume "a \<in> insert b {a. \<exists>j < n. g j = Some a}"
  then consider "a = b" | j where "j < n" "g j = Some a" by blast
  then show "a \<in> {a. \<exists>j < n. (if j = k then Some b else g j) = Some a}"
  proof cases
    case (2 j)
    then show ?thesis using assms(2) by (auto intro!: exI [of _ j])
  qed (use assms(1) in auto)
qed (auto split: if_splits)

lemma resp_set_del:
  fixes n :: nat
  assumes "k < n" "g k = Some b" "\<And>j. j < n \<Longrightarrow> g j = Some b \<Longrightarrow> j = k"
  shows "{a. \<exists>j < n. (if j = k then None else g j) = Some a} = {a. \<exists>j < n. g j = Some a} - {b}"
proof (intro set_eqI iffI)
  fix a assume "a \<in> {a. \<exists>j < n. (if j = k then None else g j) = Some a}"
  then obtain j where "j < n" "g j = Some a" "j \<noteq> k" by (auto split: if_splits)
  with assms(3) show "a \<in> {a. \<exists>j < n. g j = Some a} - {b}" by blast
next
  fix a assume "a \<in> {a. \<exists>j < n. g j = Some a} - {b}"
  then obtain j where "j < n" "g j = Some a" "a \<noteq> b" by blast
  moreover from this assms(2) have "j \<noteq> k" by auto
  ultimately show "a \<in> {a. \<exists>j < n. (if j = k then None else g j) = Some a}" by auto
qed

lemma inv_resps_added:
  assumes "inv_resps c"
    and added: "t = add_job k pc res a c"
      "pc = JStart \<and> res = None \<or> (\<exists>r m. pc = JReply r m \<and> res = Some (r, m))"
  shows "inv_resps t"
proof -
  note added
  then have r: "resp_of pc = None" by auto
  have old: "j < cn_njobs c \<and> resp_of (j_pc (cn_jobs c j)) = Some b"
    if "j < cn_njobs t" "resp_of (j_pc (cn_jobs t j)) = Some b" for j b
    using that r added(1) by (auto simp: less_Suc_eq split: if_splits)
  have "resp_users t = resp_users c" using r added(1) by simp
  then have "resps.safe (cn_server t) (resp_users t)"
    using inv_resps_safe [OF assms(1)] added(1) by simp
  moreover have "cn_oresps t = cn_oresps c" using added(1) by simp
  ultimately show ?thesis
    unfolding inv_resps_def
    using inv_resps_job [OF assms(1)] inv_resps_inj [OF assms(1)] old by metis
qed

lemma inv_resps_prepare:
  assumes "inv_resps c"
    and prepare: "job_prepare j c = Some t"
  shows "inv_resps t"
proof -
  note I = assms(1)
  from prepare obtain r m a body s where p: "j < cn_njobs c" "j_pc (cn_jobs c j) = JReply r m"
    "prepare_response (j_req (cn_jobs c j)) r m (cn_server c) = (a, body, s)"
    "t = set_pc j (JReady a body) (c\<lparr>cn_server := s\<rparr>)" by (rule job_prepareE)
  note g = prepare_safe [OF inv_resps_safe [OF I] p(3)]
  have "resp_users t = insert a (resp_users c)"
  proof -
    have "resp_of (j_pc (cn_jobs t k)) = (if k = j then Some a else resp_of (j_pc (cn_jobs c k)))" for k
      using p(4) by simp
    then show ?thesis
      using p(1,2,4) by (simp add: resp_users_def resp_set_add)
  qed
  then have "resps.safe (cn_server t) (resp_users t)" using g(2) p(4) by simp
  moreover have "a \<notin> cn_oresps t" using g(1) resp_usersI(1) [of a c] p(4) by auto
  moreover have "resp_of (j_pc (cn_jobs c k)) \<noteq> Some a" if "k < cn_njobs c" for k
    using g(1) resp_usersI(2) [OF that] by blast
  moreover have "k = j \<and> b = a \<or> k \<noteq> j \<and> k < cn_njobs c \<and> resp_of (j_pc (cn_jobs c k)) = Some b"
    if "k < cn_njobs t" "resp_of (j_pc (cn_jobs t k)) = Some b" for k b
    using that p(4) by (auto split: if_splits)
  moreover have "cn_oresps t = cn_oresps c" using p(4) by simp
  ultimately show ?thesis
    unfolding inv_resps_def using inv_resps_job [OF I] inv_resps_inj [OF I] by metis
qed

lemma inv_resps_free:
  assumes "inv_resps c"
    and free: "job_free_response j c = Some t"
  shows "inv_resps t"
proof -
  note I = assms(1)
  from free obtain a where f: "j < cn_njobs c" "j_pc (cn_jobs c j) = JWritten a"
    "t = set_pc j JReleased (c\<lparr>cn_server := free_response a (cn_server c)\<rparr>)"
    by (rule job_free_responseE)
  then have r: "resp_of (j_pc (cn_jobs c j)) = Some a" by simp
  note p = resps.safe_put [OF inv_resps_safe [OF I] resp_usersI(2) [OF f(1) r]]
  have "resp_users t = resp_users c - {a}"
  proof -
    have "resp_of (j_pc (cn_jobs t k)) = (if k = j then None else resp_of (j_pc (cn_jobs c k)))" for k
      using f(3) by simp
    moreover have "cn_njobs t = cn_njobs c" "cn_oresps t = cn_oresps c" using f(3) by simp_all
    ultimately show ?thesis
      using inv_resps_job [OF I f(1) r] resp_set_del [where g = "\<lambda>k. resp_of (j_pc (cn_jobs c k))", OF f(1) r inv_resps_inj [OF I f(1) r]]
      by (auto simp: resp_users_def)
  qed
  then have "resps.safe (cn_server t) (resp_users t)" using p f(3) by simp
  moreover have "k < cn_njobs c \<and> resp_of (j_pc (cn_jobs c k)) = Some b"
    if "k < cn_njobs t" "resp_of (j_pc (cn_jobs t k)) = Some b" for k b
    using that f(3) by (auto split: if_splits)
  moreover have "cn_oresps t = cn_oresps c" using f(3) by simp
  ultimately show ?thesis
    unfolding inv_resps_def using inv_resps_job [OF I] inv_resps_inj [OF I] by metis
qed

lemma inv_resps_others_get:
  assumes "inv_resps c"
    and others_get: "prepare_response q r m (cn_server c) = (a, b, s)"
      "t = c\<lparr>cn_server := s, cn_oresps := insert a (cn_oresps c)\<rparr>"
  shows "inv_resps t"
proof -
  note I = assms(1)
  note g = prepare_safe [OF inv_resps_safe [OF I] others_get(1)]
  have "resp_users t = insert a (resp_users c)" using others_get(2) by (auto simp: resp_users_def)
  then have "resps.safe (cn_server t) (resp_users t)" using others_get(2) g(2) by simp
  moreover have "resp_of (j_pc (cn_jobs c k)) \<noteq> Some a" if "k < cn_njobs c" for k
    using g(1) resp_usersI(2) [OF that] by blast
  moreover have "cn_jobs t = cn_jobs c" "cn_njobs t = cn_njobs c" "cn_oresps t = insert a (cn_oresps c)"
    using others_get(2) by simp_all
  ultimately show ?thesis
    unfolding inv_resps_def using inv_resps_job [OF I] inv_resps_inj [OF I] by (metis insert_iff)
qed

lemma inv_resps_others_free:
  assumes "inv_resps c"
    and others_free: "a \<in> cn_oresps c"
      "t = c\<lparr>cn_server := free_response a (cn_server c), cn_oresps := cn_oresps c - {a}\<rparr>"
  shows "inv_resps t"
proof -
  note I = assms(1)
  note p = resps.safe_put [OF inv_resps_safe [OF I] resp_usersI(1) [OF others_free(1)]]
  have "resp_users t = resp_users c - {a}"
    using others_free inv_resps_job [OF I] by (auto simp: resp_users_def)
  then have "resps.safe (cn_server t) (resp_users t)" using others_free(2) p by simp
  moreover have "cn_jobs t = cn_jobs c" "cn_njobs t = cn_njobs c" "cn_oresps t = cn_oresps c - {a}"
    using others_free(2) by simp_all
  ultimately show ?thesis
    unfolding inv_resps_def using inv_resps_job [OF I] inv_resps_inj [OF I] by (metis DiffD1)
qed

lemma inv_resps_step:
  assumes "conn_step c t" "inv_resps c"
  shows "inv_resps t"
  using assms(1)
proof (cases rule: conn_step_sends)
  case same
  then show ?thesis by (rule same_sends_inv(1)) (rule assms(2))
next
  case (added k pc res a)
  show ?thesis by (rule inv_resps_added [OF assms(2) added])
next
  case (returned j r m i)
  then show ?thesis by (intro inv_resps_frame [OF assms(2)]) auto
next
  case (prepare j)
  show ?thesis by (rule inv_resps_prepare [OF assms(2) prepare])
next
  case (lock j)
  then show ?thesis by (auto elim!: job_lockE intro!: inv_resps_frame [OF assms(2)] split: if_splits)
next
  case (written j)
  then show ?thesis by (auto elim!: job_writeE intro!: inv_resps_frame [OF assms(2)] split: if_splits)
next
  case (free j)
  show ?thesis by (rule inv_resps_free [OF assms(2) free])
next
  case (others_get q r m a b s)
  show ?thesis by (rule inv_resps_others_get [OF assms(2) others_get])
next
  case (others_free a)
  show ?thesis by (rule inv_resps_others_free [OF assms(2) others_free])
qed

lemma inv_answerI:
  assumes "\<And>j x. j < cn_njobs c \<Longrightarrow> reply_of (j_pc (cn_jobs c j)) = Some x \<Longrightarrow> j_result (cn_jobs c j) = Some x"
    "\<And>j a b. j < cn_njobs c \<Longrightarrow> ready_of (j_pc (cn_jobs c j)) = Some (a, b) \<Longrightarrow>
      answer (cn_jobs c j) = Some (resp_obj (cn_server c) a, b)"
  shows "inv_answer c"
  using assms by (simp add: inv_answer_def)

lemma answer_set_pc [simp]: "answer (job\<lparr>j_pc := pc\<rparr>) = answer job"
  by (rule answer_cong) simp_all

text \<open>A step that changes one job's place.\<close>

lemma inv_answer_one:
  assumes I: "inv_answer c" and n: "cn_njobs t = cn_njobs c"
    and j: "cn_jobs t = (cn_jobs c)(j := (cn_jobs c j)\<lparr>j_pc := pc\<rparr>)" and r: "reply_of pc = None"
    and ready: "\<And>a b. ready_of pc = Some (a, b) \<Longrightarrow> answer (cn_jobs c j) = Some (resp_obj (cn_server t) a, b)"
    and obj: "\<And>k a b. k < cn_njobs c \<Longrightarrow> k \<noteq> j \<Longrightarrow> ready_of (j_pc (cn_jobs c k)) = Some (a, b) \<Longrightarrow>
      resp_obj (cn_server t) a = resp_obj (cn_server c) a"
  shows "inv_answer t"
proof (rule inv_answerI)
  show "j_result (cn_jobs t k) = Some x"
    if "k < cn_njobs t" "reply_of (j_pc (cn_jobs t k)) = Some x" for k x
    using that inv_answer_reply [OF I, of k x] n j r by (auto split: if_splits)
  show "answer (cn_jobs t k) = Some (resp_obj (cn_server t) a, b)"
    if "k < cn_njobs t" "ready_of (j_pc (cn_jobs t k)) = Some (a, b)" for k a b
    using that inv_answer_ready [OF I, of k a b] n j ready obj [of k a b] by (auto split: if_splits)
qed

lemma inv_answer_added:
  assumes "inv_reqs c" "inv_resps c" "inv_answer c"
    and added: "t = add_job k pc res a c"
      "pc = JStart \<and> res = None \<or> (\<exists>r m. pc = JReply r m \<and> res = Some (r, m))"
  shows "inv_answer t"
proof -
  have new: "reply_of pc = Some x \<Longrightarrow> res = Some x" "ready_of pc = None" for x
    using added(2) by auto
  show ?thesis
  proof (rule inv_answerI)
    show "j_result (cn_jobs t j) = Some x"
      if "j < cn_njobs t" "reply_of (j_pc (cn_jobs t j)) = Some x" for j x
      using that inv_answer_reply [OF assms(3), of j x] added(1) new by (auto simp: less_Suc_eq split: if_splits)
    show "answer (cn_jobs t j) = Some (resp_obj (cn_server t) b, v)"
      if "j < cn_njobs t" "ready_of (j_pc (cn_jobs t j)) = Some (b, v)" for j b v
      using that inv_answer_ready [OF assms(3), of j b v] added(1) new by (auto simp: less_Suc_eq split: if_splits)
  qed
qed

lemma inv_answer_returned:
  assumes "inv_reqs c" "inv_resps c" "inv_answer c"
    and returned: "j < cn_njobs c" "j_pc (cn_jobs c j) = JRun i"
      "cn_jobs t = (cn_jobs c)(j := (cn_jobs c j)\<lparr>j_pc := JReply r m, j_result := Some (r, m)\<rparr>)"
      "cn_server t = cn_server c" "cn_oresps t = cn_oresps c" "cn_njobs t = cn_njobs c" "cn_sending t = cn_sending c"
      "cn_wire t = cn_wire c"
  shows "inv_answer t"
proof -
  show ?thesis
  proof (rule inv_answerI)
    show "j_result (cn_jobs t k) = Some x"
      if "k < cn_njobs t" "reply_of (j_pc (cn_jobs t k)) = Some x" for k x
      using that inv_answer_reply [OF assms(3), of k x] returned by (auto split: if_splits)
    show "answer (cn_jobs t k) = Some (resp_obj (cn_server t) b, v)"
      if "k < cn_njobs t" "ready_of (j_pc (cn_jobs t k)) = Some (b, v)" for k b v
      using that inv_answer_ready [OF assms(3), of k b v] returned by (auto split: if_splits)
  qed
qed

lemma inv_answer_prepare:
  assumes "inv_reqs c" "inv_resps c" "inv_answer c"
    and prepare: "job_prepare j c = Some t"
  shows "inv_answer t"
proof -
  note prepare
  then obtain r m a body s where p: "j < cn_njobs c" "j_pc (cn_jobs c j) = JReply r m"
    "prepare_response (j_req (cn_jobs c j)) r m (cn_server c) = (a, body, s)"
    "t = set_pc j (JReady a body) (c\<lparr>cn_server := s\<rparr>)" by (rule job_prepareE)
  note g = prepare_safe [OF inv_resps_safe [OF assms(2)] p(3)]
  have res: "j_result (cn_jobs c j) = Some (r, m)"
    using inv_answer_reply [OF assms(3) p(1)] p(2) by simp
  have head: "req_obj (cn_server c) (j_req (cn_jobs c j)) = j_head (cn_jobs c j)"
    using inv_reqs_job [OF assms(1) p(1)] p(2) by simp
  show ?thesis
  proof (rule inv_answer_one [OF assms(3)])
    show "cn_jobs t = (cn_jobs c)(j := (cn_jobs c j)\<lparr>j_pc := JReady a body\<rparr>)" using p(4) by simp
    show "resp_obj (cn_server t) b = resp_obj (cn_server c) b"
      if "k < cn_njobs c" "ready_of (j_pc (cn_jobs c k)) = Some (b, v)" for k b v
      using g(4) [OF resp_usersI(2) [OF that(1) ready_resp [OF that(2)]]] p(4) by simp
  qed (use p(4) g(3,5) res head in \<open>auto simp: answer_def\<close>)
qed

lemma inv_answer_free:
  assumes "inv_reqs c" "inv_resps c" "inv_answer c"
    and free: "job_free_response j c = Some t"
  shows "inv_answer t"
proof -
  note free
  then obtain a where f: "j < cn_njobs c" "j_pc (cn_jobs c j) = JWritten a"
    "t = set_pc j JReleased (c\<lparr>cn_server := free_response a (cn_server c)\<rparr>)"
    by (rule job_free_responseE)
  have "a \<in> resp_users c" using resp_usersI(2) [OF f(1)] f(2) by simp
  note p = resps.safe_put [OF inv_resps_safe [OF assms(2)] this]
  show ?thesis
    by (rule inv_answer_one [OF assms(3), of _ j JReleased]) (use f(3) p in auto)
qed

lemma inv_answer_others_get:
  assumes "inv_reqs c" "inv_resps c" "inv_answer c"
    and others_get: "prepare_response q r m (cn_server c) = (a, b, s)"
      "t = c\<lparr>cn_server := s, cn_oresps := insert a (cn_oresps c)\<rparr>"
  shows "inv_answer t"
proof -
  note g = prepare_safe [OF inv_resps_safe [OF assms(2)] others_get(1)]
  have obj: "resp_obj s d = resp_obj (cn_server c) d"
    if "j < cn_njobs c" "ready_of (j_pc (cn_jobs c j)) = Some (d, v)" for j d v
    using g(4) [OF resp_usersI(2) [OF that(1) ready_resp [OF that(2)]]] .
  show ?thesis
    by (rule inv_answerI)
       (use others_get(2) inv_answer_reply [OF assms(3)] inv_answer_ready [OF assms(3)] obj in auto)
qed

lemma inv_answer_written:
  assumes "inv_reqs c" "inv_resps c" "inv_answer c"
    and written: "job_write j c = Some t"
  shows "inv_answer t"
proof -
  note written
  then obtain a body where w: "j < cn_njobs c" "j_pc (cn_jobs c j) = JWriting a body"
    "t = set_pc j (JWritten a)
       (c\<lparr>cn_wire := cn_wire c @ [(j, resp_obj (cn_server c) a, body)], cn_sending := None\<rparr>)"
    by (rule job_writeE)
  show ?thesis
    by (rule inv_answer_one [OF assms(3), of _ j "JWritten a"]) (use w in auto)
qed

lemma inv_answer_step:
  assumes "conn_step c t" "inv_reqs c" "inv_resps c" "inv_answer c"
  shows "inv_answer t"
  using assms(1)
proof (cases rule: conn_step_sends)
  case same
  then show ?thesis by (rule same_sends_inv(2)) (rule assms(4))
next
  case (added k pc res a)
  show ?thesis by (rule inv_answer_added [OF assms(2-4) added])
next
  case (returned j r m i)
  show ?thesis by (rule inv_answer_returned [OF assms(2-4) returned])
next
  case (prepare j)
  show ?thesis by (rule inv_answer_prepare [OF assms(2-4) prepare])
next
  case (lock j)
  then obtain a body where l: "j < cn_njobs c" "j_pc (cn_jobs c j) = JReady a body"
    "t = set_pc j (JWriting a body) (c\<lparr>cn_sending := Some j\<rparr>)" by (rule job_lockE)
  show ?thesis
    by (rule inv_answer_one [OF assms(4), of _ j "JWriting a body"])
       (use l inv_answer_ready [OF assms(4) l(1)] in auto)
next
  case (written j)
  show ?thesis by (rule inv_answer_written [OF assms(2-4) written])
next
  case (free j)
  show ?thesis by (rule inv_answer_free [OF assms(2-4) free])
next
  case (others_get q r m a b s)
  show ?thesis by (rule inv_answer_others_get [OF assms(2-4) others_get])
next
  case (others_free a)
  note p = resps.safe_put [OF inv_resps_safe [OF assms(3)] resp_usersI(1) [OF others_free(1)]]
  show ?thesis
    by (rule inv_answerI)
       (use others_free(2) inv_answer_reply [OF assms(4)] inv_answer_ready [OF assms(4)] p in auto)
qed

lemma inv_once_wireI:
  assumes "distinct (map fst (cn_wire c))"
    "\<And>j. j < cn_njobs c \<Longrightarrow> has_answered (j_pc (cn_jobs c j)) \<Longrightarrow> j \<in> fst ` set (cn_wire c)"
    "\<And>x. x \<in> set (cn_wire c) \<Longrightarrow> fst x < cn_njobs c \<and>
      has_answered (j_pc (cn_jobs c (fst x))) \<and> answer (cn_jobs c (fst x)) = Some (snd x)"
    "\<And>j. cn_sending c = Some j \<longleftrightarrow> j < cn_njobs c \<and> is_writing (j_pc (cn_jobs c j))"
  shows "inv_once_wire c"
  using assms by (simp add: inv_once_wire_def)

text \<open>A step that changes one job and leaves the wire alone.\<close>

lemma inv_once_wire_one:
  assumes I: "inv_once_wire c" and n: "cn_njobs t = cn_njobs c" "cn_wire t = cn_wire c"
    and j: "cn_jobs t = (cn_jobs c)(j := job)" "j < cn_njobs c"
    and h: "has_answered (j_pc job) = has_answered (j_pc (cn_jobs c j))"
    and a: "has_answered (j_pc job) \<Longrightarrow> answer job = answer (cn_jobs c j)"
    and s: "cn_sending t = (if is_writing (j_pc job) then Some j else cn_sending c)"
      "is_writing (j_pc job) \<Longrightarrow> cn_sending c = None" "is_writing (j_pc (cn_jobs c j)) = False"
  shows "inv_once_wire t"
proof (rule inv_once_wireI)
  show "distinct (map fst (cn_wire t))" using inv_wire_distinct [OF I] n by simp
  show "k \<in> fst ` set (cn_wire t)" if "k < cn_njobs t" "has_answered (j_pc (cn_jobs t k))" for k
    using that inv_wire_answered [OF I, of k] n j h by (auto split: if_splits)
  show "fst x < cn_njobs t \<and> has_answered (j_pc (cn_jobs t (fst x))) \<and>
      answer (cn_jobs t (fst x)) = Some (snd x)" if "x \<in> set (cn_wire t)" for x
    using that inv_wire_entry [OF I, of x] n j h a by (auto split: if_splits)
  show "cn_sending t = Some k \<longleftrightarrow> k < cn_njobs t \<and> is_writing (j_pc (cn_jobs t k))" for k
    using inv_wire_sending [OF I, of k] n j s by (auto split: if_splits)
qed

lemma inv_once_wire_added:
  assumes "inv_answer c" "inv_once_wire c"
    and added: "t = add_job k pc res a c"
      "pc = JStart \<and> res = None \<or> (\<exists>r m. pc = JReply r m \<and> res = Some (r, m))"
  shows "inv_once_wire t"
proof -
  note I = assms(2)
  have new: "\<not> has_answered pc" "\<not> is_writing pc" using added(2) by auto
  show ?thesis
  proof (rule inv_once_wireI)
    show "distinct (map fst (cn_wire t))" using inv_wire_distinct [OF I] added(1) by simp
    show "j \<in> fst ` set (cn_wire t)" if "j < cn_njobs t" "has_answered (j_pc (cn_jobs t j))" for j
      using that inv_wire_answered [OF I, of j] added(1) new by (auto simp: less_Suc_eq split: if_splits)
    show "fst x < cn_njobs t \<and> has_answered (j_pc (cn_jobs t (fst x))) \<and>
        answer (cn_jobs t (fst x)) = Some (snd x)" if "x \<in> set (cn_wire t)" for x
      using that inv_wire_entry [OF I, of x] added(1) by auto
    show "cn_sending t = Some j \<longleftrightarrow> j < cn_njobs t \<and> is_writing (j_pc (cn_jobs t j))" for j
      using inv_wire_sending [OF I, of j] added(1) new by (auto simp: less_Suc_eq split: if_splits)
  qed
qed

lemma inv_once_wire_written:
  assumes "inv_answer c" "inv_once_wire c"
    and written: "job_write j c = Some t"
  shows "inv_once_wire t"
proof -
  note I = assms(2)
  from written obtain a body where w: "j < cn_njobs c" "j_pc (cn_jobs c j) = JWriting a body"
    "t = set_pc j (JWritten a)
       (c\<lparr>cn_wire := cn_wire c @ [(j, resp_obj (cn_server c) a, body)], cn_sending := None\<rparr>)"
    by (rule job_writeE)
  have fresh: "j \<notin> fst ` set (cn_wire c)" using inv_wire_entry [OF I] w(2) by fastforce
  have sending: "cn_sending c = Some j" using inv_wire_sending [OF I, of j] w(1,2) by simp
  have ans: "answer (cn_jobs c j) = Some (resp_obj (cn_server c) a, body)"
    using inv_answer_ready [OF assms(1) w(1)] w(2) by simp
  show ?thesis
  proof (rule inv_once_wireI)
    show "distinct (map fst (cn_wire t))" using inv_wire_distinct [OF I] fresh w(3) by simp
    show "k \<in> fst ` set (cn_wire t)" if "k < cn_njobs t" "has_answered (j_pc (cn_jobs t k))" for k
      using that inv_wire_answered [OF I, of k] w(3) by (auto split: if_splits)
    show "fst x < cn_njobs t \<and> has_answered (j_pc (cn_jobs t (fst x))) \<and>
        answer (cn_jobs t (fst x)) = Some (snd x)" if "x \<in> set (cn_wire t)" for x
      using that inv_wire_entry [OF I, of x] w ans by auto
    show "cn_sending t = Some k \<longleftrightarrow> k < cn_njobs t \<and> is_writing (j_pc (cn_jobs t k))" for k
      using inv_wire_sending [OF I, of k] sending w(3) by (auto split: if_splits)
  qed
qed

lemma inv_once_wire_free:
  assumes "inv_answer c" "inv_once_wire c"
    and free: "job_free_response j c = Some t"
  shows "inv_once_wire t"
proof -
  note free
  then obtain a where f: "j < cn_njobs c" "j_pc (cn_jobs c j) = JWritten a"
    "t = set_pc j JReleased (c\<lparr>cn_server := free_response a (cn_server c)\<rparr>)"
    by (rule job_free_responseE)
  show ?thesis
    by (rule inv_once_wire_one [OF assms(2), of _ j "(cn_jobs c j)\<lparr>j_pc := JReleased\<rparr>"])
       (use f in auto)
qed

lemma inv_once_wire_step:
  assumes "conn_step c t" "inv_answer c" "inv_once_wire c"
  shows "inv_once_wire t"
  using assms(1)
proof (cases rule: conn_step_sends)
  case same
  then show ?thesis by (rule same_sends_inv(3)) (rule assms(3))
next
  case (added k pc res a)
  show ?thesis by (rule inv_once_wire_added [OF assms(2-3) added])
next
  case (returned j r m i)
  show ?thesis
    by (rule inv_once_wire_one [OF assms(3) _ _ returned(3)]) (use returned in auto)
next
  case (prepare j)
  then obtain r m a body s where p: "j < cn_njobs c" "j_pc (cn_jobs c j) = JReply r m"
    "t = set_pc j (JReady a body) (c\<lparr>cn_server := s\<rparr>)" by (rule job_prepareE)
  show ?thesis
    by (rule inv_once_wire_one [OF assms(3), of _ j "(cn_jobs c j)\<lparr>j_pc := JReady a body\<rparr>"])
       (use p in auto)
next
  case (lock j)
  then obtain a body where l: "j < cn_njobs c" "j_pc (cn_jobs c j) = JReady a body"
    "cn_sending c = None" "t = set_pc j (JWriting a body) (c\<lparr>cn_sending := Some j\<rparr>)" by (rule job_lockE)
  show ?thesis
    by (rule inv_once_wire_one [OF assms(3), of _ j "(cn_jobs c j)\<lparr>j_pc := JWriting a body\<rparr>"])
       (use l in auto)
next
  case (written j)
  show ?thesis by (rule inv_once_wire_written [OF assms(2-3) written])
next
  case (free j)
  show ?thesis by (rule inv_once_wire_free [OF assms(2-3) free])
next
  case (others_get q r m a b s)
  then have "cn_jobs t = cn_jobs c" "cn_njobs t = cn_njobs c" "cn_wire t = cn_wire c"
    "cn_sending t = cn_sending c" by simp_all
  with assms(3) show ?thesis unfolding inv_once_wire_def by simp
next
  case (others_free a)
  then have "cn_jobs t = cn_jobs c" "cn_njobs t = cn_njobs c" "cn_wire t = cn_wire c"
    "cn_sending t = cn_sending c" by simp_all
  with assms(3) show ?thesis unfolding inv_once_wire_def by simp
qed

end
