(* ===== verification/HandlersCtx.thy ===== *)
theory HandlersCtx
  imports HandlersInv
begin

text \<open>
  The contexts of the requests being served: which entries the connection's \<open>Pending\<close> map holds, and
  what can end the context of a method that is running.
\<close>

section \<open>What a step does to the contexts\<close>

fun run_of :: "job_pc \<Rightarrow> nat option" where
  "run_of (JRun i) = Some i"
| "run_of _ = None"

definition ctx_parent :: "conn \<Rightarrow> nat" where
  "ctx_parent c = g_std (pd_parent (ss_pend (cn_store c) (cn_pend c)))"

abbreviation entries :: "conn \<Rightarrow> u64 \<rightharpoonup> nat" where
  "entries c \<equiv> pd_m (ss_pend (cn_store c) (cn_pend c))"

abbreviation conn_ctxs :: "conn \<Rightarrow> ctxs" where
  "conn_ctxs c \<equiv> ss_ctxs (cn_store c)"

text \<open>Places of \<open>service.call\<close> only.\<close>

fun call_only :: "job_pc \<Rightarrow> bool" where
  "call_only JStart = True"
| "call_only (JRun i) = True"
| "call_only JFreed = True"
| "call_only _ = False"

text \<open>The job's part in the map does not change, except that a method may return.\<close>

definition same_job :: "job \<Rightarrow> job \<Rightarrow> bool" where
  "same_job a b \<longleftrightarrow> j_kind b = j_kind a \<and> j_head b = j_head a \<and> j_defer b = j_defer a \<and>
     started b = started a \<and> (run_of (j_pc b) = run_of (j_pc a) \<or> run_of (j_pc b) = None) \<and>
     (j_pc b = JStart \<longleftrightarrow> j_pc a = JStart) \<and> (call_only (j_pc b) \<longrightarrow> call_only (j_pc a) \<or> is_call (j_kind a)) \<and>
     j_req b = j_req a"

lemma same_job_refl [simp]: "same_job a a"
  by (simp add: same_job_def)

lemma conn_step_pend:
  assumes "conn_step c t"
  obtains (same) "cn_store t = cn_store c" "cn_pend t = cn_pend c" "cn_cancels t = cn_cancels c"
      "cn_njobs t = cn_njobs c" "\<And>j. j < cn_njobs c \<Longrightarrow> same_job (cn_jobs c j) (cn_jobs t j)"
  | (added) k pc res a where "t = add_job k pc res a c" "is_call k \<and> pc = JStart \<or>
      \<not> is_call k \<and> (\<exists>r m. pc = JReply r m)"
  | (start) j where "job_start j c = Some t"
  | (cancel) j n where "j < cn_njobs c" "cn_store t = pend_cancel (cn_pend c) n (cn_store c)"
      "cn_pend t = cn_pend c" "cn_cancels t = cn_cancels c @ [n]" "cn_njobs t = cn_njobs c"
      "\<And>j. j < cn_njobs c \<Longrightarrow> same_job (cn_jobs c j) (cn_jobs t j)"
  | (finish) j where "job_finish j c = Some t"
  | (ended) i e where "below (conn_ctxs c) i (ctx_parent c)"
      "t = c\<lparr>cn_store := (cn_store c)\<lparr>ss_ctxs := std_cancel i e (conn_ctxs c)\<rparr>\<rparr>"
  using assms
proof (cases rule: conn_step.cases)
  case cs_get
  then show ?thesis by (auto elim!: conn_getE intro!: same)
next
  case (cs_fill r)
  then show ?thesis by (auto elim!: conn_fillE intro!: same)
next
  case cs_drop
  then show ?thesis by (auto simp: conn_drop_def intro!: same)
next
  case cs_free
  then show ?thesis by (auto elim!: conn_freeE intro!: same)
next
  case (cs_spawn sv mt v)
  then show ?thesis by (auto elim!: conn_spawnE intro: added)
next
  case (cs_fail e)
  then show ?thesis by (auto elim!: conn_failE intro: added)
next
  case (cs_return r e j)
  then show ?thesis
  proof (cases rule: job_returnE)
    case (cancel i sv mt argv)
    have sj: "\<And>k. k < cn_njobs c \<Longrightarrow> same_job (cn_jobs c k) (cn_jobs t k)"
      using cancel by (auto simp: same_job_def started_def)
    show ?thesis
      by (rule that(4) [where j = j and n = "ca_seq (cancel_req_of argv)"]) (use cancel sj in auto)
  next
    case (panic i sv mt argv)
    then show ?thesis by (auto intro!: same)
  next
    case (user i sv mt argv)
    have "\<And>k. k < cn_njobs c \<Longrightarrow> same_job (cn_jobs c k) (cn_jobs t k)"
      using user by (auto simp: same_job_def started_def)
    then show ?thesis by (intro same) (use user in auto)
  qed
next
  case (cs_prepare j)
  then show ?thesis
    by (auto elim!: job_prepareE intro!: same simp: same_job_def started_def split: if_splits)
next
  case (cs_lock j)
  then show ?thesis
    by (auto elim!: job_lockE intro!: same simp: same_job_def started_def split: if_splits)
next
  case (cs_write j)
  then show ?thesis
    by (auto elim!: job_writeE intro!: same simp: same_job_def started_def split: if_splits)
next
  case (cs_free_response j)
  then show ?thesis
    by (auto elim!: job_free_responseE intro!: same simp: same_job_def started_def split: if_splits)
next
  case (cs_free_request j)
  then show ?thesis
    by (auto elim!: job_free_requestE intro!: same simp: same_job_def started_def split: if_splits)
next
  case (env_end_context i e)
  then show ?thesis by (intro ended) (auto simp: ctx_parent_def)
qed (auto intro!: same intro: start finish)


section \<open>Invariants\<close>

definition inv_pend :: "conn \<Rightarrow> bool" where
  "inv_pend c \<longleftrightarrow> wf_svc (cn_store c) \<and> cn_pend c < ss_npend (cn_store c) \<and>
     (\<forall>j < cn_njobs c. call_only (j_pc (cn_jobs c j)) \<longrightarrow> is_call (j_kind (cn_jobs c j))) \<and>
     (\<forall>j < cn_njobs c. started (cn_jobs c j) \<longrightarrow>
        j_defer (cn_jobs c j) = req_seq (j_head (cn_jobs c j))) \<and>
     (\<forall>n i. entries c n = Some i \<longrightarrow>
        (\<exists>j < cn_njobs c. started (cn_jobs c j) \<and> j_defer (cn_jobs c j) = n)) \<and>
     (\<forall>n i. entries c n = Some i \<longrightarrow> ctx_err (conn_ctxs c) i \<noteq> None \<longrightarrow>
        ctx_err (conn_ctxs c) (ctx_parent c) \<noteq> None)"

lemma inv_pendD:
  assumes "inv_pend c"
  shows inv_pend_wf: "wf_svc (cn_store c)" "cn_pend c < ss_npend (cn_store c)"
    and inv_pend_call: "j < cn_njobs c \<Longrightarrow>
      call_only (j_pc (cn_jobs c j)) \<Longrightarrow> is_call (j_kind (cn_jobs c j))"
    and inv_pend_defer: "j < cn_njobs c \<Longrightarrow> started (cn_jobs c j) \<Longrightarrow>
      j_defer (cn_jobs c j) = req_seq (j_head (cn_jobs c j))"
    and inv_pend_entry: "entries c n = Some i \<Longrightarrow>
      \<exists>j < cn_njobs c. started (cn_jobs c j) \<and> j_defer (cn_jobs c j) = n"
    and inv_pend_err: "entries c n = Some i \<Longrightarrow> ctx_err (conn_ctxs c) i \<noteq> None \<Longrightarrow>
      ctx_err (conn_ctxs c) (ctx_parent c) \<noteq> None"
  using assms unfolding inv_pend_def by blast+

lemma inv_pendI:
  assumes "wf_svc (cn_store c)" "cn_pend c < ss_npend (cn_store c)"
    and "\<And>j. j < cn_njobs c \<Longrightarrow> call_only (j_pc (cn_jobs c j)) \<Longrightarrow>
      is_call (j_kind (cn_jobs c j))"
    and "\<And>j. j < cn_njobs c \<Longrightarrow> started (cn_jobs c j) \<Longrightarrow>
      j_defer (cn_jobs c j) = req_seq (j_head (cn_jobs c j))"
    and "\<And>n i. entries c n = Some i \<Longrightarrow>
      \<exists>j < cn_njobs c. started (cn_jobs c j) \<and> j_defer (cn_jobs c j) = n"
    and "\<And>n i. entries c n = Some i \<Longrightarrow> ctx_err (conn_ctxs c) i \<noteq> None \<Longrightarrow>
      ctx_err (conn_ctxs c) (ctx_parent c) \<noteq> None"
  shows "inv_pend c"
  using assms unfolding inv_pend_def by blast

text \<open>What \<open>Start\<close> does for job \<open>j\<close>: its entry is new, and its context is the connection's child.\<close>

lemma job_start_facts:
  assumes "job_start j c = Some t" "inv_reqs c" "inv_pend c"
  obtains "j < cn_njobs c" "j_pc (cn_jobs c j) = JStart" "cn_pend t = cn_pend c" "cn_njobs t = cn_njobs c"
    "wf_svc (cn_store t)" "ss_npend (cn_store t) = ss_npend (cn_store c)"
    "cn_cancels t = cn_cancels c" "ctx_parent t = ctx_parent c"
    "ctx_parent c < length (conn_ctxs c)"
    "entries t = (entries c)(req_seq (j_head (cn_jobs c j)) \<mapsto> length (conn_ctxs c))"
    "length (conn_ctxs t) = Suc (length (conn_ctxs c))"
    "ctx_err (conn_ctxs t) (length (conn_ctxs c)) = ctx_err (conn_ctxs c) (ctx_parent c)"
    "\<And>i. i < length (conn_ctxs c) \<Longrightarrow> ctx_err (conn_ctxs t) i = ctx_err (conn_ctxs c) i"
    "cn_jobs t = (cn_jobs c)(j := (cn_jobs c j)\<lparr>j_defer := req_seq (j_head (cn_jobs c j)),
       j_pc := JRun (length (conn_ctxs c))\<rparr>)"
  using assms(1)
proof (rule job_startE)
  fix n ctx st
  assume s: "j < cn_njobs c" "j_pc (cn_jobs c j) = JStart"
    "n = req_seq (req_obj (cn_server c) (j_req (cn_jobs c j)))"
    "pend_start (cn_pend c) n (cn_store c) = (ctx, st)"
    "t = c\<lparr>cn_store := st, cn_jobs := (cn_jobs c)
       (j := (cn_jobs c j)\<lparr>j_defer := n, j_pc := JRun (g_std ctx)\<rparr>)\<rparr>"
  have n: "n = req_seq (j_head (cn_jobs c j))"
    using inv_reqs_job [OF assms(2) s(1)] s(2,3) by simp
  have wf: "wf_svc st" by (rule wf_pend_start [OF inv_pend_wf [OF assms(3)] s(4)])
  have p: "ctx_parent c < length (conn_ctxs c)"
    using wf_svc_parent [OF inv_pend_wf [OF assms(3)]] by (simp add: ctx_parent_def)
  from s(4) show thesis
  proof (rule pend_startE)
    assume st: "g_std ctx = length (conn_ctxs c)"
      "st = pend_set (cn_pend c) n (Some (length (conn_ctxs c)))
         ((cn_store c)\<lparr>ss_ctxs := snd (std_derive KCancel
            (g_std (pd_parent (ss_pend (cn_store c) (cn_pend c)))) (conn_ctxs c))\<rparr>)"
    show thesis
      by (rule that) (use s(1,2,5) n wf p st in \<open>auto simp: ctx_parent_def\<close>)
  qed
qed

lemma entry_old:
  "inv_pend c \<Longrightarrow> entries c n = Some i \<Longrightarrow> i < length (conn_ctxs c)"
  using wf_svc_entry [of "cn_store c" "cn_pend c" n i] inv_pend_wf by blast

lemma wf_end_context: "wf_svc st \<Longrightarrow> wf_svc (st\<lparr>ss_ctxs := std_cancel i e (ss_ctxs st)\<rparr>)"
  unfolding wf_svc_def by (auto simp: wf_cancel)

lemma inv_pend_same:
  assumes "inv_reqs c" "inv_pend c"
    and same: "cn_store t = cn_store c" "cn_pend t = cn_pend c" "cn_cancels t = cn_cancels c"
      "cn_njobs t = cn_njobs c" "\<And>j. j < cn_njobs c \<Longrightarrow> same_job (cn_jobs c j) (cn_jobs t j)"
  shows "inv_pend t"
proof -
  note I = assms(2)
  have e: "entries t = entries c" "ctx_parent t = ctx_parent c" "conn_ctxs t = conn_ctxs c"
    using same(1,2) by (simp_all add: ctx_parent_def)
  show ?thesis
  proof (rule inv_pendI)
    show "\<exists>k < cn_njobs t. started (cn_jobs t k) \<and> j_defer (cn_jobs t k) = m"
      if "entries t m = Some i" for m i
      using that inv_pend_entry [OF I, of m i] same(4,5) unfolding e same_job_def by fastforce
    show "is_call (j_kind (cn_jobs t k))" if "k < cn_njobs t"
      "call_only (j_pc (cn_jobs t k))" for k
      using that inv_pend_call [OF I, of k] same(4) same(5) [of k] by (auto simp: same_job_def started_def)
    show "j_defer (cn_jobs t k) = req_seq (j_head (cn_jobs t k))"
      if "k < cn_njobs t" "started (cn_jobs t k)" for k
      using that inv_pend_defer [OF I, of k] same(4) same(5) [of k] by (simp add: same_job_def)
  qed (use same(1,2) e inv_pend_wf [OF I] inv_pend_err [OF I] in simp_all)
qed

lemma inv_pend_added:
  assumes "inv_reqs c" "inv_pend c"
    and added: "t = add_job k pc res a c"
      "is_call k \<and> pc = JStart \<or> \<not> is_call k \<and> (\<exists>r m. pc = JReply r m)"
  shows "inv_pend t"
proof -
  note I = assms(2)
  have new: "\<not> started \<lparr>j_kind = k, j_req = a, j_defer = 0, j_pc = pc, j_head = req_obj (cn_server c) a, j_result = res\<rparr>"
    using added(2) by (auto simp: started_def)
  have e: "entries t = entries c" "conn_ctxs t = conn_ctxs c" "ctx_parent t = ctx_parent c"
    using added(1) by (simp_all add: ctx_parent_def)
  show ?thesis
  proof (rule inv_pendI)
    show "\<exists>j < cn_njobs t. started (cn_jobs t j) \<and> j_defer (cn_jobs t j) = n"
      if ni: "entries t n = Some i" for n i
    proof -
      obtain j where "j < cn_njobs c" "started (cn_jobs c j)" "j_defer (cn_jobs c j) = n"
        using inv_pend_entry [OF I] ni e by metis
      then show ?thesis using added(1) by (intro exI [of _ j]) simp
    qed
    show "is_call (j_kind (cn_jobs t j))" if "j < cn_njobs t"
      "call_only (j_pc (cn_jobs t j))" for j
      using that inv_pend_call [OF I, of j] added by (auto simp: less_Suc_eq split: if_splits)
    show "j_defer (cn_jobs t j) = req_seq (j_head (cn_jobs t j))" if "j < cn_njobs t" "started (cn_jobs t j)" for j
      using that inv_pend_defer [OF I, of j] added(1) new by (auto simp: less_Suc_eq split: if_splits)
  qed (use e inv_pend_wf [OF I] inv_pend_err [OF I] added(1) in simp_all)
qed

lemma inv_pend_start:
  assumes "inv_reqs c" "inv_pend c"
    and start: "job_start j c = Some t"
  shows "inv_pend t"
proof -
  note I = assms(2)
  from start assms(1) I show ?thesis
  proof (rule job_start_facts)
    let ?n = "req_seq (j_head (cn_jobs c j))"
    assume s: "j < cn_njobs c" "j_pc (cn_jobs c j) = JStart" "cn_pend t = cn_pend c" "cn_njobs t = cn_njobs c"
      "wf_svc (cn_store t)" "ss_npend (cn_store t) = ss_npend (cn_store c)" "ctx_parent t = ctx_parent c"
      "ctx_parent c < length (conn_ctxs c)" "entries t = (entries c)(?n \<mapsto> length (conn_ctxs c))"
      "ctx_err (conn_ctxs t) (length (conn_ctxs c)) = ctx_err (conn_ctxs c) (ctx_parent c)"
      "\<And>i. i < length (conn_ctxs c) \<Longrightarrow> ctx_err (conn_ctxs t) i = ctx_err (conn_ctxs c) i"
      "cn_jobs t = (cn_jobs c)(j := (cn_jobs c j)\<lparr>j_defer := ?n, j_pc := JRun (length (conn_ctxs c))\<rparr>)"
    have call: "is_call (j_kind (cn_jobs c j))" using inv_pend_call [OF I s(1)] s(2) by simp
    have st: "started (cn_jobs t j)" using call s(12) by (simp add: started_def)
    show ?thesis
    proof (rule inv_pendI)
      show "\<exists>k < cn_njobs t. started (cn_jobs t k) \<and> j_defer (cn_jobs t k) = n"
        if ni: "entries t n = Some i" for n i
      proof (cases "n = ?n")
        case True
        then show ?thesis using s(1,4,12) st by (intro exI [of _ j]) simp
      next
        case False
        then have "entries c n = Some i" using ni s(9) by simp
        then obtain k where "k < cn_njobs c" "started (cn_jobs c k)" "j_defer (cn_jobs c k) = n"
          using inv_pend_entry [OF I] by blast
        moreover from this have "k \<noteq> j" using s(2) by (auto simp: started_def)
        ultimately show ?thesis using s(4,12) by (intro exI [of _ k]) simp
      qed
      show "ctx_err (conn_ctxs t) (ctx_parent t) \<noteq> None"
        if "entries t n = Some i" "ctx_err (conn_ctxs t) i \<noteq> None" for n i
        using that inv_pend_err [OF I, of n i] entry_old [OF I, of n i] s(7-11)
        by (cases "n = ?n") auto
      show "is_call (j_kind (cn_jobs t k))" if "k < cn_njobs t"
        "call_only (j_pc (cn_jobs t k))" for k
        using that inv_pend_call [OF I, of k] s(4,12) call by (cases "k = j") auto
      show "j_defer (cn_jobs t k) = req_seq (j_head (cn_jobs t k))"
        if "k < cn_njobs t" "started (cn_jobs t k)" for k
        using that inv_pend_defer [OF I, of k] s(4,12) by (cases "k = j") auto
    qed (use s inv_pend_wf [OF I] in simp_all)
  qed
qed

lemma inv_pend_cancel:
  assumes "inv_reqs c" "inv_pend c"
    and cancel: "j < cn_njobs c" "cn_store t = pend_cancel (cn_pend c) n (cn_store c)" "cn_pend t = cn_pend c"
      "cn_cancels t = cn_cancels c @ [n]" "cn_njobs t = cn_njobs c"
      "\<And>j. j < cn_njobs c \<Longrightarrow> same_job (cn_jobs c j) (cn_jobs t j)"
  shows "inv_pend t"
proof -
  note I = assms(2)
  note W = inv_pend_wf [OF I]
  have e: "entries t = (entries c)(n := None)" "ctx_parent t = ctx_parent c"
    using cancel(2,3) by (simp_all add: ctx_parent_def)
  show ?thesis
  proof (rule inv_pendI)
    show "\<exists>k < cn_njobs t. started (cn_jobs t k) \<and> j_defer (cn_jobs t k) = m"
      if "entries t m = Some i" for m i
      using that inv_pend_entry [OF I, of m i] e(1) cancel(5,6) by (fastforce simp: same_job_def split: if_splits)
    show "ctx_err (conn_ctxs t) (ctx_parent t) \<noteq> None"
      if "entries t m = Some i" "ctx_err (conn_ctxs t) i \<noteq> None" for m i
      using that e inv_pend_err [OF I, of m i] pend_cancel_others [OF W] cancel(2)
      by (auto simp: ctx_parent_def split: if_splits)
    show "is_call (j_kind (cn_jobs t k))" if "k < cn_njobs t"
      "call_only (j_pc (cn_jobs t k))" for k
      using that inv_pend_call [OF I, of k] cancel(5) cancel(6) [of k] by (auto simp: same_job_def started_def)
    show "j_defer (cn_jobs t k) = req_seq (j_head (cn_jobs t k))"
      if "k < cn_njobs t" "started (cn_jobs t k)" for k
      using that inv_pend_defer [OF I, of k] cancel(5) cancel(6) [of k] by (simp add: same_job_def)
  qed (use cancel W wf_pend_cancel in simp_all)
qed

lemma inv_pend_finish:
  assumes "inv_reqs c" "inv_pend c"
    and finish: "job_finish j c = Some t"
  shows "inv_pend t"
proof -
  note I = assms(2)
  note W = inv_pend_wf [OF I]
  let ?n = "j_defer (cn_jobs c j)"
  from finish have f: "j < cn_njobs c" "j_pc (cn_jobs c j) = JFreed"
    "t = set_pc j JDone (c\<lparr>cn_store := pend_cancel (cn_pend c) ?n (cn_store c)\<rparr>)"
    by (auto elim: job_finishE)
  have e: "entries t = (entries c)(?n := None)" "ctx_parent t = ctx_parent c"
    using f(3) by (simp_all add: ctx_parent_def)
  show ?thesis
  proof (rule inv_pendI)
    show "\<exists>k < cn_njobs t. started (cn_jobs t k) \<and> j_defer (cn_jobs t k) = m"
      if mi: "entries t m = Some i" for m i
    proof -
      from mi e(1) have "entries c m = Some i" "m \<noteq> ?n" by (auto split: if_splits)
      then obtain k where "k < cn_njobs c" "started (cn_jobs c k)" "j_defer (cn_jobs c k) = m"
        using inv_pend_entry [OF I] by blast
      then show ?thesis using f(3) \<open>m \<noteq> ?n\<close> by (intro exI [of _ k]) auto
    qed
    show "ctx_err (conn_ctxs t) (ctx_parent t) \<noteq> None"
      if "entries t m = Some i" "ctx_err (conn_ctxs t) i \<noteq> None" for m i
      using that e inv_pend_err [OF I, of m i] pend_cancel_others [OF W] f(3)
      by (auto simp: ctx_parent_def split: if_splits)
    show "is_call (j_kind (cn_jobs t k))" if "k < cn_njobs t"
      "call_only (j_pc (cn_jobs t k))" for k
      using that inv_pend_call [OF I, of k] f(3) by (auto split: if_splits)
    show "j_defer (cn_jobs t k) = req_seq (j_head (cn_jobs t k))"
      if "k < cn_njobs t" "started (cn_jobs t k)" for k
      using that inv_pend_defer [OF I, of k] f(3) by (auto simp: started_def split: if_splits)
  qed (use f W wf_pend_cancel in simp_all)
qed

lemma inv_pend_ended:
  assumes "inv_reqs c" "inv_pend c"
    and ended: "below (conn_ctxs c) i (ctx_parent c)"
      "t = c\<lparr>cn_store := (cn_store c)\<lparr>ss_ctxs := std_cancel i e (conn_ctxs c)\<rparr>\<rparr>"
  shows "inv_pend t"
proof -
  note I = assms(2)
  have p: "ctx_parent c < length (conn_ctxs c)"
    using wf_svc_parent [OF inv_pend_wf [OF I]] by (simp add: ctx_parent_def)
  show ?thesis
    by (rule inv_pendI)
       (use ended p inv_pend_wf [OF I] inv_pend_call [OF I] inv_pend_defer [OF I] inv_pend_entry [OF I]
          wf_end_context in \<open>auto simp: ctx_parent_def ctx_err_cancel\<close>)
qed

lemma inv_pend_step:
  assumes "conn_step c t" "inv_reqs c" "inv_pend c"
  shows "inv_pend t"
  using assms(1)
proof (cases rule: conn_step_pend)
  case same
  show ?thesis by (rule inv_pend_same [OF assms(2-3) same])
next
  case (added k pc res a)
  show ?thesis by (rule inv_pend_added [OF assms(2-3) added])
next
  case (start j)
  show ?thesis by (rule inv_pend_start [OF assms(2-3) start])
next
  case (cancel j n)
  show ?thesis by (rule inv_pend_cancel [OF assms(2-3) cancel])
next
  case (finish j)
  show ?thesis by (rule inv_pend_finish [OF assms(2-3) finish])
next
  case (ended i e)
  show ?thesis by (rule inv_pend_ended [OF assms(2-3) ended])
qed


section \<open>Running methods\<close>

text \<open>The client has given every call a number of its own.\<close>

definition numbers_distinct :: "conn \<Rightarrow> bool" where
  "numbers_distinct c \<longleftrightarrow>
     inj_on (\<lambda>j. req_seq (j_head (cn_jobs c j))) {j. j < cn_njobs c \<and> is_call (j_kind (cn_jobs c j))}"

definition ended_by_cancel :: "conn \<Rightarrow> nat \<Rightarrow> nat \<Rightarrow> bool" where
  "ended_by_cancel c j i \<longleftrightarrow> j_defer (cn_jobs c j) \<in> set (cn_cancels c) \<and> i < length (conn_ctxs c) \<and>
     ctx_err (conn_ctxs c) i \<noteq> None"

definition inv_run :: "conn \<Rightarrow> bool" where
  "inv_run c \<longleftrightarrow> numbers_distinct c \<longrightarrow>
     (\<forall>j < cn_njobs c. \<forall>i. run_of (j_pc (cn_jobs c j)) = Some i \<longrightarrow>
        entries c (j_defer (cn_jobs c j)) = Some i \<or> ended_by_cancel c j i)"

lemma inv_runD:
  "inv_run c \<Longrightarrow> numbers_distinct c \<Longrightarrow> j < cn_njobs c \<Longrightarrow> run_of (j_pc (cn_jobs c j)) = Some i \<Longrightarrow>
   entries c (j_defer (cn_jobs c j)) = Some i \<or> ended_by_cancel c j i"
  unfolding inv_run_def by blast

lemma numbers_distinctD:
  "numbers_distinct c \<Longrightarrow> j < cn_njobs c \<Longrightarrow> k < cn_njobs c \<Longrightarrow> is_call (j_kind (cn_jobs c j)) \<Longrightarrow>
   is_call (j_kind (cn_jobs c k)) \<Longrightarrow> req_seq (j_head (cn_jobs c j)) = req_seq (j_head (cn_jobs c k)) \<Longrightarrow> j = k"
  unfolding numbers_distinct_def inj_on_def by blast

text \<open>Kinds and headers of jobs never change.\<close>

lemma conn_step_heads:
  assumes "conn_step c t"
  shows "cn_njobs c \<le> cn_njobs t \<and> (\<forall>j < cn_njobs c. j_kind (cn_jobs t j) = j_kind (cn_jobs c j) \<and>
    j_head (cn_jobs t j) = j_head (cn_jobs c j))"
  using assms
proof (cases rule: conn_step_pend)
  case same
  then show ?thesis unfolding same_job_def by simp
next
  case (start j)
  then show ?thesis by (auto elim!: job_startE)
next
  case (cancel j n)
  then show ?thesis unfolding same_job_def by simp
next
  case (finish j)
  then show ?thesis by (auto elim!: job_finishE)
qed auto

lemma numbers_distinct_back:
  assumes "conn_step c t" "numbers_distinct t"
  shows "numbers_distinct c"
  unfolding numbers_distinct_def
proof (rule inj_onI)
  fix j k assume "j \<in> {j. j < cn_njobs c \<and> is_call (j_kind (cn_jobs c j))}"
    "k \<in> {j. j < cn_njobs c \<and> is_call (j_kind (cn_jobs c j))}"
    "req_seq (j_head (cn_jobs c j)) = req_seq (j_head (cn_jobs c k))"
  then show "j = k"
    using numbers_distinctD [OF assms(2), of j k] conn_step_heads [OF assms(1)] by simp
qed

text \<open>Two started calls have different numbers.\<close>

lemma started_numbers:
  assumes "inv_pend c" "numbers_distinct c" "j < cn_njobs c" "k < cn_njobs c"
    "started (cn_jobs c k)" "is_call (j_kind (cn_jobs c j))"
    "j_defer (cn_jobs c k) = req_seq (j_head (cn_jobs c j))"
  shows "j = k"
  using numbers_distinctD [OF assms(2-4,6)] inv_pend_defer [OF assms(1,4,5)] assms(5,7)
  by (simp add: started_def)

lemma running_started: "inv_pend c \<Longrightarrow> j < cn_njobs c \<Longrightarrow> run_of (j_pc (cn_jobs c j)) = Some i \<Longrightarrow>
   started (cn_jobs c j)"
  using inv_pend_call [of c j] by (cases "j_pc (cn_jobs c j)") (auto simp: started_def)

lemma inv_runI:
  assumes "\<And>j i. numbers_distinct c \<Longrightarrow> j < cn_njobs c \<Longrightarrow> run_of (j_pc (cn_jobs c j)) = Some i \<Longrightarrow>
    entries c (j_defer (cn_jobs c j)) = Some i \<or> ended_by_cancel c j i"
  shows "inv_run c"
  using assms unfolding inv_run_def by blast

text \<open>A context that has ended stays ended.\<close>

lemma ended_by_cancel_step:
  assumes "conn_step c t" "inv_reqs c" "inv_pend c" "ended_by_cancel c j i"
    "j < cn_njobs c" "started (cn_jobs c j)"
  shows "ended_by_cancel t j i"
  using assms(1)
proof (cases rule: conn_step_pend)
  case same
  then show ?thesis using assms(4,5) by (simp add: ended_by_cancel_def same_job_def)
next
  case (start k)
  then show ?thesis
    using assms(2-6) by (elim job_start_facts [of k c t]) (auto simp: ended_by_cancel_def started_def)
next
  case (cancel k n)
  then show ?thesis
    using assms(4,5) by (auto simp: ended_by_cancel_def same_job_def pend_cancel_err split: option.splits)
next
  case (finish k)
  then show ?thesis
    using assms(4,5) by (auto elim!: job_finishE simp: ended_by_cancel_def pend_cancel_err split: option.splits)
next
  case (ended k e)
  then show ?thesis using assms(4,5) by (auto simp: ended_by_cancel_def ctx_err_cancel)
qed (use assms(4,5) in \<open>auto simp: ended_by_cancel_def\<close>)

lemma inv_run_kept:
  assumes "conn_step c t" "inv_reqs c" "inv_pend c" "inv_run c" "numbers_distinct c"
    "j < cn_njobs c" "run_of (j_pc (cn_jobs c j)) = Some i" "j_defer (cn_jobs t j) = j_defer (cn_jobs c j)"
    "entries t (j_defer (cn_jobs c j)) = entries c (j_defer (cn_jobs c j))"
  shows "entries t (j_defer (cn_jobs t j)) = Some i \<or> ended_by_cancel t j i"
  using inv_runD [OF assms(4-7)] ended_by_cancel_step [OF assms(1-3) _ assms(6) running_started [OF assms(3,6,7)]]
    assms(8,9) by auto

lemma inv_run_start:
  assumes "conn_step c t" "inv_reqs c" "inv_pend c" "inv_run c" and d': "numbers_distinct c"
    and j: "j < cn_njobs t" "run_of (j_pc (cn_jobs t j)) = Some i"
    and start: "job_start k c = Some t"
  shows "entries t (j_defer (cn_jobs t j)) = Some i \<or> ended_by_cancel t j i"
proof -
  note K = inv_run_kept [OF assms(1-4) d']
  from start assms(2,3) show ?thesis
  proof (rule job_start_facts)
    let ?n = "req_seq (j_head (cn_jobs c k))"
    assume s: "k < cn_njobs c" "j_pc (cn_jobs c k) = JStart" "cn_njobs t = cn_njobs c"
      "entries t = (entries c)(?n \<mapsto> length (conn_ctxs c))"
      "cn_jobs t = (cn_jobs c)(k := (cn_jobs c k)\<lparr>j_defer := ?n, j_pc := JRun (length (conn_ctxs c))\<rparr>)"
    have call: "is_call (j_kind (cn_jobs c k))" using inv_pend_call [OF assms(3) s(1)] s(2) by simp
    show ?thesis
    proof (cases "j = k")
      case False
      then have j': "j < cn_njobs c" "run_of (j_pc (cn_jobs c j)) = Some i" using j s(3,5) by simp_all
      have "j_defer (cn_jobs c j) \<noteq> ?n"
        using started_numbers [OF assms(3) d' s(1) j'(1) running_started [OF assms(3) j'] call] False by blast
      then show ?thesis using j' s(4,5) False by (intro K) simp_all
    qed (use j s(4,5) in simp)
  qed
qed

lemma inv_run_cancel:
  assumes "conn_step c t" "inv_reqs c" "inv_pend c" "inv_run c" and d': "numbers_distinct c"
    and j: "j < cn_njobs t" "run_of (j_pc (cn_jobs t j)) = Some i"
    and cancel: "cn_store t = pend_cancel (cn_pend c) n (cn_store c)" "cn_pend t = cn_pend c"
      "cn_cancels t = cn_cancels c @ [n]" "cn_njobs t = cn_njobs c" "\<And>j. j < cn_njobs c \<Longrightarrow> same_job (cn_jobs c j) (cn_jobs t j)"
  shows "entries t (j_defer (cn_jobs t j)) = Some i \<or> ended_by_cancel t j i"
proof -
  note K = inv_run_kept [OF assms(1-4) d']
  from j cancel(4,5) have j': "j < cn_njobs c" "run_of (j_pc (cn_jobs c j)) = Some i"
    "j_defer (cn_jobs t j) = j_defer (cn_jobs c j)" unfolding same_job_def by (metis option.distinct(1))+
  show ?thesis
  proof (cases "n = j_defer (cn_jobs c j) \<and> entries c n = Some i")
    case True
    then have "i < length (conn_ctxs c)" using entry_old [OF assms(3)] by blast
    with True show ?thesis
      using cancel(1-3) j'(3) by (auto simp: ended_by_cancel_def pend_cancel_err)
  next
    case False
    then show ?thesis
      using inv_runD [OF assms(4) d' j'(1,2)] j' cancel(1-3)
        ended_by_cancel_step [OF assms(1-3) _ j'(1) running_started [OF assms(3) j'(1,2)]] by auto
  qed
qed

lemma inv_run_finish:
  assumes "conn_step c t" "inv_reqs c" "inv_pend c" "inv_run c" and d': "numbers_distinct c"
    and j: "j < cn_njobs t" "run_of (j_pc (cn_jobs t j)) = Some i"
    and finish: "job_finish k c = Some t"
  shows "entries t (j_defer (cn_jobs t j)) = Some i \<or> ended_by_cancel t j i"
proof -
  note K = inv_run_kept [OF assms(1-4) d']
  from finish have f: "k < cn_njobs c" "j_pc (cn_jobs c k) = JFreed"
    "t = set_pc k JDone (c\<lparr>cn_store := pend_cancel (cn_pend c) (j_defer (cn_jobs c k)) (cn_store c)\<rparr>)"
    by (auto elim: job_finishE)
  have call: "is_call (j_kind (cn_jobs c k))" using inv_pend_call [OF assms(3) f(1)] f(2) by simp
  then have n: "j_defer (cn_jobs c k) = req_seq (j_head (cn_jobs c k))"
    using inv_pend_defer [OF assms(3) f(1)] f(2) by (simp add: started_def)
  have j': "j < cn_njobs c" "run_of (j_pc (cn_jobs c j)) = Some i" "j \<noteq> k"
    using j f(3) by (auto split: if_splits)
  have "j_defer (cn_jobs c j) \<noteq> j_defer (cn_jobs c k)"
    using started_numbers [OF assms(3) d' f(1) j'(1) running_started [OF assms(3) j'(1,2)] call] j'(3) n by auto
  then show ?thesis using j' f(3) by (intro K) simp_all
qed

lemma inv_run_step:
  assumes "conn_step c t" "inv_reqs c" "inv_pend c" "inv_run c"
  shows "inv_run t"
proof (rule inv_runI)
  fix j i assume d: "numbers_distinct t" and j: "j < cn_njobs t" "run_of (j_pc (cn_jobs t j)) = Some i"
  note d' = numbers_distinct_back [OF assms(1) d]
  note K = inv_run_kept [OF assms d']
  show "entries t (j_defer (cn_jobs t j)) = Some i \<or> ended_by_cancel t j i"
    using assms(1)
  proof (cases rule: conn_step_pend)
    case same
    from j same(4,5) have "j < cn_njobs c" "run_of (j_pc (cn_jobs c j)) = Some i"
      "j_defer (cn_jobs t j) = j_defer (cn_jobs c j)" unfolding same_job_def by (metis option.distinct(1))+
    then show ?thesis using same(1,2) by (intro K) simp_all
  next
    case (added k pc res a)
    then have "run_of pc = None" by auto
    with j added(1) have "j < cn_njobs c" "run_of (j_pc (cn_jobs c j)) = Some i"
      by (auto simp: less_Suc_eq split: if_splits)
    then show ?thesis using added(1) by (intro K) simp_all
  next
    case (start k)
    show ?thesis by (rule inv_run_start [OF assms d' j start])
  next
    case (cancel k n)
    show ?thesis by (rule inv_run_cancel [OF assms d' j cancel(2-6)])
  next
    case (finish k)
    show ?thesis by (rule inv_run_finish [OF assms d' j finish])
  next
    case (ended k e)
    then show ?thesis using j by (intro K) simp_all
  qed
qed


section \<open>All invariants\<close>

definition conn_inv :: "conn \<Rightarrow> bool" where
  "conn_inv c \<longleftrightarrow> inv_reqs c \<and> inv_resps c \<and> inv_answer c \<and> inv_once_wire c \<and> inv_pend c \<and> inv_run c"

lemma conn_inv_step: "conn_step c t \<Longrightarrow> conn_inv c \<Longrightarrow> conn_inv t"
  using inv_reqs_step inv_resps_step inv_answer_step inv_once_wire_step inv_pend_step inv_run_step
  unfolding conn_inv_def by blast

text \<open>What a connection may start from: free lists in order, and its context allocated.\<close>

definition ready_server :: "basic_server \<Rightarrow> nat set \<Rightarrow> nat set \<Rightarrow> gctx \<Rightarrow> svc_store \<Rightarrow> bool" where
  "ready_server s oreqs oresps ctx st \<longleftrightarrow>
     reqs.safe s oreqs \<and> resps.safe s oresps \<and> wf_svc st \<and> g_std ctx < length (ss_ctxs st)"

lemma wf_new_pending:
  assumes "wf_svc st" "g_std ctx < length (ss_ctxs st)" "new_pending ctx st = (p, st')"
  shows "wf_svc st'" "p < ss_npend st'" "pd_m (ss_pend st' p) = Map.empty"
  using assms(3) assms(1,2) unfolding wf_svc_def new_pending_def by (auto simp: less_Suc_eq)

lemma new_conn_inv:
  assumes "ready_server s oreqs oresps ctx st"
  shows "conn_inv (new_conn s oreqs oresps ctx st)"
proof -
  obtain p st' where p: "new_pending ctx st = (p, st')" by fastforce
  from assms have a: "reqs.safe s oreqs" "resps.safe s oresps" "wf_svc st" "g_std ctx < length (ss_ctxs st)"
    by (simp_all add: ready_server_def)
  note w = wf_new_pending [OF a(3,4) p]
  show ?thesis
    using a(1,2) w
    by (simp add: new_conn_def p conn_inv_def inv_reqs_def inv_resps_def inv_answer_def inv_once_wire_def
        inv_pend_def inv_run_def req_users_def resp_users_def)
qed

inductive conn_reach :: "conn \<Rightarrow> bool" where
  conn_new: "ready_server s oreqs oresps ctx st \<Longrightarrow> conn_reach (new_conn s oreqs oresps ctx st)"
| conn_more: "conn_reach c \<Longrightarrow> conn_step c t \<Longrightarrow> conn_reach t"

lemma conn_reach_inv: "conn_reach c \<Longrightarrow> conn_inv c"
  by (induction rule: conn_reach.induct) (auto intro: new_conn_inv conn_inv_step)

lemma conn_invD:
  assumes "conn_inv c"
  shows "inv_reqs c" "inv_resps c" "inv_answer c" "inv_once_wire c" "inv_pend c" "inv_run c"
  using assms by (simp_all add: conn_inv_def)

text \<open>What can have ended the context of a running method.\<close>

lemma running_context_ended:
  assumes "conn_inv c" "numbers_distinct c" "j < cn_njobs c" "j_pc (cn_jobs c j) = JRun i"
    "ctx_err (conn_ctxs c) i \<noteq> None"
  shows "req_seq (j_head (cn_jobs c j)) \<in> set (cn_cancels c) \<or> ctx_err (conn_ctxs c) (ctx_parent c) \<noteq> None"
proof -
  note I = conn_invD [OF assms(1)]
  have r: "run_of (j_pc (cn_jobs c j)) = Some i" using assms(4) by simp
  have "j_defer (cn_jobs c j) = req_seq (j_head (cn_jobs c j))"
    by (rule inv_pend_defer [OF I(5) assms(3) running_started [OF I(5) assms(3) r]])
  then show ?thesis
    using inv_runD [OF I(6) assms(2,3) r] inv_pend_err [OF I(5) _ assms(5)]
    by (auto simp: ended_by_cancel_def)
qed

end
