(* ===== verification/HandlersProps.thy ===== *)
theory HandlersProps
  imports HandlersCtx
begin

text \<open>
  The properties of the jobs of a connection in every reachable state, with other connections working
  on the same free lists and registry.
\<close>

section \<open>Concrete runs\<close>

datatype cact =
    CGet
  | CFill request
  | CSpawn service method_type goval
  | CFail go_error
  | CStart nat
  | CReturn goval "go_error option" nat
  | CPrepare nat
  | CLock nat
  | CWrite nat
  | CFreeResponse nat
  | CFreeRequest nat
  | CFinish nat

fun cact_step :: "cact \<Rightarrow> conn \<Rightarrow> conn option" where
  "cact_step CGet c = conn_get c"
| "cact_step (CFill r) c = conn_fill r c"
| "cact_step (CSpawn sv mt v) c = conn_spawn sv mt v c"
| "cact_step (CFail e) c = conn_fail e c"
| "cact_step (CStart j) c = job_start j c"
| "cact_step (CReturn r e j) c = job_return r e j c"
| "cact_step (CPrepare j) c = job_prepare j c"
| "cact_step (CLock j) c = job_lock j c"
| "cact_step (CWrite j) c = job_write j c"
| "cact_step (CFreeResponse j) c = job_free_response j c"
| "cact_step (CFreeRequest j) c = job_free_request j c"
| "cact_step (CFinish j) c = job_finish j c"

fun cact_run :: "cact list \<Rightarrow> conn \<Rightarrow> conn option" where
  "cact_run [] c = Some c"
| "cact_run (a # as) c = (case cact_step a c of None \<Rightarrow> None | Some t \<Rightarrow> cact_run as t)"

lemma cact_step_sound: "cact_step a c = Some t \<Longrightarrow> conn_step c t"
  by (cases a) (auto intro: conn_step.intros)

lemma cact_run_reach: "conn_reach c \<Longrightarrow> cact_run as c = Some t \<Longrightarrow> conn_reach t"
  by (induction as arbitrary: c)
     (auto split: option.splits dest: cact_step_sound intro: conn_more)

definition idle_conn :: conn where
  "idle_conn = new_conn empty_server {} {} background
     \<lparr>ss_ctxs = root_ctxs, ss_pend = \<lambda>_. \<lparr>pd_m = Map.empty, pd_parent = background\<rparr>, ss_npend = 0\<rparr>"

lemma idle_conn_reach: "conn_reach idle_conn"
  unfolding idle_conn_def
  by (rule conn_new)
     (simp add: ready_server_def reqs.safe_def resps.safe_def empty_server_def wf_svc_def wf_root_ctxs
        background_def)

text \<open>
  \<open>Arith.Add\<close> under number 1 is running when its cancellation arrives under number 2, is carried out
  and answered.
\<close>

definition add_call :: method_type where
  "add_call = \<lparr>mt_method = add_method, mt_arg = TPtr (TBasic ''int''), mt_reply = TPtr (TBasic ''int'')\<rparr>"

definition cancel_call :: method_type where
  "cancel_call = \<lparr>mt_method = gorpc_cancel_method, mt_arg = cancel_args_type, mt_reply = TPtr (TBasic ''bool'')\<rparr>"

definition internal_service :: service where
  "internal_service = \<lparr>sv_name = ''_goRPC_'', sv_rcvr = VNil, sv_typ = gorpc_type, sv_methods = Map.empty\<rparr>"

definition cancelled_run :: "cact list" where
  "cancelled_run =
     [CGet, CFill \<lparr>req_method = ''Arith.Add'', req_seq = 1\<rparr>, CSpawn arith_service add_call (VInt 7), CStart 0,
      CGet, CFill \<lparr>req_method = ''_goRPC_.Cancel'', req_seq = 2\<rparr>,
      CSpawn internal_service cancel_call (VStruct ''CancelArgs'' [(''Seq'', VUint 1)]), CStart 1,
      CReturn VNil None 1, CPrepare 1, CLock 1, CWrite 1]"

lemmas conn_eval [run_eval] =
  conn_get_def conn_fill_def conn_spawn_def conn_fail_def add_job_def job_start_def job_return_def
  job_prepare_def job_lock_def job_write_def job_free_response_def job_free_request_def job_finish_def
  finish_method_def set_pc_def get_request_def free_request_def get_response_def free_response_def
  set_request_def req_obj_def resp_obj_def prepare_response_def pool_get_def pool_put_def pool_write_def
  new_pool_def idle_conn_def new_conn_def new_pending_def empty_server_def pend_start_def with_cancel_def
  std_derive_def root_ctxs_def background_def pend_set_def decoded_argv_def get_argv_def zero_request_def
  zero_response_def cancel_req_of_def call_cancel_def gorpc_cancel_def set_pending_def pend_cancel_def
  ctx_cancel_def add_call_def cancel_call_def internal_service_def get_replyv_def err_msg_def is_prefix_of_def
  Let_def

lemma cancelled_run_ends: "\<exists>c. cact_run cancelled_run idle_conn = Some c \<and> cn_njobs c = 2 \<and>
    cn_wire c = [(1, \<lparr>resp_seq = 2, resp_error = []\<rparr>, VPtr (VBool False))] \<and>
    j_pc (cn_jobs c 0) = JRun 2 \<and> ctx_err (conn_ctxs c) 2 = Some Canceled \<and> cn_cancels c = [1] \<and>
    req_seq (j_head (cn_jobs c 0)) = 1 \<and> req_seq (j_head (cn_jobs c 1)) = 2"
  by (simp add: cancelled_run_def run_eval gorpc_cancel_method_def cancel_args_type_def add_method_def
      cancel_func_def std_cancel_def ctx_err_def ctx_up_def below.simps)

lemma cancelled_run_reach:
  obtains c where "conn_reach c" "cn_njobs c = 2"
    "cn_wire c = [(1, \<lparr>resp_seq = 2, resp_error = []\<rparr>, VPtr (VBool False))]"
    "j_pc (cn_jobs c 0) = JRun 2" "ctx_err (conn_ctxs c) 2 = Some Canceled" "cn_cancels c = [1]"
    "req_seq (j_head (cn_jobs c 0)) = 1" "req_seq (j_head (cn_jobs c 1)) = 2"
  using cancelled_run_ends cact_run_reach [OF idle_conn_reach] by blast


section \<open>Properties\<close>

text \<open>
  C11: every response written answers its own request, at most once: it carries the sequence number of
  the header that was read for it and the result of its own method (the reply when there is no error
  text, the placeholder otherwise), although request and response objects are recycled through the
  free lists while other requests and other connections use them.
\<close>

theorem responses_answer_their_own_requests:
  assumes "conn_reach c"
  shows "distinct (map fst (cn_wire c)) \<and>
    (\<forall>(j, resp, body) \<in> set (cn_wire c). j < cn_njobs c \<and>
       (\<exists>r m. j_result (cn_jobs c j) = Some (r, m) \<and>
          resp = \<lparr>resp_seq = req_seq (j_head (cn_jobs c j)), resp_error = m\<rparr> \<and>
          body = (if m = [] then r else invalid_request)))"
proof -
  note I = conn_invD(4) [OF conn_reach_inv [OF assms]]
  show ?thesis
    using inv_wire_distinct [OF I] inv_wire_entry [OF I]
    by (fastforce simp: answer_def split: option.splits)
qed

theorem responses_answer_their_own_requests_witness:
  "\<exists>c resp body. conn_reach c \<and> (1, resp, body) \<in> set (cn_wire c) \<and> resp_seq resp = 2 \<and>
     req_seq (j_head (cn_jobs c 1)) = 2 \<and> (\<exists>r. j_result (cn_jobs c 1) = Some (r, []) \<and> body = r)"
proof -
  obtain c where c: "conn_reach c" "cn_wire c = [(1, \<lparr>resp_seq = 2, resp_error = []\<rparr>, VPtr (VBool False))]"
    "req_seq (j_head (cn_jobs c 1)) = 2" by (rule cancelled_run_reach)
  show ?thesis using responses_answer_their_own_requests [OF c(1)] c by auto
qed

text \<open>
  C18: the free lists never hand one header object to two users: a request object that a job still uses
  is used by no other job, is not the one the reading loop fills, belongs to no other connection, is
  not on the free list, and holds the header that was read for this job; and likewise for response
  objects.
\<close>

theorem header_objects_are_not_shared:
  assumes "conn_reach c" and "j < cn_njobs c"
  shows "(has_req (j_pc (cn_jobs c j)) \<longrightarrow>
      (\<forall>k < cn_njobs c. has_req (j_pc (cn_jobs c k)) \<longrightarrow> j_req (cn_jobs c k) = j_req (cn_jobs c j) \<longrightarrow> k = j) \<and>
      cn_cur c \<noteq> Some (j_req (cn_jobs c j)) \<and> j_req (cn_jobs c j) \<notin> cn_oreqs c \<and>
      j_req (cn_jobs c j) \<notin> set (free_list (bs_reqs (cn_server c))) \<and>
      req_obj (cn_server c) (j_req (cn_jobs c j)) = j_head (cn_jobs c j)) \<and>
    (\<forall>a. resp_of (j_pc (cn_jobs c j)) = Some a \<longrightarrow>
      (\<forall>k < cn_njobs c. resp_of (j_pc (cn_jobs c k)) = Some a \<longrightarrow> k = j) \<and>
      a \<notin> cn_oresps c \<and> a \<notin> set (free_list (bs_resps (cn_server c))))"
proof -
  note I = conn_invD [OF conn_reach_inv [OF assms(1)]]
  have q: "j_req (cn_jobs c j) \<notin> set (free_list (bs_reqs (cn_server c)))" if "has_req (j_pc (cn_jobs c j))"
    using inv_reqs_safe [OF I(1)] req_usersI(2) [OF assms(2) that] unfolding reqs.safe_def by blast
  have r: "a \<notin> set (free_list (bs_resps (cn_server c)))" if "resp_of (j_pc (cn_jobs c j)) = Some a" for a
    using inv_resps_safe [OF I(2)] resp_usersI(2) [OF assms(2) that] unfolding resps.safe_def by blast
  show ?thesis
    using q r inv_reqs_job [OF I(1) assms(2)] inv_reqs_inj [OF I(1) assms(2)]
      inv_resps_job [OF I(2) assms(2)] inv_resps_inj [OF I(2) assms(2)] by blast
qed

theorem header_objects_are_not_shared_witness:
  "\<exists>c. conn_reach c \<and> has_req (j_pc (cn_jobs c 0)) \<and> req_seq (req_obj (cn_server c) (j_req (cn_jobs c 0))) = 1"
proof -
  obtain c where c: "conn_reach c" "cn_njobs c = 2" "j_pc (cn_jobs c 0) = JRun 2"
    "req_seq (j_head (cn_jobs c 0)) = 1" by (rule cancelled_run_reach)
  show ?thesis using header_objects_are_not_shared [OF c(1), of 0] c by (intro exI [of _ c]) auto
qed

text \<open>
  At most one goroutine of a connection is inside \<open>WriteResponse\<close>, and it is the one that holds
  \<open>sending\<close>.
\<close>

theorem one_response_is_written_at_a_time:
  assumes "conn_reach c" and "j < cn_njobs c" and "is_writing (j_pc (cn_jobs c j))"
  shows "cn_sending c = Some j \<and>
    (\<forall>k < cn_njobs c. is_writing (j_pc (cn_jobs c k)) \<longrightarrow> k = j) \<and> j \<notin> fst ` set (cn_wire c)"
proof -
  note I = conn_invD(4) [OF conn_reach_inv [OF assms(1)]]
  have "cn_sending c = Some j" using inv_wire_sending [OF I, of j] assms(2,3) by blast
  moreover have "k = j" if "k < cn_njobs c" "is_writing (j_pc (cn_jobs c k))" for k
    using inv_wire_sending [OF I, of k] that calculation by simp
  moreover have "\<not> has_answered (j_pc (cn_jobs c j))" using assms(3) by (cases "j_pc (cn_jobs c j)") auto
  ultimately show ?thesis using inv_wire_entry [OF I] by auto
qed

theorem one_response_is_written_at_a_time_witness:
  "\<exists>c. conn_reach c \<and> is_writing (j_pc (cn_jobs c 1)) \<and> cn_sending c = Some 1"
proof -
  obtain c where c: "cact_run (take 11 cancelled_run) idle_conn = Some c" "cn_njobs c = 2"
    "is_writing (j_pc (cn_jobs c 1))"
    by (simp add: cancelled_run_def run_eval gorpc_cancel_method_def cancel_args_type_def add_method_def
        cancel_func_def)
  have r: "conn_reach c" by (rule cact_run_reach [OF idle_conn_reach c(1)])
  show ?thesis using one_response_is_written_at_a_time [OF r _ c(3)] r c by auto
qed

text \<open>
  C14: when the peer numbers its calls distinctly, the context of a method that is still running has
  ended only if a \<open>_goRPC_.Cancel\<close> for its number was carried out, or the context the whole connection
  is served under has ended: nobody else's return or cancellation ends it.
\<close>

theorem running_method_is_ended_only_by_its_cancel:
  assumes "conn_reach c" and "numbers_distinct c" and "j < cn_njobs c" and "j_pc (cn_jobs c j) = JRun i"
    and "ctx_err (conn_ctxs c) i \<noteq> None"
  shows "req_seq (j_head (cn_jobs c j)) \<in> set (cn_cancels c) \<or>
    ctx_err (conn_ctxs c) (ctx_parent c) \<noteq> None"
  by (rule running_context_ended [OF conn_reach_inv [OF assms(1)] assms(2-5)])

theorem running_method_is_ended_only_by_its_cancel_witness:
  "\<exists>c. conn_reach c \<and> j_pc (cn_jobs c 0) = JRun 2 \<and> ctx_err (conn_ctxs c) 2 = Some Canceled \<and>
     (1 \<in> set (cn_cancels c) \<or> ctx_err (conn_ctxs c) (ctx_parent c) \<noteq> None)"
proof -
  obtain c where c: "conn_reach c" "cn_njobs c = 2" "j_pc (cn_jobs c 0) = JRun 2"
    "ctx_err (conn_ctxs c) 2 = Some Canceled" "req_seq (j_head (cn_jobs c 0)) = 1"
    "req_seq (j_head (cn_jobs c 1)) = 2" by (rule cancelled_run_reach)
  have "numbers_distinct c"
    using c(2,5,6) by (auto simp: numbers_distinct_def inj_on_def less_Suc_eq numeral_2_eq_2)
  moreover have "0 < cn_njobs c" using c(2) by simp
  ultimately show ?thesis
    using running_method_is_ended_only_by_its_cancel [OF c(1) _ _ c(3)] c by (intro exI [of _ c]) auto
qed

text \<open>
  The map of pending requests does not leak: an entry belongs to a request whose method has been
  started and whose deferred \<open>Cancel\<close> has not run; once every handler has ended the map is empty.
\<close>

theorem pending_map_holds_running_requests_only:
  assumes "conn_reach c"
  shows "(\<forall>n i. entries c n = Some i \<longrightarrow>
      (\<exists>j < cn_njobs c. started (cn_jobs c j) \<and> req_seq (j_head (cn_jobs c j)) = n)) \<and>
    ((\<forall>j < cn_njobs c. j_pc (cn_jobs c j) = JDone) \<longrightarrow> entries c = Map.empty)"
proof -
  note I = conn_invD(5) [OF conn_reach_inv [OF assms]]
  have e: "\<exists>j < cn_njobs c. started (cn_jobs c j) \<and> req_seq (j_head (cn_jobs c j)) = n"
    if "entries c n = Some i" for n i
    using inv_pend_entry [OF I that] inv_pend_defer [OF I] by metis
  moreover have "entries c n = None" if "\<forall>j < cn_njobs c. j_pc (cn_jobs c j) = JDone" for n
    using e [of n] that by (cases "entries c n") (auto simp: started_def)
  ultimately show ?thesis by blast
qed

theorem pending_map_holds_running_requests_only_witness:
  "\<exists>c. conn_reach c \<and> entries c 2 \<noteq> None \<and> started (cn_jobs c 1) \<and> req_seq (j_head (cn_jobs c 1)) = 2"
proof -
  obtain c where c: "cact_run cancelled_run idle_conn = Some c" "cn_njobs c = 2" "entries c 2 = Some 3"
    "req_seq (j_head (cn_jobs c 0)) = 1" "req_seq (j_head (cn_jobs c 1)) = 2"
    by (simp add: cancelled_run_def run_eval gorpc_cancel_method_def cancel_args_type_def add_method_def
        cancel_func_def)
  have r: "conn_reach c" by (rule cact_run_reach [OF idle_conn_reach c(1)])
  from pending_map_holds_running_requests_only [OF r] c(3)
  obtain j where "j < cn_njobs c" "started (cn_jobs c j)" "req_seq (j_head (cn_jobs c j)) = 2" by blast
  with c have "started (cn_jobs c 1)" by (cases j) (auto simp: less_Suc_eq numeral_2_eq_2)
  with r c show ?thesis by auto
qed

lemma job_start_runs:
  assumes "job_start j c = Some t" "inv_reqs c" "inv_pend c"
  shows "\<exists>i. j_pc (cn_jobs t j) = JRun i \<and> ctx_err (conn_ctxs t) i = ctx_err (conn_ctxs c) (ctx_parent c)"
  by (rule job_start_facts [OF assms]) simp

text \<open>\<open>Cancel\<close> with a request's number ends the context its method runs with.\<close>

lemma cancel_ends_running:
  assumes "conn_inv c" "conn_step c t" "numbers_distinct c" "j < cn_njobs c" "j_pc (cn_jobs c j) = JRun i"
    and "cn_store t = pend_cancel (cn_pend c) (req_seq (j_head (cn_jobs c j))) (cn_store c)"
  shows "ctx_err (conn_ctxs t) i \<noteq> None"
proof -
  note I = conn_invD [OF assms(1)]
  have r: "run_of (j_pc (cn_jobs c j)) = Some i" using assms(5) by simp
  note s = running_started [OF I(5) assms(4) r]
  have d: "j_defer (cn_jobs c j) = req_seq (j_head (cn_jobs c j))" by (rule inv_pend_defer [OF I(5) assms(4) s])
  from inv_runD [OF I(6) assms(3,4) r] show ?thesis
  proof
    assume e: "entries c (j_defer (cn_jobs c j)) = Some i"
    then show ?thesis using assms(6) d entry_old [OF I(5) e] by (auto simp: pend_cancel_err)
  next
    assume "ended_by_cancel c j i"
    then show ?thesis
      using ended_by_cancel_step [OF assms(2) I(1,5) _ assms(4) s] by (simp add: ended_by_cancel_def)
  qed
qed

text \<open>
  C15: when the method \<open>_goRPC_.Cancel\<close> returns for the number of another call, what it has done depends on
  how far that call's goroutine has come. If its method is running, the method's context has ended. If the
  goroutine has not yet reached \<open>pending.Start\<close>, because \<open>service.call\<close> runs it after the loop has read on,
  the cancellation is lost: it changes no context and no entry, is answered as a success, and the method
  is then started with a context that has not ended.
\<close>

theorem cancel_reaches_a_started_call_only:
  assumes "conn_reach c" and "numbers_distinct c" and "j < cn_njobs c" and "is_call (j_kind (cn_jobs c j))"
    and "j_pc (cn_jobs c k) = JRun m" and "j_kind (cn_jobs c k) = JCall sv mt argv"
    and "gm_func (mt_method mt) = cancel_func" and "sv_name sv = ''_goRPC_''"
    and "ca_seq (cancel_req_of argv) = req_seq (j_head (cn_jobs c j))" and "job_return r e k c = Some t"
    and "j \<noteq> k"
  shows "j_result (cn_jobs t k) = Some (get_replyv mt, []) \<and> cn_panic t = cn_panic c \<and>
    (\<forall>i. j_pc (cn_jobs c j) = JRun i \<longrightarrow> ctx_err (conn_ctxs t) i \<noteq> None) \<and>
    (j_pc (cn_jobs c j) = JStart \<longrightarrow> cn_store t = cn_store c \<and>
       (\<exists>u i. job_start j t = Some u \<and> j_pc (cn_jobs u j) = JRun i \<and>
          ctx_err (conn_ctxs u) i = ctx_err (conn_ctxs c) (ctx_parent c)))"
proof (intro conjI allI impI)
  note I = conn_invD [OF conn_reach_inv [OF assms(1)]]
  let ?n = "req_seq (j_head (cn_jobs c j))"
  have t: "cn_store t = pend_cancel (cn_pend c) ?n (cn_store c)" "cn_pend t = cn_pend c"
    "j_result (cn_jobs t k) = Some (get_replyv mt, [])" "cn_panic t = cn_panic c" "cn_njobs t = cn_njobs c"
    "cn_server t = cn_server c" "cn_jobs t j = cn_jobs c j"
    using assms(5-11) by (auto elim!: job_returnE simp: call_cancel_def gorpc_cancel_def set_pending_def err_msg_def)
  show "j_result (cn_jobs t k) = Some (get_replyv mt, [])" "cn_panic t = cn_panic c" using t(3,4) by simp_all
  have st: "conn_step c t" by (rule cs_return [OF assms(10)])
  note It = conn_invD [OF conn_reach_inv [OF conn_more [OF assms(1) st]]]
  show "ctx_err (conn_ctxs t) i \<noteq> None" if i: "j_pc (cn_jobs c j) = JRun i" for i
    by (rule cancel_ends_running [OF conn_reach_inv [OF assms(1)] st assms(2,3) i t(1)])
  assume p: "j_pc (cn_jobs c j) = JStart"
  have "entries c ?n = None"
  proof (rule ccontr)
    assume "entries c ?n \<noteq> None"
    then obtain l where "l < cn_njobs c" "started (cn_jobs c l)" "j_defer (cn_jobs c l) = ?n"
      using inv_pend_entry [OF I(5)] by blast
    then have "j = l" "started (cn_jobs c l)" using started_numbers [OF I(5) assms(2,3) _ _ assms(4)] by blast+
    with p show False by (simp add: started_def)
  qed
  then show s: "cn_store t = cn_store c" using t(1) by (simp add: pend_cancel_def)
  obtain u where u: "job_start j t = Some u"
    using p t(5,7) assms(3) by (simp add: job_start_def split_def Let_def)
  have "ctx_parent t = ctx_parent c" using s t(2) by (simp add: ctx_parent_def)
  with u s show "\<exists>u i. job_start j t = Some u \<and> j_pc (cn_jobs u j) = JRun i \<and>
      ctx_err (conn_ctxs u) i = ctx_err (conn_ctxs c) (ctx_parent c)"
    using job_start_runs [OF u It(1,5)] by fastforce
qed

text \<open>The goroutine of the cancellation overtakes the one of \<open>Arith.Add\<close>.\<close>

definition overtaking_run :: "cact list" where
  "overtaking_run = filter (\<lambda>a. a \<noteq> CStart 0) (take 8 cancelled_run)"

theorem cancel_reaches_a_started_call_only_witness:
  "\<exists>c t u i. conn_reach c \<and> job_return VNil None 1 c = Some t \<and> cn_cancels t = [1] \<and>
     j_result (cn_jobs t 1) = Some (VPtr (VBool False), []) \<and> job_start 0 t = Some u \<and>
     req_seq (j_head (cn_jobs u 0)) = 1 \<and> j_pc (cn_jobs u 0) = JRun i \<and> ctx_err (conn_ctxs u) i = None"
proof -
  have "\<exists>c. cact_run overtaking_run idle_conn = Some c \<and> cn_njobs c = 2 \<and>
      j_pc (cn_jobs c 0) = JStart \<and> is_call (j_kind (cn_jobs c 0)) \<and>
      req_seq (j_head (cn_jobs c 0)) = 1 \<and> req_seq (j_head (cn_jobs c 1)) = 2 \<and>
      j_pc (cn_jobs c 1) = JRun 2 \<and> cn_cancels c = [] \<and>
      j_kind (cn_jobs c 1) = JCall internal_service cancel_call (VPtr (VStruct ''CancelArgs'' [(''Seq'', VUint 1)])) \<and>
      ctx_err (conn_ctxs c) (ctx_parent c) = None"
    by (simp add: overtaking_run_def cancelled_run_def run_eval gorpc_cancel_method_def cancel_args_type_def
        add_method_def cancel_func_def ctx_parent_def ctx_err_def ctx_up_def)
  then obtain c where c: "cact_run overtaking_run idle_conn = Some c" "cn_njobs c = 2"
    "j_pc (cn_jobs c 0) = JStart" "is_call (j_kind (cn_jobs c 0))" "req_seq (j_head (cn_jobs c 0)) = 1"
    "req_seq (j_head (cn_jobs c 1)) = 2" "j_pc (cn_jobs c 1) = JRun 2" "cn_cancels c = []"
    "j_kind (cn_jobs c 1) = JCall internal_service cancel_call (VPtr (VStruct ''CancelArgs'' [(''Seq'', VUint 1)]))"
    "ctx_err (conn_ctxs c) (ctx_parent c) = None" by (elim exE conjE)
  have r: "conn_reach c" by (rule cact_run_reach [OF idle_conn_reach c(1)])
  have d: "numbers_distinct c"
    using c(2,5,6) by (auto simp: numbers_distinct_def inj_on_def less_Suc_eq numeral_2_eq_2)
  have f: "gm_func (mt_method cancel_call) = cancel_func" "sv_name internal_service = ''_goRPC_''"
    "ca_seq (cancel_req_of (VPtr (VStruct ''CancelArgs'' [(''Seq'', VUint 1)]))) = req_seq (j_head (cn_jobs c 0))"
    "get_replyv cancel_call = VPtr (VBool False)"
    using c(5) by (simp_all add: run_eval gorpc_cancel_method_def)
  obtain t where t: "job_return VNil None 1 c = Some t" "cn_cancels t = [1]" "j_head (cn_jobs t 0) = j_head (cn_jobs c 0)"
    using c(2,5,7-9) f by (auto simp: job_return_def call_cancel_def gorpc_cancel_def set_pending_def finish_method_def Let_def)
  have "0 < cn_njobs c" using c(2) by simp
  note P = cancel_reaches_a_started_call_only [OF r d this c(4,7,9) f(1,2,3) t(1)]
  then obtain u i where u: "job_start 0 t = Some u" "j_pc (cn_jobs u 0) = JRun i" "ctx_err (conn_ctxs u) i = None"
    using c(3,10) by auto
  moreover have "j_head (cn_jobs u 0) = j_head (cn_jobs t 0)" using u(1) by (auto elim!: job_startE)
  ultimately show ?thesis using P r t c(5) f(4) by auto
qed

end
