(* ===== verification/Server.thy ===== *)
theory Server
  imports HandlersProps
begin

text \<open>
  server.go: \<open>ServeCodec\<close>, the loop that reads requests and starts \<open>service.call\<close> for each, and
  \<open>ServeRequestContext\<close>, which serves one request and returns. Both are the same steps on the jobs of a
  connection; \<open>so_once\<close> tells them apart. What the codec returns for a header or a body is an argument
  of the step. \<open>so_headers\<close> and \<open>so_closed\<close> are logs.
\<close>

section \<open>Reading a request\<close>

text \<open>\<open>readRequestHeader\<close>: the error of a header that could not be read; reading stops.\<close>

definition header_error :: "go_error \<Rightarrow> go_error" where
  "header_error e =
     (if e = EOF \<or> e = ErrUnexpectedEOF then e
      else ErrorString (''rpc: server cannot decode request: '' @ error_text e))"

text \<open>
  \<open>readRequest\<close> after a header: without a method the body is read and discarded, whatever that gives;
  otherwise the decoded argument \<open>v\<close> or the decoder's error.
\<close>

definition read_body ::
  "go_error + (service \<times> method_type) \<Rightarrow> go_error + goval \<Rightarrow> go_error + (service \<times> method_type \<times> goval)" where
  "read_body found b =
     (case found of
        Inl e \<Rightarrow> Inl e
      | Inr (sv, mt) \<Rightarrow> (case b of Inl e \<Rightarrow> Inl e | Inr v \<Rightarrow> Inr (sv, mt, v)))"


section \<open>State\<close>

text \<open>
  About to take a request object; in \<open>ReadRequestHeader\<close>; header read and method looked up, in
  \<open>ReadRequestBody\<close>; in \<open>sendResponse\<close> for an error, as job \<open>j\<close>; (once) waiting for \<open>service.call\<close> to
  return; in \<open>wg.Wait\<close>; before the deferred \<open>cancel\<close>; returned.
\<close>

datatype loop_pc =
    LRead
  | LHeader
  | LBody "go_error + (service \<times> method_type)"
  | LReplying nat go_error
  | LCalling nat
  | LWait
  | LCancel
  | LReturned "go_error option"

record serve =
  so_conn :: conn
  so_loop :: loop_pc
  so_once :: bool
  so_headers :: "request list"  \<comment> \<open>log: headers read\<close>
  so_closed :: nat              \<comment> \<open>log: calls of the codec's \<open>Close\<close>\<close>

text \<open>\<open>ServeCodec\<close> on a server where other connections hold \<open>oreqs\<close> and \<open>oresps\<close>.\<close>

definition serve_codec :: "basic_server \<Rightarrow> nat set \<Rightarrow> nat set \<Rightarrow> svc_store \<Rightarrow> serve" where
  "serve_codec s oreqs oresps st =
     (case with_cancel background (ss_ctxs st) of (ctx, h) \<Rightarrow>
        \<lparr>so_conn = new_conn s oreqs oresps ctx (st\<lparr>ss_ctxs := h\<rparr>), so_loop = LRead, so_once = False,
         so_headers = [], so_closed = 0\<rparr>)"

definition serve_request_context ::
  "basic_server \<Rightarrow> nat set \<Rightarrow> nat set \<Rightarrow> gctx \<Rightarrow> svc_store \<Rightarrow> serve" where
  "serve_request_context s oreqs oresps ctx st =
     \<lparr>so_conn = new_conn s oreqs oresps ctx st, so_loop = LRead, so_once = True,
      so_headers = [], so_closed = 0\<rparr>"

definition serve_request :: "basic_server \<Rightarrow> nat set \<Rightarrow> nat set \<Rightarrow> svc_store \<Rightarrow> serve" where
  "serve_request s oreqs oresps st = serve_request_context s oreqs oresps background st"


section \<open>The loop's steps\<close>

definition serve_get :: "serve \<Rightarrow> serve option" where
  "serve_get s =
     (if so_loop s = LRead
      then map_option (\<lambda>c. s\<lparr>so_conn := c, so_loop := LHeader\<rparr>) (conn_get (so_conn s))
      else None)"

definition current_request :: "conn \<Rightarrow> request" where
  "current_request c = req_obj (cn_server c) (case cn_cur c of Some a \<Rightarrow> a | None \<Rightarrow> 0)"

definition serve_header :: "go_error + request \<Rightarrow> serve \<Rightarrow> serve option" where
  "serve_header h s =
     (if so_loop s = LHeader
      then (case h of
              Inl e \<Rightarrow>
                Some (s\<lparr>so_conn := conn_drop (so_conn s),
                        so_loop := (if so_once s then LReturned (Some (header_error e)) else LWait)\<rparr>)
            | Inr r \<Rightarrow>
                (case conn_fill r (so_conn s) of
                   None \<Rightarrow> None
                 | Some c \<Rightarrow>
                     Some (s\<lparr>so_conn := c, so_headers := so_headers s @ [r],
                             so_loop := LBody (get_service (current_request c) (cn_server c))\<rparr>)))
      else None)"

definition serve_body :: "go_error + goval \<Rightarrow> serve \<Rightarrow> serve option" where
  "serve_body b s =
     (case so_loop s of
        LBody found \<Rightarrow>
          (let j = cn_njobs (so_conn s)
           in case read_body found b of
                Inl e \<Rightarrow>
                  map_option (\<lambda>c. s\<lparr>so_conn := c, so_loop := LReplying j e\<rparr>) (conn_fail e (so_conn s))
              | Inr (sv, mt, v) \<Rightarrow>
                  map_option (\<lambda>c. s\<lparr>so_conn := c, so_loop := (if so_once s then LCalling j else LRead)\<rparr>)
                    (conn_spawn sv mt v (so_conn s)))
      | _ \<Rightarrow> None)"

definition job_done :: "conn \<Rightarrow> nat \<Rightarrow> bool" where
  "job_done c j \<longleftrightarrow> j_pc (cn_jobs c j) = JDone"

text \<open>\<open>sendResponse\<close> and \<open>freeRequest\<close>, or \<open>service.call\<close>, have returned to the loop's goroutine.\<close>

definition serve_replied :: "serve \<Rightarrow> serve option" where
  "serve_replied s =
     (case so_loop s of
        LReplying j e \<Rightarrow>
          if job_done (so_conn s) j
          then Some (s\<lparr>so_loop := (if so_once s then LReturned (Some e) else LRead)\<rparr>) else None
      | LCalling j \<Rightarrow>
          if job_done (so_conn s) j then Some (s\<lparr>so_loop := LReturned None\<rparr>) else None
      | _ \<Rightarrow> None)"

text \<open>\<open>wg.Wait()\<close> returns when every \<open>service.call\<close> is done; then \<open>codec.Close()\<close>.\<close>

definition all_calls_done :: "conn \<Rightarrow> bool" where
  "all_calls_done c \<longleftrightarrow>
     (\<forall>j \<in> set [0..<cn_njobs c]. is_call (j_kind (cn_jobs c j)) \<longrightarrow> job_done c j)"

definition serve_close :: "serve \<Rightarrow> serve option" where
  "serve_close s =
     (if so_loop s = LWait \<and> all_calls_done (so_conn s)
      then Some (s\<lparr>so_loop := LCancel, so_closed := Suc (so_closed s)\<rparr>) else None)"

text \<open>The deferred \<open>cancel()\<close>.\<close>

definition serve_cancel :: "serve \<Rightarrow> serve option" where
  "serve_cancel s =
     (if so_loop s = LCancel
      then (let c = so_conn s; st = cn_store c
            in Some (s\<lparr>so_conn := c\<lparr>cn_store := st\<lparr>ss_ctxs := ctx_cancel (ctx_parent c) (ss_ctxs st)\<rparr>\<rparr>,
                       so_loop := LReturned None\<rparr>))
      else None)"


section \<open>Interleaving\<close>

text \<open>The jobs' own steps, and what other connections do to the shared parts of the server.\<close>

inductive job_step :: "conn \<Rightarrow> conn \<Rightarrow> bool" where
  js_start: "job_start j c = Some t \<Longrightarrow> job_step c t"
| js_return: "job_return r e j c = Some t \<Longrightarrow> job_step c t"
| js_prepare: "job_prepare j c = Some t \<Longrightarrow> job_step c t"
| js_lock: "job_lock j c = Some t \<Longrightarrow> job_step c t"
| js_write: "job_write j c = Some t \<Longrightarrow> job_step c t"
| js_free_response: "job_free_response j c = Some t \<Longrightarrow> job_step c t"
| js_free_request: "job_free_request j c = Some t \<Longrightarrow> job_step c t"
| js_finish: "job_finish j c = Some t \<Longrightarrow> job_step c t"

inductive env_step :: "conn \<Rightarrow> conn \<Rightarrow> bool" where
  es_get_request: "get_request (cn_server c) = (a, s) \<Longrightarrow>
    env_step c (c\<lparr>cn_server := s, cn_oreqs := insert a (cn_oreqs c)\<rparr>)"
| es_set_request: "a \<in> cn_oreqs c \<Longrightarrow> env_step c (c\<lparr>cn_server := set_request a r (cn_server c)\<rparr>)"
| es_free_request: "a \<in> cn_oreqs c \<Longrightarrow>
    env_step c (c\<lparr>cn_server := free_request a (cn_server c), cn_oreqs := cn_oreqs c - {a}\<rparr>)"
| es_get_response: "prepare_response q reply msg (cn_server c) = (a, b, s) \<Longrightarrow>
    env_step c (c\<lparr>cn_server := s, cn_oresps := insert a (cn_oresps c)\<rparr>)"
| es_free_response: "a \<in> cn_oresps c \<Longrightarrow>
    env_step c (c\<lparr>cn_server := free_response a (cn_server c), cn_oresps := cn_oresps c - {a}\<rparr>)"
| es_services: "env_step c (c\<lparr>cn_server := (cn_server c)\<lparr>bs_services := m\<rparr>\<rparr>)"

inductive serve_step :: "serve \<Rightarrow> serve \<Rightarrow> bool" where
  ss_get: "serve_get s = Some t \<Longrightarrow> serve_step s t"
| ss_header: "serve_header h s = Some t \<Longrightarrow> serve_step s t"
| ss_body: "serve_body b s = Some t \<Longrightarrow> serve_step s t"
| ss_replied: "serve_replied s = Some t \<Longrightarrow> serve_step s t"
| ss_close: "serve_close s = Some t \<Longrightarrow> serve_step s t"
| ss_cancel: "serve_cancel s = Some t \<Longrightarrow> serve_step s t"
| ss_job: "job_step (so_conn s) c \<Longrightarrow> serve_step s (s\<lparr>so_conn := c\<rparr>)"
| ss_env: "env_step (so_conn s) c \<Longrightarrow> serve_step s (s\<lparr>so_conn := c\<rparr>)"
| ss_end_context: "so_once s \<Longrightarrow> below (conn_ctxs (so_conn s)) i (ctx_parent (so_conn s)) \<Longrightarrow>
    serve_step s (s\<lparr>so_conn := (so_conn s)
      \<lparr>cn_store := (cn_store (so_conn s))\<lparr>ss_ctxs := std_cancel i e (conn_ctxs (so_conn s))\<rparr>\<rparr>\<rparr>)"

text \<open>The two ways to begin, on a server in order whose background context is alive.\<close>

inductive serve_reach :: "serve \<Rightarrow> bool" where
  sr_codec: "ready_server s oreqs oresps background st \<Longrightarrow> ctx_err (ss_ctxs st) (g_std background) = None \<Longrightarrow>
    serve_reach (serve_codec s oreqs oresps st)"
| sr_once: "ready_server s oreqs oresps ctx st \<Longrightarrow>
    serve_reach (serve_request_context s oreqs oresps ctx st)"
| sr_step: "serve_reach s \<Longrightarrow> serve_step s t \<Longrightarrow> serve_reach t"

inductive_cases job_step_cases: "job_step c t"
inductive_cases serve_step_cases: "serve_step s t"


section \<open>The loop by cases\<close>

lemma serve_getE:
  assumes "serve_get s = Some t"
  obtains c where "so_loop s = LRead" "conn_get (so_conn s) = Some c"
    "t = s\<lparr>so_conn := c, so_loop := LHeader\<rparr>"
  using assms by (auto simp: serve_get_def split: if_splits)

lemma serve_headerE:
  assumes "serve_header h s = Some t"
  obtains (stop) e where "so_loop s = LHeader" "h = Inl e"
      "t = s\<lparr>so_conn := conn_drop (so_conn s),
             so_loop := (if so_once s then LReturned (Some (header_error e)) else LWait)\<rparr>"
  | (header) r c where "so_loop s = LHeader" "h = Inr r" "conn_fill r (so_conn s) = Some c"
      "t = s\<lparr>so_conn := c, so_headers := so_headers s @ [r],
             so_loop := LBody (get_service (current_request c) (cn_server c))\<rparr>"
  using assms by (auto simp: serve_header_def split: if_splits sum.splits option.splits)

lemma serve_bodyE:
  assumes "serve_body b s = Some t"
  obtains (failed) found e c where "so_loop s = LBody found" "read_body found b = Inl e"
      "conn_fail e (so_conn s) = Some c" "t = s\<lparr>so_conn := c, so_loop := LReplying (cn_njobs (so_conn s)) e\<rparr>"
  | (called) found sv mt v c where "so_loop s = LBody found" "read_body found b = Inr (sv, mt, v)"
      "conn_spawn sv mt v (so_conn s) = Some c"
      "t = s\<lparr>so_conn := c, so_loop := (if so_once s then LCalling (cn_njobs (so_conn s)) else LRead)\<rparr>"
  using assms by (auto simp: serve_body_def Let_def split: loop_pc.splits sum.splits)

lemma serve_repliedE:
  assumes "serve_replied s = Some t"
  obtains (replied) j e where "so_loop s = LReplying j e" "job_done (so_conn s) j"
      "t = s\<lparr>so_loop := (if so_once s then LReturned (Some e) else LRead)\<rparr>"
  | (called) j where "so_loop s = LCalling j" "job_done (so_conn s) j" "t = s\<lparr>so_loop := LReturned None\<rparr>"
  using assms by (auto simp: serve_replied_def split: loop_pc.splits if_splits)

lemma serve_closeE:
  assumes "serve_close s = Some t"
  obtains "so_loop s = LWait" "\<And>j. j < cn_njobs (so_conn s) \<Longrightarrow> is_call (j_kind (cn_jobs (so_conn s) j)) \<Longrightarrow>
      job_done (so_conn s) j" "t = s\<lparr>so_loop := LCancel, so_closed := Suc (so_closed s)\<rparr>"
  using assms by (auto simp: serve_close_def all_calls_done_def split: if_splits)

lemma serve_cancelE:
  assumes "serve_cancel s = Some t"
  obtains "so_loop s = LCancel"
    "t = s\<lparr>so_conn := (so_conn s)\<lparr>cn_store := (cn_store (so_conn s))
        \<lparr>ss_ctxs := std_cancel (ctx_parent (so_conn s)) Canceled (conn_ctxs (so_conn s))\<rparr>\<rparr>,
      so_loop := LReturned None\<rparr>"
  using assms by (auto simp: serve_cancel_def ctx_cancel_def Let_def split: if_splits)

lemma job_step_conn: "job_step c t \<Longrightarrow> conn_step c t"
  by (induction rule: job_step.induct) (blast intro: conn_step.intros)+

lemma env_step_conn: "env_step c t \<Longrightarrow> conn_step c t"
  by (induction rule: env_step.induct) (blast intro: conn_step.intros)+

text \<open>Every step of the server is one step of the connection, or none.\<close>

lemma serve_step_conn: "serve_step s t \<Longrightarrow> so_conn t = so_conn s \<or> conn_step (so_conn s) (so_conn t)"
proof (induction rule: serve_step.induct)
  case (ss_get s t)
  then show ?case by (auto elim!: serve_getE intro: conn_step.intros)
next
  case (ss_header h s t)
  then show ?case by (auto elim!: serve_headerE intro: conn_step.intros)
next
  case (ss_body b s t)
  then show ?case by (auto elim!: serve_bodyE intro: conn_step.intros)
next
  case (ss_replied s t)
  then show ?case by (auto elim!: serve_repliedE)
next
  case (ss_close s t)
  then show ?case by (auto elim!: serve_closeE)
next
  case (ss_cancel s t)
  then show ?case by (auto elim!: serve_cancelE simp: ctx_parent_def intro!: conn_step.env_end_context)
next
  case (ss_job s c)
  then show ?case by (simp add: job_step_conn)
next
  case (ss_env s c)
  then show ?case by (simp add: env_step_conn)
next
  case (ss_end_context s i e)
  then show ?case by (auto simp: ctx_parent_def intro!: conn_step.env_end_context)
qed

end
