(* ===== verification/ServerInv.thy ===== *)
theory ServerInv
  imports Server
begin

text \<open>
  Invariants that tie the reading loop to its jobs: one job per header read, in order; an error
  response is finished before the next header is read; the codec is closed when everything is done.
\<close>

section \<open>Steps of the jobs\<close>

lemma conn_step_done:
  "conn_step c t \<Longrightarrow> j < cn_njobs c \<Longrightarrow> j_pc (cn_jobs c j) = JDone \<Longrightarrow> j_pc (cn_jobs t j) = JDone"
  by (induction rule: conn_step.induct) (auto elim!: conn_elims simp: conn_drop_def split: if_splits)

lemma job_step_frame:
  "job_step c t \<Longrightarrow> cn_njobs t = cn_njobs c \<and> cn_cur t = cn_cur c \<and> cn_pend t = cn_pend c"
  by (induction rule: job_step.induct) (auto elim!: conn_elims)

lemma env_step_frame:
  "env_step c t \<Longrightarrow> cn_njobs t = cn_njobs c \<and> cn_cur t = cn_cur c \<and> cn_pend t = cn_pend c \<and>
     cn_jobs t = cn_jobs c \<and> cn_store t = cn_store c \<and> cn_wire t = cn_wire c"
  by (induction rule: env_step.induct) auto

lemma req_obj_free [simp]: "req_obj (free_request a s) = req_obj s"
  "req_obj (free_response a s) = req_obj s" "req_obj (s\<lparr>bs_services := m\<rparr>) = req_obj s"
  by (simp_all add: req_obj_def free_request_def free_response_def pool_put_def)

lemma job_step_req_obj: "job_step c t \<Longrightarrow> req_obj (cn_server t) = req_obj (cn_server c)"
  by (induction rule: job_step.induct)
     (auto elim!: conn_elims dest!: prepare_response_reqs [THEN req_obj_cong])

text \<open>The header the loop is working on stays what it was read to be.\<close>

lemma current_request_kept:
  assumes "job_step c t \<or> env_step c t" "inv_reqs c" "cn_cur c \<noteq> None"
  shows "current_request t = current_request c"
  using assms(1)
proof
  assume "job_step c t"
  then show ?thesis using job_step_req_obj job_step_frame by (simp add: current_request_def)
next
  assume "env_step c t"
  obtain a where a: "cn_cur c = Some a" using assms(3) by blast
  have u: "a \<in> req_users c" "a \<notin> cn_oreqs c" using a req_usersI(3) inv_reqs_cur [OF assms(2)] by auto
  from \<open>env_step c t\<close> a u inv_reqs_safe [OF assms(2)] show ?thesis
  proof (induction rule: env_step.induct)
    case (es_get_request c b s)
    then show ?case using reqs.safe_get(4) [of "cn_server c" "req_users c" b s a] by (simp add: current_request_def)
  next
    case (es_set_request b c r)
    then have "a \<noteq> b" by blast
    with es_set_request show ?case by (simp add: current_request_def)
  next
    case (es_get_response q reply msg c b v s)
    then show ?case
      using req_obj_cong [OF prepare_response_reqs] by (simp add: current_request_def)
  qed (auto simp: current_request_def)
qed

text \<open>Neither the jobs nor other connections end the connection's context.\<close>

lemma job_step_parent:
  assumes "job_step c t" "conn_inv c"
  shows "ctx_err (conn_ctxs t) (ctx_parent t) = ctx_err (conn_ctxs c) (ctx_parent c)"
proof -
  note I = conn_invD [OF assms(2)]
  note W = inv_pend_wf [OF I(5)]
  have same: "ctx_err (conn_ctxs t) (ctx_parent t) = ctx_err (conn_ctxs c) (ctx_parent c)"
    if "cn_store t = cn_store c" "cn_pend t = cn_pend c" using that by (simp add: ctx_parent_def)
  have cancelled: "ctx_err (conn_ctxs t) (ctx_parent t) = ctx_err (conn_ctxs c) (ctx_parent c)"
    if "cn_store t = pend_cancel (cn_pend c) n (cn_store c)" "cn_pend t = cn_pend c" for n
    using that pend_cancel_others(1) [OF W] by (simp add: ctx_parent_def)
  from assms(1) show ?thesis
  proof (cases rule: job_step.cases)
    case (js_start j)
    from js_start I(1,5) show ?thesis
      by (rule job_start_facts) simp
  next
    case (js_return r e j)
    then show ?thesis
    proof (cases rule: job_returnE)
      case (cancel i sv mt argv)
      then show ?thesis by (intro cancelled [of "ca_seq (cancel_req_of argv)"]) simp_all
    next
      case (panic i sv mt argv)
      then show ?thesis by (intro same) simp_all
    next
      case (user i sv mt argv)
      then show ?thesis by (intro same) simp_all
    qed
  next
    case (js_finish j)
    then show ?thesis
      by (elim job_finishE) (intro cancelled [of "j_defer (cn_jobs c j)"], simp_all)
  qed (auto elim!: conn_elims simp: ctx_parent_def)
qed


section \<open>The loop's invariant\<close>

fun handling :: "loop_pc \<Rightarrow> nat option" where
  "handling (LReplying j e) = Some j"
| "handling (LCalling j) = Some j"
| "handling _ = None"

fun reading :: "loop_pc \<Rightarrow> bool" where
  "reading LHeader = True"
| "reading (LBody f) = True"
| "reading _ = False"

fun has_header :: "loop_pc \<Rightarrow> bool" where
  "has_header (LBody f) = True"
| "has_header _ = False"

fun before_call :: "loop_pc \<Rightarrow> bool" where
  "before_call LRead = True"
| "before_call LHeader = True"
| "before_call (LBody f) = True"
| "before_call _ = False"

fun at_end :: "loop_pc \<Rightarrow> bool" where
  "at_end LCancel = True"
| "at_end (LReturned r) = True"
| "at_end _ = False"

fun is_returned :: "loop_pc \<Rightarrow> bool" where
  "is_returned (LReturned r) = True"
| "is_returned _ = False"

definition inv_loop :: "serve \<Rightarrow> bool" where
  "inv_loop s \<longleftrightarrow>
     so_headers s = map (\<lambda>j. j_head (cn_jobs (so_conn s) j)) [0..<cn_njobs (so_conn s)] @
       (if has_header (so_loop s) then [current_request (so_conn s)] else []) \<and>
     (cn_cur (so_conn s) \<noteq> None \<longleftrightarrow> reading (so_loop s)) \<and>
     (\<forall>j < cn_njobs (so_conn s). j_pc (cn_jobs (so_conn s) j) \<noteq> JDone \<longrightarrow>
        handling (so_loop s) = Some j \<or> (is_call (j_kind (cn_jobs (so_conn s) j)) \<and> \<not> so_once s)) \<and>
     (\<forall>j. handling (so_loop s) = Some j \<longrightarrow> j < cn_njobs (so_conn s)) \<and>
     so_closed s = (if at_end (so_loop s) \<and> \<not> so_once s then 1 else 0) \<and>
     (so_once s \<longrightarrow> so_loop s \<noteq> LWait \<and> so_loop s \<noteq> LCancel) \<and>
     (\<forall>j. so_loop s = LCalling j \<longrightarrow> so_once s) \<and>
     (at_end (so_loop s) \<longrightarrow> (\<forall>j < cn_njobs (so_conn s). j_pc (cn_jobs (so_conn s) j) = JDone)) \<and>
     (so_once s \<longrightarrow> cn_njobs (so_conn s) \<le> 1 \<and> (before_call (so_loop s) \<longrightarrow> cn_njobs (so_conn s) = 0)) \<and>
     (\<not> so_once s \<longrightarrow> \<not> is_returned (so_loop s) \<longrightarrow>
        ctx_err (conn_ctxs (so_conn s)) (ctx_parent (so_conn s)) = None)"

lemma inv_loopD:
  assumes "inv_loop s"
  shows inv_loop_headers: "so_headers s = map (\<lambda>j. j_head (cn_jobs (so_conn s) j)) [0..<cn_njobs (so_conn s)] @
       (if has_header (so_loop s) then [current_request (so_conn s)] else [])"
    and inv_loop_cur: "cn_cur (so_conn s) \<noteq> None \<longleftrightarrow> reading (so_loop s)"
    and inv_loop_open: "j < cn_njobs (so_conn s) \<Longrightarrow> j_pc (cn_jobs (so_conn s) j) \<noteq> JDone \<Longrightarrow>
        handling (so_loop s) = Some j \<or> (is_call (j_kind (cn_jobs (so_conn s) j)) \<and> \<not> so_once s)"
    and inv_loop_handling: "handling (so_loop s) = Some j \<Longrightarrow> j < cn_njobs (so_conn s)"
    and inv_loop_closed: "so_closed s = (if at_end (so_loop s) \<and> \<not> so_once s then 1 else 0)"
    and inv_loop_once: "so_once s \<Longrightarrow> so_loop s \<noteq> LWait \<and> so_loop s \<noteq> LCancel"
    and inv_loop_calling: "so_loop s = LCalling j \<Longrightarrow> so_once s"
    and inv_loop_end: "at_end (so_loop s) \<Longrightarrow> j < cn_njobs (so_conn s) \<Longrightarrow> j_pc (cn_jobs (so_conn s) j) = JDone"
    and inv_loop_one: "so_once s \<Longrightarrow>
        cn_njobs (so_conn s) \<le> 1 \<and> (before_call (so_loop s) \<longrightarrow> cn_njobs (so_conn s) = 0)"
    and inv_loop_ctx: "\<not> so_once s \<Longrightarrow> \<not> is_returned (so_loop s) \<Longrightarrow>
        ctx_err (conn_ctxs (so_conn s)) (ctx_parent (so_conn s)) = None"
  using assms unfolding inv_loop_def by blast+

lemma inv_loopI:
  assumes "so_headers s = map (\<lambda>j. j_head (cn_jobs (so_conn s) j)) [0..<cn_njobs (so_conn s)] @
       (if has_header (so_loop s) then [current_request (so_conn s)] else [])"
    and "cn_cur (so_conn s) \<noteq> None \<longleftrightarrow> reading (so_loop s)"
    and "\<And>j. j < cn_njobs (so_conn s) \<Longrightarrow> j_pc (cn_jobs (so_conn s) j) \<noteq> JDone \<Longrightarrow>
        handling (so_loop s) = Some j \<or> (is_call (j_kind (cn_jobs (so_conn s) j)) \<and> \<not> so_once s)"
    and "\<And>j. handling (so_loop s) = Some j \<Longrightarrow> j < cn_njobs (so_conn s)"
    and "so_closed s = (if at_end (so_loop s) \<and> \<not> so_once s then 1 else 0)"
    and "so_once s \<Longrightarrow> so_loop s \<noteq> LWait \<and> so_loop s \<noteq> LCancel"
    and "\<And>j. so_loop s = LCalling j \<Longrightarrow> so_once s"
    and "\<And>j. at_end (so_loop s) \<Longrightarrow> j < cn_njobs (so_conn s) \<Longrightarrow> j_pc (cn_jobs (so_conn s) j) = JDone"
    and "so_once s \<Longrightarrow> cn_njobs (so_conn s) \<le> 1 \<and> (before_call (so_loop s) \<longrightarrow> cn_njobs (so_conn s) = 0)"
    and "\<not> so_once s \<Longrightarrow> \<not> is_returned (so_loop s) \<Longrightarrow>
        ctx_err (conn_ctxs (so_conn s)) (ctx_parent (so_conn s)) = None"
  shows "inv_loop s"
  unfolding inv_loop_def using assms by blast

text \<open>Steps of jobs and of others.\<close>

lemma inv_loop_conn_step:
  assumes "conn_step (so_conn s) c" "inv_loop s"
    and "cn_njobs c = cn_njobs (so_conn s)" "cn_cur c = cn_cur (so_conn s)"
    and "cn_cur (so_conn s) \<noteq> None \<Longrightarrow> current_request c = current_request (so_conn s)"
    and "\<not> so_once s \<Longrightarrow> ctx_err (conn_ctxs c) (ctx_parent c) =
      ctx_err (conn_ctxs (so_conn s)) (ctx_parent (so_conn s))"
  shows "inv_loop (s\<lparr>so_conn := c\<rparr>)"
proof (rule inv_loopI)
  note I = assms(2) and n = assms(3,4)
  have h: "j_kind (cn_jobs c j) = j_kind (cn_jobs (so_conn s) j)"
    "j_head (cn_jobs c j) = j_head (cn_jobs (so_conn s) j)" if "j < cn_njobs (so_conn s)" for j
    using conn_step_heads [OF assms(1)] that by simp_all
  have r: "has_header (so_loop s) \<Longrightarrow> cn_cur (so_conn s) \<noteq> None"
    using inv_loop_cur [OF I] by (cases "so_loop s") auto
  show "so_headers (s\<lparr>so_conn := c\<rparr>) =
      map (\<lambda>j. j_head (cn_jobs (so_conn (s\<lparr>so_conn := c\<rparr>)) j)) [0..<cn_njobs (so_conn (s\<lparr>so_conn := c\<rparr>))] @
      (if has_header (so_loop (s\<lparr>so_conn := c\<rparr>)) then [current_request (so_conn (s\<lparr>so_conn := c\<rparr>))] else [])"
  proof -
    have "map (\<lambda>j. j_head (cn_jobs c j)) [0..<cn_njobs (so_conn s)] =
        map (\<lambda>j. j_head (cn_jobs (so_conn s) j)) [0..<cn_njobs (so_conn s)]"
      by (simp add: h(2))
    then show ?thesis using inv_loop_headers [OF I] n r assms(5) by simp
  qed
  show "handling (so_loop (s\<lparr>so_conn := c\<rparr>)) = Some j \<or>
      (is_call (j_kind (cn_jobs (so_conn (s\<lparr>so_conn := c\<rparr>)) j)) \<and> \<not> so_once (s\<lparr>so_conn := c\<rparr>))"
    if "j < cn_njobs (so_conn (s\<lparr>so_conn := c\<rparr>))" "j_pc (cn_jobs (so_conn (s\<lparr>so_conn := c\<rparr>)) j) \<noteq> JDone" for j
    using inv_loop_open [OF I, of j] conn_step_done [OF assms(1), of j] h(1) [of j] that n by auto
  show "j_pc (cn_jobs (so_conn (s\<lparr>so_conn := c\<rparr>)) j) = JDone"
    if "at_end (so_loop (s\<lparr>so_conn := c\<rparr>))" "j < cn_njobs (so_conn (s\<lparr>so_conn := c\<rparr>))" for j
    using inv_loop_end [OF I, of j] conn_step_done [OF assms(1), of j] that n by simp
  show "cn_cur (so_conn (s\<lparr>so_conn := c\<rparr>)) \<noteq> None \<longleftrightarrow> reading (so_loop (s\<lparr>so_conn := c\<rparr>))"
    using inv_loop_cur [OF I] n by simp
  show "handling (so_loop (s\<lparr>so_conn := c\<rparr>)) = Some j \<Longrightarrow> j < cn_njobs (so_conn (s\<lparr>so_conn := c\<rparr>))" for j
    using inv_loop_handling [OF I, of j] n by simp
  show "so_loop (s\<lparr>so_conn := c\<rparr>) = LCalling j \<Longrightarrow> so_once (s\<lparr>so_conn := c\<rparr>)" for j
    using inv_loop_calling [OF I, of j] by simp
  show "\<not> so_once (s\<lparr>so_conn := c\<rparr>) \<Longrightarrow> \<not> is_returned (so_loop (s\<lparr>so_conn := c\<rparr>)) \<Longrightarrow>
      ctx_err (conn_ctxs (so_conn (s\<lparr>so_conn := c\<rparr>))) (ctx_parent (so_conn (s\<lparr>so_conn := c\<rparr>))) = None"
    using inv_loop_ctx [OF I] assms(6) by simp
qed (use inv_loop_closed [OF assms(2)] inv_loop_once [OF assms(2)] inv_loop_one [OF assms(2)] assms(3) in simp_all)

text \<open>The loop reads on, or stops reading.\<close>

lemma inv_loop_read:
  assumes I: "inv_loop s" and s: "before_call (so_loop s)"
    and c: "cn_jobs (so_conn t) = cn_jobs (so_conn s)" "cn_njobs (so_conn t) = cn_njobs (so_conn s)"
      "cn_store (so_conn t) = cn_store (so_conn s)" "cn_pend (so_conn t) = cn_pend (so_conn s)"
    and t: "so_once t = so_once s" "so_closed t = so_closed s" "handling (so_loop t) = None"
      "so_loop t \<noteq> LCancel" "so_loop t = LWait \<Longrightarrow> \<not> so_once s" "at_end (so_loop t) \<Longrightarrow> so_once s"
      "cn_cur (so_conn t) \<noteq> None \<longleftrightarrow> reading (so_loop t)"
    and h: "so_headers t = map (\<lambda>j. j_head (cn_jobs (so_conn s) j)) [0..<cn_njobs (so_conn s)] @
       (if has_header (so_loop t) then [current_request (so_conn t)] else [])"
  shows "inv_loop t"
proof -
  have b: "handling (so_loop s) = None" "\<not> at_end (so_loop s)" "\<not> is_returned (so_loop s)"
    using s by (cases "so_loop s"; simp)+
  have p: "ctx_parent (so_conn t) = ctx_parent (so_conn s)" using c by (simp add: ctx_parent_def)
  have n0: "so_once s \<Longrightarrow> cn_njobs (so_conn s) = 0" using inv_loop_one [OF I] s by simp
  show ?thesis
  proof (rule inv_loopI)
    show "handling (so_loop t) = Some j \<or> (is_call (j_kind (cn_jobs (so_conn t) j)) \<and> \<not> so_once t)"
      if "j < cn_njobs (so_conn t)" "j_pc (cn_jobs (so_conn t) j) \<noteq> JDone" for j
      using inv_loop_open [OF I, of j] that c t(1) b(1) by simp
    show "so_closed t = (if at_end (so_loop t) \<and> \<not> so_once t then 1 else 0)"
      using inv_loop_closed [OF I] t b(2) by auto
    show "ctx_err (conn_ctxs (so_conn t)) (ctx_parent (so_conn t)) = None"
      if "\<not> so_once t" "\<not> is_returned (so_loop t)"
      using inv_loop_ctx [OF I] that b(3) c(3) p t(1) by simp
    show "so_once t" if "so_loop t = LCalling j" for j using that t(3) by simp
    show "j_pc (cn_jobs (so_conn t) j) = JDone" if "at_end (so_loop t)" "j < cn_njobs (so_conn t)" for j
      using that t(6) n0 c(2) by simp
  qed (use h c t n0 in auto)
qed

text \<open>The header in hand becomes a job.\<close>

lemma inv_loop_add_job:
  assumes I: "inv_loop s" and s: "so_loop s = LBody found" "cn_cur (so_conn s) = Some a"
    and t: "t = s\<lparr>so_conn := add_job k pc res a (so_conn s), so_loop := l\<rparr>"
    and l: "l = LReplying (cn_njobs (so_conn s)) e \<or> l = LCalling (cn_njobs (so_conn s)) \<and> so_once s \<or>
      l = LRead \<and> is_call k \<and> \<not> so_once s"
  shows "inv_loop t"
proof (rule inv_loopI)
  let ?n = "cn_njobs (so_conn s)"
  have h: "current_request (so_conn s) = req_obj (cn_server (so_conn s)) a"
    using s(2) by (simp add: current_request_def)
  have l': "\<not> at_end l" "\<not> has_header l" "\<not> reading l" "l \<noteq> LWait" "l \<noteq> LCancel" "\<not> is_returned l"
    "handling l = (if l = LRead then None else Some ?n)" "so_once s \<Longrightarrow> \<not> before_call l"
    using l by auto
  show "so_headers t = map (\<lambda>j. j_head (cn_jobs (so_conn t) j)) [0..<cn_njobs (so_conn t)] @
      (if has_header (so_loop t) then [current_request (so_conn t)] else [])"
    using inv_loop_headers [OF I] s t h l' by simp
  show "handling (so_loop t) = Some j \<or> (is_call (j_kind (cn_jobs (so_conn t) j)) \<and> \<not> so_once t)"
    if j: "j < cn_njobs (so_conn t)" "j_pc (cn_jobs (so_conn t) j) \<noteq> JDone" for j
  proof (cases "j = ?n")
    case True
    with l t show ?thesis by auto
  next
    case False
    with j t have "j < ?n" "j_pc (cn_jobs (so_conn s) j) \<noteq> JDone" by (simp_all add: less_Suc_eq)
    with inv_loop_open [OF I this] s(1) t False show ?thesis by simp
  qed
  show "so_closed t = (if at_end (so_loop t) \<and> \<not> so_once t then 1 else 0)"
    using inv_loop_closed [OF I] s(1) t l' by simp
  show "cn_njobs (so_conn t) \<le> 1 \<and> (before_call (so_loop t) \<longrightarrow> cn_njobs (so_conn t) = 0)" if "so_once t"
    using inv_loop_one [OF I] that s(1) t l'(8) by simp
  show "ctx_err (conn_ctxs (so_conn t)) (ctx_parent (so_conn t)) = None"
    if "\<not> so_once t" "\<not> is_returned (so_loop t)"
    using inv_loop_ctx [OF I] that s(1) t by (simp add: ctx_parent_def)
  show "so_once t" if "so_loop t = LCalling j" for j using that l t by auto
  show "j < cn_njobs (so_conn t)" if "handling (so_loop t) = Some j" for j
    using that t l'(7) by (auto split: if_splits)
qed (use t l in auto)

text \<open>The loop moves on when what it waited for is done.\<close>

lemma inv_loop_move:
  assumes I: "inv_loop s" and s: "\<not> reading (so_loop s)" "\<not> is_returned (so_loop s)"
    and c: "so_conn t = so_conn s" "so_headers t = so_headers s" "so_once t = so_once s"
    and t: "\<not> reading (so_loop t)" "handling (so_loop t) = None" "so_once s \<Longrightarrow> is_returned (so_loop t)"
      "so_closed t = (if at_end (so_loop t) \<and> \<not> so_once t then 1 else 0)"
      "so_loop t = LRead \<Longrightarrow> \<not> so_once s"
    and o: "\<And>j. j < cn_njobs (so_conn s) \<Longrightarrow> j_pc (cn_jobs (so_conn s) j) \<noteq> JDone \<Longrightarrow>
        is_call (j_kind (cn_jobs (so_conn s) j)) \<and> \<not> so_once s \<and> \<not> at_end (so_loop t)"
  shows "inv_loop t"
proof (rule inv_loopI)
  have nh: "\<not> reading l \<Longrightarrow> \<not> has_header l" for l by (cases l) simp_all
  have h: "\<not> has_header (so_loop s)" "\<not> has_header (so_loop t)"
    by (rule nh [OF s(1)], rule nh [OF t(1)])
  show "so_headers t = map (\<lambda>j. j_head (cn_jobs (so_conn t) j)) [0..<cn_njobs (so_conn t)] @
      (if has_header (so_loop t) then [current_request (so_conn t)] else [])"
    using inv_loop_headers [OF I] h c by simp
  show "cn_cur (so_conn t) \<noteq> None \<longleftrightarrow> reading (so_loop t)"
    using inv_loop_cur [OF I] s(1) t(1) c by simp
  show "handling (so_loop t) = Some j \<or> (is_call (j_kind (cn_jobs (so_conn t) j)) \<and> \<not> so_once t)"
    if "j < cn_njobs (so_conn t)" "j_pc (cn_jobs (so_conn t) j) \<noteq> JDone" for j
    using o that c by simp
  show "j_pc (cn_jobs (so_conn t) j) = JDone" if "at_end (so_loop t)" "j < cn_njobs (so_conn t)" for j
    using o [of j] that c by auto
  show "so_loop t \<noteq> LWait \<and> so_loop t \<noteq> LCancel" if "so_once t"
    using t(3) c(3) that by (cases "so_loop t") simp_all
  show "cn_njobs (so_conn t) \<le> 1 \<and> (before_call (so_loop t) \<longrightarrow> cn_njobs (so_conn t) = 0)" if "so_once t"
    using inv_loop_one [OF I] t(3) c that by (cases "so_loop t") simp_all
  show "ctx_err (conn_ctxs (so_conn t)) (ctx_parent (so_conn t)) = None"
    if "\<not> so_once t" "\<not> is_returned (so_loop t)"
    using inv_loop_ctx [OF I] that s(2) c by simp
  show "so_once t" if "so_loop t = LCalling j" for j using that t(2) by simp
  show "j < cn_njobs (so_conn t)" if "handling (so_loop t) = Some j" for j using that t(2) by simp
qed (rule t(4))

lemma inv_loop_header:
  assumes "conn_inv (so_conn s)" "inv_loop s"
    and ss_header: "serve_header h s = Some t"
  shows "inv_loop t"
proof -
  note I = assms(2)
  from ss_header show ?thesis
  proof (cases rule: serve_headerE)
    case (stop e)
    show ?thesis
      by (rule inv_loop_read [OF I]) (use inv_loop_headers [OF I] stop in \<open>auto simp: conn_drop_def split: if_splits\<close>)
  next
    case (header r c)
    from header(3) obtain a where a: "cn_cur (so_conn s) = Some a"
      "c = (so_conn s)\<lparr>cn_server := set_request a r (cn_server (so_conn s))\<rparr>" by (rule conn_fillE)
    have "current_request c = r" using a by (simp add: current_request_def)
    then show ?thesis
      by (intro inv_loop_read [OF I]) (use inv_loop_headers [OF I] header a in auto)
  qed
qed

lemma inv_loop_body:
  assumes "conn_inv (so_conn s)" "inv_loop s"
    and ss_body: "serve_body b s = Some t"
  shows "inv_loop t"
proof -
  note I = assms(2)
  from ss_body show ?thesis
  proof (cases rule: serve_bodyE)
    case (failed found e c)
    from failed(3) obtain a where a: "cn_cur (so_conn s) = Some a"
      "c = add_job JError (JReply invalid_request (error_text e)) (Some (invalid_request, error_text e)) a (so_conn s)"
      by (rule conn_failE)
    show ?thesis
      by (rule inv_loop_add_job [OF I failed(1) a(1), where l = "LReplying (cn_njobs (so_conn s)) e" and e = e])
         (use failed(4) a(2) in simp_all)
  next
    case (called found sv mt v c)
    from called(3) obtain a where a: "cn_cur (so_conn s) = Some a"
      "c = add_job (JCall sv mt (decoded_argv mt v)) JStart None a (so_conn s)" by (rule conn_spawnE)
    show ?thesis
      by (rule inv_loop_add_job [OF I called(1) a(1),
            where l = "if so_once s then LCalling (cn_njobs (so_conn s)) else LRead"
              and k = "JCall sv mt (decoded_argv mt v)"])
         (use called(4) a(2) in simp_all)
  qed
qed

lemma inv_loop_replied:
  assumes "conn_inv (so_conn s)" "inv_loop s"
    and ss_replied: "serve_replied s = Some t"
  shows "inv_loop t"
proof -
  note I = assms(2)
  from ss_replied show ?thesis
  proof (cases rule: serve_repliedE)
    case (replied j e)
    have o: "is_call (j_kind (cn_jobs (so_conn s) k)) \<and> \<not> so_once s"
      if "k < cn_njobs (so_conn s)" "j_pc (cn_jobs (so_conn s) k) \<noteq> JDone" for k
      using inv_loop_open [OF I that] that replied(1,2) by (auto simp: job_done_def)
    show ?thesis
      by (rule inv_loop_move [OF I])
         (use replied o inv_loop_closed [OF I] in \<open>auto split: if_splits\<close>)
  next
    case (called j)
    have "so_once s" by (rule inv_loop_calling [OF I called(1)])
    moreover have "j_pc (cn_jobs (so_conn s) k) = JDone" if "k < cn_njobs (so_conn s)" for k
      using inv_loop_open [OF I that] called(1,2) \<open>so_once s\<close> by (auto simp: job_done_def)
    ultimately show ?thesis
      by (intro inv_loop_move [OF I]) (use called inv_loop_closed [OF I] in auto)
  qed
qed

lemma inv_loop_close:
  assumes "conn_inv (so_conn s)" "inv_loop s"
    and ss_close: "serve_close s = Some t"
  shows "inv_loop t"
proof -
  note I = assms(2)
  from ss_close have c: "so_loop s = LWait"
    "\<And>j. j < cn_njobs (so_conn s) \<Longrightarrow> is_call (j_kind (cn_jobs (so_conn s) j)) \<Longrightarrow> job_done (so_conn s) j"
    "t = s\<lparr>so_loop := LCancel, so_closed := Suc (so_closed s)\<rparr>" by (auto elim: serve_closeE)
  have once: "\<not> so_once s" using inv_loop_once [OF I] c(1) by blast
  have fin: "j_pc (cn_jobs (so_conn s) j) = JDone" if "j < cn_njobs (so_conn s)" for j
    using inv_loop_open [OF I that] c(1,2) that by (auto simp: job_done_def)
  show ?thesis
    by (rule inv_loop_move [OF I]) (use inv_loop_closed [OF I] c(1,3) once fin in auto)
qed

lemma inv_loop_cancel:
  assumes "conn_inv (so_conn s)" "inv_loop s"
    and ss_cancel: "serve_cancel s = Some t"
  shows "inv_loop t"
proof -
  note I = assms(2)
  from ss_cancel show ?thesis
  proof (rule serve_cancelE)
    assume c: "so_loop s = LCancel" "t = s\<lparr>so_conn := (so_conn s)\<lparr>cn_store := (cn_store (so_conn s))
        \<lparr>ss_ctxs := std_cancel (ctx_parent (so_conn s)) Canceled (conn_ctxs (so_conn s))\<rparr>\<rparr>,
      so_loop := LReturned None\<rparr>"
    have once: "\<not> so_once s" using inv_loop_once [OF I] c(1) by blast
    have fin: "j_pc (cn_jobs (so_conn s) j) = JDone" if "j < cn_njobs (so_conn s)" for j
      using inv_loop_end [OF I _ that] c(1) by simp
    show ?thesis
      by (rule inv_loopI)
         (use c once fin inv_loop_headers [OF I] inv_loop_cur [OF I] inv_loop_closed [OF I] in auto)
  qed
qed

lemma inv_loop_get:
  assumes "conn_inv (so_conn s)" "inv_loop s"
    and ss_get: "serve_get s = Some t"
  shows "inv_loop t"
proof -
  note I = assms(2)
  from ss_get obtain c where c: "so_loop s = LRead" "conn_get (so_conn s) = Some c"
    "t = s\<lparr>so_conn := c, so_loop := LHeader\<rparr>" by (rule serve_getE)
  from c(2) obtain a d where a: "get_request (cn_server (so_conn s)) = (a, d)"
    "c = (so_conn s)\<lparr>cn_server := d, cn_cur := Some a\<rparr>" by (rule conn_getE)
  show ?thesis
    by (rule inv_loop_read [OF I]) (use inv_loop_headers [OF I] c a in auto)
qed

lemma inv_loop_end_context:
  assumes "conn_inv (so_conn s)" "inv_loop s"
    and ss_end_context:
      "t = s\<lparr>so_conn := (so_conn s) \<lparr>cn_store := (cn_store (so_conn s))\<lparr>ss_ctxs := std_cancel i e (conn_ctxs (so_conn s))\<rparr>\<rparr>\<rparr>"
      "so_once s" "below (conn_ctxs (so_conn s)) i (ctx_parent (so_conn s))"
  shows "inv_loop t"
proof -
  have c: "conn_step (so_conn s) ((so_conn s)
      \<lparr>cn_store := (cn_store (so_conn s))\<lparr>ss_ctxs := std_cancel i e (conn_ctxs (so_conn s))\<rparr>\<rparr>)"
    using ss_end_context(3) by (intro conn_step.env_end_context) (simp add: ctx_parent_def)
  show ?thesis
    unfolding ss_end_context(1)
    by (rule inv_loop_conn_step [OF c assms(2)]) (use ss_end_context(2) in \<open>auto simp: current_request_def\<close>)
qed

lemma inv_loop_step:
  assumes "serve_step s t" "conn_inv (so_conn s)" "inv_loop s"
  shows "inv_loop t"
  using assms(1)
proof (cases rule: serve_step.cases)
  case ss_get
  show ?thesis by (rule inv_loop_get [OF assms(2-3) ss_get])
next
  case (ss_header h)
  show ?thesis by (rule inv_loop_header [OF assms(2-3) ss_header])
next
  case (ss_body b)
  show ?thesis by (rule inv_loop_body [OF assms(2-3) ss_body])
next
  case ss_replied
  show ?thesis by (rule inv_loop_replied [OF assms(2-3) ss_replied])
next
  case ss_close
  show ?thesis by (rule inv_loop_close [OF assms(2-3) ss_close])
next
  case ss_cancel
  show ?thesis by (rule inv_loop_cancel [OF assms(2-3) ss_cancel])
next
  case (ss_job c)
  have "inv_loop (s\<lparr>so_conn := c\<rparr>)"
    using job_step_frame [OF ss_job(2)] current_request_kept [OF disjI1 [OF ss_job(2)]]
      job_step_parent [OF ss_job(2) assms(2)] conn_invD(1) [OF assms(2)]
    by (intro inv_loop_conn_step [OF job_step_conn [OF ss_job(2)] assms(3)]) simp_all
  with ss_job(1) show ?thesis by simp
next
  case (ss_env c)
  have "inv_loop (s\<lparr>so_conn := c\<rparr>)"
    using env_step_frame [OF ss_env(2)] current_request_kept [OF disjI2 [OF ss_env(2)]]
      conn_invD(1) [OF assms(2)]
    by (intro inv_loop_conn_step [OF env_step_conn [OF ss_env(2)] assms(3)]) (simp_all add: ctx_parent_def)
  with ss_env(1) show ?thesis by simp
next
  case (ss_end_context i e)
  show ?thesis by (rule inv_loop_end_context [OF assms(2-3) ss_end_context])
qed

end
