(* ===== verification/BirpcClient.thy ===== *)
theory BirpcClient
  imports ClientProps ServerProps
begin

text \<open>
  birpc_client.go: one connection that is a client and a server. Its state is a client (\<open>basicClient\<close>, the
  operations of BasicClient and Client), a connection that serves requests (\<open>basicServer\<close>, the jobs of
  Handlers) and the loop \<open>input\<close>, which reads both kinds of messages. The loop takes the place of the
  client's own reader: \<open>cl_reader\<close> is where \<open>readResponse\<close> stands. \<open>sending\<close> is the client's \<open>reqMutex\<close>, so
  a step that takes the one needs the other free. What the codec returns is an argument of the step.

  \<open>bp_notified\<close> and \<open>bp_closes\<close> count \<open>close(c.disconnect)\<close> and the calls of the codec's \<open>Close\<close>, by the loop
  and by \<open>basicClient.Close\<close>; \<open>bp_requests\<close> is a log of the request headers read. The field \<open>server\<close> only
  silences a debug message and is left out.
\<close>

section \<open>State\<close>

text \<open>
  About to take a request object; in \<open>ReadHeader\<close>; a request whose method was looked up, in
  \<open>ReadRequestBody\<close>; in \<open>sendResponse\<close> for an error, as job \<open>j\<close>; a response, before \<open>freeRequest\<close>; before
  \<open>readResponse\<close> looks the call up; in \<open>ReadResponseBody\<close>; after the loop; in \<open>wg.Wait\<close>, with the value of
  \<open>closing\<close>; before the last \<open>Close\<close>; before the deferred \<open>cancel\<close>; returned.
\<close>

datatype birpc_pc =
    BRead
  | BHeader
  | BBody "go_error + (service \<times> method_type)"
  | BReplying nat
  | BFree response
  | BLookup response
  | BReply
  | BTerm
  | BWait bool
  | BClose bool
  | BCancel
  | BEnded

record birpc =
  bp_client :: client
  bp_conn :: conn
  bp_loop :: birpc_pc
  bp_notified :: nat
  bp_closes :: nat
  bp_requests :: "request list"

text \<open>
  \<open>NewBirpcClientWithCodec\<close> and the start of \<open>input\<close>, for the client object \<open>me\<close>, on its own server or on
  one that other connections share.
\<close>

definition birpc_start :: "nat \<Rightarrow> basic_server \<Rightarrow> nat set \<Rightarrow> nat set \<Rightarrow> svc_store \<Rightarrow> birpc" where
  "birpc_start me s oreqs oresps st =
     (case with_cancel background (ss_ctxs st) of (ctx, h) \<Rightarrow>
        \<lparr>bp_client = new_basic_client,
         bp_conn = new_conn s oreqs oresps (ctx\<lparr>g_client := Some me\<rparr>) (st\<lparr>ss_ctxs := h\<rparr>),
         bp_loop = BRead, bp_notified = 0, bp_closes = 0, bp_requests = []\<rparr>)"

text \<open>Whether a receive from the channel \<open>DisconnectNotify\<close> returns succeeds: it is closed, nothing is sent.\<close>

definition disconnect_notify :: "birpc \<Rightarrow> bool" where
  "disconnect_notify s \<longleftrightarrow> 0 < bp_notified s"


section \<open>The loop\<close>

definition birpc_get :: "birpc \<Rightarrow> birpc option" where
  "birpc_get s =
     (if bp_loop s = BRead
      then map_option (\<lambda>c. s\<lparr>bp_conn := c, bp_loop := BHeader\<rparr>) (conn_get (bp_conn s))
      else None)"

text \<open>\<open>ReadHeader\<close> returns; a message that names a method is a request.\<close>

definition birpc_header :: "go_error + (request \<times> response) \<Rightarrow> birpc \<Rightarrow> birpc option" where
  "birpc_header h s =
     (if bp_loop s = BHeader
      then (case h of
              Inl e \<Rightarrow>
                map_option (\<lambda>c. s\<lparr>bp_client := c, bp_conn := conn_drop (bp_conn s), bp_loop := BTerm\<rparr>)
                  (input_header (Inl e) (bp_client s))
            | Inr (q, p) \<Rightarrow>
                map_option
                  (\<lambda>c. if req_method (current_request c) \<noteq> []
                       then s\<lparr>bp_conn := c, bp_requests := bp_requests s @ [q],
                              bp_loop := BBody (get_service (current_request c) (cn_server c))\<rparr>
                       else s\<lparr>bp_conn := c, bp_loop := BFree p\<rparr>)
                  (conn_fill q (bp_conn s)))
      else None)"

text \<open>
  \<open>readRequest\<close>: its error (a lookup that failed gives way to the error of discarding the body), or the
  call to start. The error is shadowed in the loop, which reads on.
\<close>

definition unknown_method :: "string \<Rightarrow> go_error" where
  "unknown_method m = ErrorString (''birpc: can'' @ [CHR 0x27] @ ''t find method '' @ m)"

definition birpc_read_body ::
  "string \<Rightarrow> go_error + (service \<times> method_type) \<Rightarrow> go_error + goval \<Rightarrow> go_error + (service \<times> method_type \<times> goval)" where
  "birpc_read_body m found b =
     (case b of
        Inl e \<Rightarrow> Inl e
      | Inr v \<Rightarrow> (case found of Inl e \<Rightarrow> Inl (unknown_method m) | Inr (sv, mt) \<Rightarrow> Inr (sv, mt, v)))"

definition birpc_request :: "go_error + goval \<Rightarrow> birpc \<Rightarrow> birpc option" where
  "birpc_request b s =
     (case bp_loop s of
        BBody found \<Rightarrow>
          (case birpc_read_body (req_method (current_request (bp_conn s))) found b of
             Inl e \<Rightarrow>
               map_option (\<lambda>c. s\<lparr>bp_conn := c, bp_loop := BReplying (cn_njobs (bp_conn s))\<rparr>)
                 (conn_fail e (bp_conn s))
           | Inr (sv, mt, v) \<Rightarrow>
               map_option (\<lambda>c. s\<lparr>bp_conn := c, bp_loop := BRead\<rparr>) (conn_spawn sv mt v (bp_conn s)))
      | _ \<Rightarrow> None)"

definition birpc_replied :: "birpc \<Rightarrow> birpc option" where
  "birpc_replied s =
     (case bp_loop s of
        BReplying j \<Rightarrow> if job_done (bp_conn s) j then Some (s\<lparr>bp_loop := BRead\<rparr>) else None
      | _ \<Rightarrow> None)"

definition birpc_free :: "birpc \<Rightarrow> birpc option" where
  "birpc_free s =
     (case bp_loop s of
        BFree p \<Rightarrow> map_option (\<lambda>c. s\<lparr>bp_conn := c, bp_loop := BLookup p\<rparr>) (conn_free (bp_conn s))
      | _ \<Rightarrow> None)"

text \<open>\<open>readResponse\<close>: the lookup under \<open>mutex\<close>, then the body and \<open>done\<close>; its error ends the loop.\<close>

definition birpc_lookup :: "birpc \<Rightarrow> birpc option" where
  "birpc_lookup s =
     (case bp_loop s of
        BLookup p \<Rightarrow> map_option (\<lambda>c. s\<lparr>bp_client := c, bp_loop := BReply\<rparr>) (input_header (Inr p) (bp_client s))
      | _ \<Rightarrow> None)"

definition birpc_reply :: "go_error + goval \<Rightarrow> birpc \<Rightarrow> birpc option" where
  "birpc_reply b s =
     (if bp_loop s = BReply
      then map_option
        (\<lambda>c. s\<lparr>bp_client := c, bp_loop := (if cl_reader c = RReading then BRead else BTerm)\<rparr>)
        (input_body b (bp_client s))
      else None)"

text \<open>
  The end: with both mutexes, every pending call fails; then \<open>wg.Wait\<close> and \<open>close(c.disconnect)\<close>, the
  codec's \<open>Close\<close> unless the user has closed it, and the deferred \<open>cancel\<close>.
\<close>

definition birpc_terminate :: "u64 list \<Rightarrow> birpc \<Rightarrow> birpc option" where
  "birpc_terminate ks s =
     (if bp_loop s = BTerm \<and> cn_sending (bp_conn s) = None
      then map_option (\<lambda>c. s\<lparr>bp_client := c, bp_loop := BWait (cl_closing (bp_client s))\<rparr>)
        (input_terminate ks (bp_client s))
      else None)"

definition birpc_wait :: "birpc \<Rightarrow> birpc option" where
  "birpc_wait s =
     (case bp_loop s of
        BWait cl \<Rightarrow>
          if all_calls_done (bp_conn s)
          then Some (s\<lparr>bp_notified := Suc (bp_notified s), bp_loop := BClose cl\<rparr>) else None
      | _ \<Rightarrow> None)"

definition birpc_shut :: "birpc \<Rightarrow> birpc option" where
  "birpc_shut s =
     (case bp_loop s of
        BClose cl \<Rightarrow>
          Some (s\<lparr>bp_closes := (if cl then bp_closes s else Suc (bp_closes s)), bp_loop := BCancel\<rparr>)
      | _ \<Rightarrow> None)"

definition birpc_cancel :: "birpc \<Rightarrow> birpc option" where
  "birpc_cancel s =
     (if bp_loop s = BCancel
      then (let c = bp_conn s; st = cn_store c
            in Some (s\<lparr>bp_conn := c\<lparr>cn_store := st\<lparr>ss_ctxs := ctx_cancel (ctx_parent c) (ss_ctxs st)\<rparr>\<rparr>,
                       bp_loop := BEnded\<rparr>))
      else None)"


section \<open>Interleaving\<close>

text \<open>What other goroutines do with the client, handlers that call back included; \<open>free\<close> tells whether
  \<open>sending\<close> is.\<close>

inductive caller_step :: "bool \<Rightarrow> client \<Rightarrow> client \<Rightarrow> bool" where
  ca_make: "make_chan n s = (d, t) \<Longrightarrow> caller_step free s t"
| ca_go: "client_go m a r None s = Some (c, t) \<Longrightarrow> caller_step free s t"
| ca_go_on: "d < cl_nchans s \<Longrightarrow> \<not> private_chan s d \<Longrightarrow>
     client_go m a r (Some d) s = Some (c, t) \<Longrightarrow> caller_step free s t"
| ca_call: "client_call m a r s = Some (c, t) \<Longrightarrow> caller_step free s t"
| ca_enter: "free \<Longrightarrow> send_enter c s = Some t \<Longrightarrow> caller_step free s t"
| ca_write: "send_write w c s = Some t \<Longrightarrow> caller_step free s t"
| ca_unregister: "send_unregister c s = Some t \<Longrightarrow> caller_step free s t"
| ca_receive: "call_receive c s = Some t \<Longrightarrow> caller_step free s t"
| ca_ctx: "call_ctx_done e c s = Some t \<Longrightarrow> caller_step free s t"
| ca_cancelled: "call_cancel_sent c s = Some t \<Longrightarrow> caller_step free s t"
| ca_user_receive: "\<not> private_chan s d \<Longrightarrow> chan_receive d s = Some t \<Longrightarrow> caller_step free s t"

definition birpc_user_close :: "go_error option \<Rightarrow> birpc \<Rightarrow> go_error option \<times> birpc" where
  "birpc_user_close w s =
     (case client_close w (bp_client s) of
        (r, called, c) \<Rightarrow>
          (r, s\<lparr>bp_client := c, bp_closes := (if called then Suc (bp_closes s) else bp_closes s)\<rparr>))"

inductive birpc_step :: "birpc \<Rightarrow> birpc \<Rightarrow> bool" where
  bs_get: "birpc_get s = Some t \<Longrightarrow> birpc_step s t"
| bs_header: "birpc_header h s = Some t \<Longrightarrow> birpc_step s t"
| bs_request: "birpc_request b s = Some t \<Longrightarrow> birpc_step s t"
| bs_replied: "birpc_replied s = Some t \<Longrightarrow> birpc_step s t"
| bs_free: "birpc_free s = Some t \<Longrightarrow> birpc_step s t"
| bs_lookup: "birpc_lookup s = Some t \<Longrightarrow> birpc_step s t"
| bs_reply: "birpc_reply b s = Some t \<Longrightarrow> birpc_step s t"
| bs_terminate: "birpc_terminate ks s = Some t \<Longrightarrow> birpc_step s t"
| bs_wait: "birpc_wait s = Some t \<Longrightarrow> birpc_step s t"
| bs_shut: "birpc_shut s = Some t \<Longrightarrow> birpc_step s t"
| bs_cancel: "birpc_cancel s = Some t \<Longrightarrow> birpc_step s t"
| bs_caller: "caller_step (cn_sending (bp_conn s) = None) (bp_client s) c \<Longrightarrow>
    birpc_step s (s\<lparr>bp_client := c\<rparr>)"
| bs_close: "birpc_user_close w s = (r, t) \<Longrightarrow> birpc_step s t"
| bs_job: "job_step (bp_conn s) c \<Longrightarrow>
    (cn_sending (bp_conn s) = None \<Longrightarrow> cn_sending c \<noteq> None \<Longrightarrow> cl_reqmu (bp_client s) = None) \<Longrightarrow>
    birpc_step s (s\<lparr>bp_conn := c\<rparr>)"
| bs_env: "env_step (bp_conn s) c \<Longrightarrow> birpc_step s (s\<lparr>bp_conn := c\<rparr>)"

inductive birpc_reach :: "birpc \<Rightarrow> bool" where
  br_start: "ready_server s oreqs oresps background st \<Longrightarrow> ctx_err (ss_ctxs st) (g_std background) = None \<Longrightarrow>
    birpc_reach (birpc_start me s oreqs oresps st)"
| br_step: "birpc_reach s \<Longrightarrow> birpc_step s t \<Longrightarrow> birpc_reach t"

end
