(* ===== verification/BirpcInv.thy ===== *)
theory BirpcInv
  imports BirpcClient
begin

text \<open>
  The bidirectional connection by cases, its projections to the client and to the serving half (every
  step of it is a step of each half, or none), and the invariants of its loop.
\<close>

section \<open>The loop by cases\<close>

lemma birpc_getE:
  assumes "birpc_get s = Some t"
  obtains c where "bp_loop s = BRead" "conn_get (bp_conn s) = Some c" "t = s\<lparr>bp_conn := c, bp_loop := BHeader\<rparr>"
  using assms by (auto simp: birpc_get_def split: if_splits)

lemma birpc_headerE:
  assumes "birpc_header h s = Some t"
  obtains (stop) e c where "bp_loop s = BHeader" "h = Inl e" "input_header (Inl e) (bp_client s) = Some c"
      "t = s\<lparr>bp_client := c, bp_conn := conn_drop (bp_conn s), bp_loop := BTerm\<rparr>"
  | (request) q p c where "bp_loop s = BHeader" "h = Inr (q, p)" "conn_fill q (bp_conn s) = Some c"
      "req_method (current_request c) \<noteq> []"
      "t = s\<lparr>bp_conn := c, bp_requests := bp_requests s @ [q],
             bp_loop := BBody (get_service (current_request c) (cn_server c))\<rparr>"
  | (response) q p c where "bp_loop s = BHeader" "h = Inr (q, p)" "conn_fill q (bp_conn s) = Some c"
      "t = s\<lparr>bp_conn := c, bp_loop := BFree p\<rparr>"
  using assms by (auto simp: birpc_header_def split: if_splits sum.splits prod.splits)

lemma birpc_requestE:
  assumes "birpc_request b s = Some t"
  obtains (failed) found e c where "bp_loop s = BBody found"
      "birpc_read_body (req_method (current_request (bp_conn s))) found b = Inl e"
      "conn_fail e (bp_conn s) = Some c" "t = s\<lparr>bp_conn := c, bp_loop := BReplying (cn_njobs (bp_conn s))\<rparr>"
  | (called) found sv mt v c where "bp_loop s = BBody found"
      "birpc_read_body (req_method (current_request (bp_conn s))) found b = Inr (sv, mt, v)"
      "conn_spawn sv mt v (bp_conn s) = Some c" "t = s\<lparr>bp_conn := c, bp_loop := BRead\<rparr>"
  using assms by (auto simp: birpc_request_def split: birpc_pc.splits sum.splits)

lemma birpc_repliedE:
  assumes "birpc_replied s = Some t"
  obtains j where "bp_loop s = BReplying j" "job_done (bp_conn s) j" "t = s\<lparr>bp_loop := BRead\<rparr>"
  using assms by (auto simp: birpc_replied_def split: birpc_pc.splits if_splits)

lemma birpc_freeE:
  assumes "birpc_free s = Some t"
  obtains p c where "bp_loop s = BFree p" "conn_free (bp_conn s) = Some c"
    "t = s\<lparr>bp_conn := c, bp_loop := BLookup p\<rparr>"
  using assms by (auto simp: birpc_free_def split: birpc_pc.splits)

lemma birpc_lookupE:
  assumes "birpc_lookup s = Some t"
  obtains p c where "bp_loop s = BLookup p" "input_header (Inr p) (bp_client s) = Some c"
    "t = s\<lparr>bp_client := c, bp_loop := BReply\<rparr>"
  using assms by (auto simp: birpc_lookup_def split: birpc_pc.splits)

lemma birpc_replyE:
  assumes "birpc_reply b s = Some t"
  obtains c where "bp_loop s = BReply" "input_body b (bp_client s) = Some c"
    "t = s\<lparr>bp_client := c, bp_loop := (if cl_reader c = RReading then BRead else BTerm)\<rparr>"
  using assms by (auto simp: birpc_reply_def split: if_splits)

lemma birpc_terminateE:
  assumes "birpc_terminate ks s = Some t"
  obtains c where "bp_loop s = BTerm" "cn_sending (bp_conn s) = None"
    "input_terminate ks (bp_client s) = Some c"
    "t = s\<lparr>bp_client := c, bp_loop := BWait (cl_closing (bp_client s))\<rparr>"
  using assms by (auto simp: birpc_terminate_def split: if_splits)

lemma birpc_waitE:
  assumes "birpc_wait s = Some t"
  obtains cl where "bp_loop s = BWait cl"
    "\<forall>j < cn_njobs (bp_conn s). is_call (j_kind (cn_jobs (bp_conn s) j)) \<longrightarrow> job_done (bp_conn s) j"
    "t = s\<lparr>bp_notified := Suc (bp_notified s), bp_loop := BClose cl\<rparr>"
  using assms by (auto simp: birpc_wait_def all_calls_done_def split: birpc_pc.splits if_splits)

lemma birpc_shutE:
  assumes "birpc_shut s = Some t"
  obtains cl where "bp_loop s = BClose cl"
    "t = s\<lparr>bp_closes := (if cl then bp_closes s else Suc (bp_closes s)), bp_loop := BCancel\<rparr>"
  using assms by (auto simp: birpc_shut_def split: birpc_pc.splits)

lemma birpc_cancelE:
  assumes "birpc_cancel s = Some t"
  obtains "bp_loop s = BCancel"
    "t = s\<lparr>bp_conn := (bp_conn s)\<lparr>cn_store := (cn_store (bp_conn s))
        \<lparr>ss_ctxs := std_cancel (ctx_parent (bp_conn s)) Canceled (conn_ctxs (bp_conn s))\<rparr>\<rparr>,
      bp_loop := BEnded\<rparr>"
  using assms by (auto simp: birpc_cancel_def ctx_cancel_def Let_def split: if_splits)

lemma birpc_user_closeE:
  assumes "birpc_user_close w s = (r, t)"
  obtains (again) "cl_closing (bp_client s)" "t = s"
  | (first) "\<not> cl_closing (bp_client s)"
      "t = s\<lparr>bp_client := (bp_client s)\<lparr>cl_closing := True\<rparr>, bp_closes := Suc (bp_closes s)\<rparr>"
  using assms by (auto simp: birpc_user_close_def client_close_def split: if_splits)

lemmas birpc_elims = birpc_getE birpc_headerE birpc_requestE birpc_repliedE birpc_freeE birpc_lookupE
  birpc_replyE birpc_terminateE birpc_waitE birpc_shutE birpc_cancelE birpc_user_closeE


section \<open>The two halves\<close>

lemma caller_step_client: "caller_step f s t \<Longrightarrow> client_step s t"
  by (induction rule: caller_step.induct) (blast intro: client_step.intros)+

lemma client_close_step: "client_step s (s\<lparr>cl_closing := True\<rparr>) \<or> s\<lparr>cl_closing := True\<rparr> = s"
proof (cases "cl_closing s")
  case False
  then have "client_close None s = (None, True, s\<lparr>cl_closing := True\<rparr>)" by (simp add: client_close_def)
  then show ?thesis by (blast intro: client_step.step_close)
qed simp

lemma birpc_step_client:
  "birpc_step s t \<Longrightarrow> bp_client t = bp_client s \<or> client_step (bp_client s) (bp_client t)"
proof (induction rule: birpc_step.induct)
  case (bs_close w s r t)
  then show ?case using client_close_step [of "bp_client s"] by (auto elim!: birpc_user_closeE)
qed (auto elim!: birpc_elims dest: caller_step_client intro: client_step.intros)

lemma birpc_step_conn:
  "birpc_step s t \<Longrightarrow> bp_conn t = bp_conn s \<or> conn_step (bp_conn s) (bp_conn t)"
proof (induction rule: birpc_step.induct)
  case (bs_cancel s t)
  then show ?case by (auto elim!: birpc_cancelE simp: ctx_parent_def intro!: conn_step.env_end_context)
qed (auto elim!: birpc_elims dest: job_step_conn env_step_conn intro: conn_step.intros)

lemma caller_step_reader: "caller_step f s t \<Longrightarrow> cl_reader t = cl_reader s \<and> cl_closing t = cl_closing s \<and> cl_shutdown t = cl_shutdown s"
  by (induction rule: caller_step.induct) (auto elim!: op_elims simp: op_allocs split: if_splits)

lemma caller_step_mutex: "caller_step f s t \<Longrightarrow> cl_reqmu s \<noteq> None \<or> cl_reqmu t = None \<or> f"
  by (induction rule: caller_step.induct) (auto elim!: op_elims simp: op_allocs split: if_splits)


section \<open>One job per request\<close>

text \<open>The requests \<open>hs\<close> have become the jobs; only \<open>hdl\<close>, an error response, and calls are unfinished.\<close>

definition jobs_inv :: "conn \<Rightarrow> request list \<Rightarrow> nat option \<Rightarrow> bool" where
  "jobs_inv c hs hdl \<longleftrightarrow>
     hs = map (\<lambda>j. j_head (cn_jobs c j)) [0..<cn_njobs c] \<and>
     (\<forall>j < cn_njobs c. j_pc (cn_jobs c j) \<noteq> JDone \<longrightarrow> hdl = Some j \<or> is_call (j_kind (cn_jobs c j)))"

lemma jobs_invD:
  assumes "jobs_inv c hs hdl"
  shows "hs = map (\<lambda>j. j_head (cn_jobs c j)) [0..<cn_njobs c]"
    and "j < cn_njobs c \<Longrightarrow> j_pc (cn_jobs c j) \<noteq> JDone \<Longrightarrow> hdl = Some j \<or> is_call (j_kind (cn_jobs c j))"
  using assms by (simp_all add: jobs_inv_def)

lemma jobs_inv_conn_step:
  assumes "conn_step c t" "cn_njobs t = cn_njobs c" "jobs_inv c hs hdl"
  shows "jobs_inv t hs hdl"
proof -
  have h: "j_kind (cn_jobs t j) = j_kind (cn_jobs c j)" "j_head (cn_jobs t j) = j_head (cn_jobs c j)"
    if "j < cn_njobs c" for j
    using conn_step_heads [OF assms(1)] that by simp_all
  then have "map (\<lambda>j. j_head (cn_jobs t j)) [0..<cn_njobs c] = map (\<lambda>j. j_head (cn_jobs c j)) [0..<cn_njobs c]"
    by simp
  then show ?thesis
    using assms(2,3) h conn_step_done [OF assms(1)] by (force simp: jobs_inv_def)
qed

lemma jobs_inv_add:
  assumes "jobs_inv c hs None" "is_call k \<longrightarrow> hdl = None" "\<not> is_call k \<longrightarrow> hdl = Some (cn_njobs c)"
  shows "jobs_inv (add_job k pc res a c) (hs @ [req_obj (cn_server c) a]) hdl"
  using assms by (auto simp: jobs_inv_def less_Suc_eq)

lemma jobs_inv_handled:
  "jobs_inv c hs (Some j) \<Longrightarrow> j_pc (cn_jobs c j) = JDone \<Longrightarrow> jobs_inv c hs None"
  by (auto simp: jobs_inv_def)


section \<open>The loop's invariant\<close>

fun bp_handling :: "birpc_pc \<Rightarrow> nat option" where
  "bp_handling (BReplying j) = Some j"
| "bp_handling _ = None"

fun bp_reading :: "birpc_pc \<Rightarrow> bool" where
  "bp_reading BHeader = True"
| "bp_reading (BBody f) = True"
| "bp_reading (BFree p) = True"
| "bp_reading _ = False"

fun bp_has_request :: "birpc_pc \<Rightarrow> bool" where
  "bp_has_request (BBody f) = True"
| "bp_has_request _ = False"

text \<open>Where the client's reader stands.\<close>

fun bp_reader :: "birpc_pc \<Rightarrow> reader_pc \<Rightarrow> bool" where
  "bp_reader BReply r = (\<exists>c p. r = RGot c p)"
| "bp_reader BTerm r = (\<exists>e. r = RTerm e)"
| "bp_reader (BWait cl) r = (r = REnded)"
| "bp_reader (BClose cl) r = (r = REnded)"
| "bp_reader BCancel r = (r = REnded)"
| "bp_reader BEnded r = (r = REnded)"
| "bp_reader _ r = (r = RReading)"

fun bp_late :: "birpc_pc \<Rightarrow> bool" where
  "bp_late (BClose cl) = True"
| "bp_late BCancel = True"
| "bp_late BEnded = True"
| "bp_late _ = False"

fun bp_shut :: "birpc_pc \<Rightarrow> bool" where
  "bp_shut BCancel = True"
| "bp_shut BEnded = True"
| "bp_shut _ = False"

fun bp_saw_closing :: "birpc_pc \<Rightarrow> bool" where
  "bp_saw_closing (BWait cl) = cl"
| "bp_saw_closing (BClose cl) = cl"
| "bp_saw_closing _ = False"

definition inv_jobs :: "birpc \<Rightarrow> bool" where
  "inv_jobs s \<longleftrightarrow>
     (\<exists>hs. jobs_inv (bp_conn s) hs (bp_handling (bp_loop s)) \<and>
        bp_requests s = hs @ (if bp_has_request (bp_loop s) then [current_request (bp_conn s)] else [])) \<and>
     (cn_cur (bp_conn s) \<noteq> None \<longleftrightarrow> bp_reading (bp_loop s)) \<and>
     (bp_late (bp_loop s) \<longrightarrow> (\<forall>j < cn_njobs (bp_conn s). j_pc (cn_jobs (bp_conn s) j) = JDone)) \<and>
     bp_notified s = (if bp_late (bp_loop s) then 1 else 0)"

definition inv_ends :: "birpc \<Rightarrow> bool" where
  "inv_ends s \<longleftrightarrow>
     (cl_reqmu (bp_client s) = None \<or> cn_sending (bp_conn s) = None) \<and>
     bp_reader (bp_loop s) (cl_reader (bp_client s)) \<and>
     (bp_saw_closing (bp_loop s) \<longrightarrow> cl_closing (bp_client s)) \<and>
     (cl_closing (bp_client s) \<or> bp_shut (bp_loop s) \<longrightarrow> 1 \<le> bp_closes s) \<and>
     bp_closes s \<le> (if cl_closing (bp_client s) then 1 else 0) + (if bp_shut (bp_loop s) then 1 else 0)"

lemma inv_jobsI:
  assumes "jobs_inv (bp_conn s) hs (bp_handling (bp_loop s))"
    and "bp_requests s = hs @ (if bp_has_request (bp_loop s) then [current_request (bp_conn s)] else [])"
    and "cn_cur (bp_conn s) \<noteq> None \<longleftrightarrow> bp_reading (bp_loop s)"
    and "\<And>j. bp_late (bp_loop s) \<Longrightarrow> j < cn_njobs (bp_conn s) \<Longrightarrow> j_pc (cn_jobs (bp_conn s) j) = JDone"
    and "bp_notified s = (if bp_late (bp_loop s) then 1 else 0)"
  shows "inv_jobs s"
  unfolding inv_jobs_def using assms by blast

lemma inv_jobs_at:
  "inv_jobs s \<Longrightarrow> bp_loop s = l \<Longrightarrow>
   \<exists>hs. jobs_inv (bp_conn s) hs (bp_handling l) \<and>
     bp_requests s = hs @ (if bp_has_request l then [current_request (bp_conn s)] else []) \<and>
     (cn_cur (bp_conn s) \<noteq> None \<longleftrightarrow> bp_reading l) \<and> bp_notified s = (if bp_late l then 1 else 0)"
  unfolding inv_jobs_def by blast

lemma inv_notified: "inv_jobs s \<Longrightarrow> bp_notified s = (if bp_late (bp_loop s) then 1 else 0)"
  unfolding inv_jobs_def by blast

lemma inv_late: "inv_jobs s \<Longrightarrow> bp_late (bp_loop s) \<Longrightarrow> j < cn_njobs (bp_conn s) \<Longrightarrow> j_pc (cn_jobs (bp_conn s) j) = JDone"
  unfolding inv_jobs_def by blast

text \<open>A step of the serving half that leaves the loop alone.\<close>

lemma inv_jobs_conn:
  assumes "inv_jobs s" "conn_step (bp_conn s) c" "cn_njobs c = cn_njobs (bp_conn s)" "cn_cur c = cn_cur (bp_conn s)"
    and "cn_cur (bp_conn s) \<noteq> None \<Longrightarrow> current_request c = current_request (bp_conn s)"
  shows "inv_jobs (s\<lparr>bp_conn := c\<rparr>)"
proof -
  obtain hs where hs: "jobs_inv (bp_conn s) hs (bp_handling (bp_loop s))"
    "bp_requests s = hs @ (if bp_has_request (bp_loop s) then [current_request (bp_conn s)] else [])"
    "cn_cur (bp_conn s) \<noteq> None \<longleftrightarrow> bp_reading (bp_loop s)"
    "bp_notified s = (if bp_late (bp_loop s) then 1 else 0)"
    using inv_jobs_at [OF assms(1) refl] by blast
  have r: "bp_has_request (bp_loop s) \<Longrightarrow> cn_cur (bp_conn s) \<noteq> None" using hs(3) by (cases "bp_loop s") auto
  show ?thesis
    by (rule inv_jobsI [of _ hs])
       (use hs(2-4) assms(3-5) r jobs_inv_conn_step [OF assms(2,3) hs(1)] conn_step_done [OF assms(2)]
          inv_late [OF assms(1)] in auto)
qed

text \<open>A step of the client half, or of the loop where it does not touch the serving half.\<close>

lemma inv_jobs_loop:
  assumes "inv_jobs s" "bp_conn t = bp_conn s" "bp_requests t = bp_requests s"
    and "\<not> bp_has_request (bp_loop s)" "\<not> bp_has_request (bp_loop t)"
    and "bp_reading (bp_loop t) = bp_reading (bp_loop s)"
    and "\<And>hs. jobs_inv (bp_conn s) hs (bp_handling (bp_loop s)) \<Longrightarrow> jobs_inv (bp_conn s) hs (bp_handling (bp_loop t))"
    and "\<And>j. bp_late (bp_loop t) \<Longrightarrow> j < cn_njobs (bp_conn s) \<Longrightarrow> j_pc (cn_jobs (bp_conn s) j) = JDone"
    and "bp_notified t = (if bp_late (bp_loop t) then 1 else 0)"
  shows "inv_jobs t"
proof -
  obtain hs where "jobs_inv (bp_conn s) hs (bp_handling (bp_loop s))"
    "bp_requests s = hs @ (if bp_has_request (bp_loop s) then [current_request (bp_conn s)] else [])"
    "cn_cur (bp_conn s) \<noteq> None \<longleftrightarrow> bp_reading (bp_loop s)"
    using inv_jobs_at [OF assms(1) refl] by blast
  then show ?thesis using assms(2-9) by (intro inv_jobsI [of _ hs]) auto
qed

lemma inv_jobs_same:
  "inv_jobs s \<Longrightarrow> bp_conn t = bp_conn s \<Longrightarrow> bp_requests t = bp_requests s \<Longrightarrow> bp_loop t = bp_loop s \<Longrightarrow>
   bp_notified t = bp_notified s \<Longrightarrow> inv_jobs t"
  unfolding inv_jobs_def by presburger

lemma inv_jobs_header:
  assumes "conn_inv (bp_conn s)"
    and I: "inv_jobs s"
    and bs_header: "birpc_header h s = Some t"
  shows "inv_jobs t"
proof -
  have "bp_loop s = BHeader" using bs_header by (auto elim: birpc_headerE)
  from inv_jobs_at [OF I this] obtain hs where hs: "jobs_inv (bp_conn s) hs None" "bp_requests s = hs" "bp_notified s = 0"
    by auto
  from bs_header show ?thesis
  proof (cases rule: birpc_headerE)
    case (stop e c)
    with hs show ?thesis by (intro inv_jobsI [of _ hs]) (auto simp: conn_drop_def jobs_inv_def)
  next
    case (request q p c)
    from request(3) obtain a where a: "cn_cur (bp_conn s) = Some a"
      "c = (bp_conn s)\<lparr>cn_server := set_request a q (cn_server (bp_conn s))\<rparr>" by (rule conn_fillE)
    then have "current_request c = q" by (simp add: current_request_def)
    with request a hs show ?thesis by (intro inv_jobsI [of _ hs]) (auto simp: jobs_inv_def)
  next
    case (response q p c)
    with hs show ?thesis by (intro inv_jobsI [of _ hs]) (auto elim!: conn_fillE simp: jobs_inv_def)
  qed
qed

lemma inv_jobs_request:
  assumes "conn_inv (bp_conn s)"
    and I: "inv_jobs s"
    and bs_request: "birpc_request b s = Some t"
  shows "inv_jobs t"
proof -
  obtain found where "bp_loop s = BBody found" using bs_request by (auto elim: birpc_requestE)
  from inv_jobs_at [OF I this] obtain hs where hs: "jobs_inv (bp_conn s) hs None"
    "bp_requests s = hs @ [current_request (bp_conn s)]" "bp_notified s = 0"
    by auto
  from bs_request show ?thesis
  proof (cases rule: birpc_requestE)
    case (failed found e c)
    from failed(3) obtain a where a: "cn_cur (bp_conn s) = Some a"
      "c = add_job JError (JReply invalid_request (error_text e)) (Some (invalid_request, error_text e)) a (bp_conn s)"
      by (rule conn_failE)
    have "jobs_inv c (hs @ [current_request (bp_conn s)]) (Some (cn_njobs (bp_conn s)))"
      using jobs_inv_add [OF hs(1), of JError] a by (simp add: current_request_def)
    then show ?thesis using failed hs a by (intro inv_jobsI [of _ "bp_requests s"]) simp_all
  next
    case (called found sv mt v c)
    from called(3) obtain a where a: "cn_cur (bp_conn s) = Some a"
      "c = add_job (JCall sv mt (decoded_argv mt v)) JStart None a (bp_conn s)" by (rule conn_spawnE)
    have "jobs_inv c (hs @ [current_request (bp_conn s)]) None"
      using jobs_inv_add [OF hs(1), of "JCall sv mt (decoded_argv mt v)" None] a by (simp add: current_request_def)
    then show ?thesis using called hs a by (intro inv_jobsI [of _ "bp_requests s"]) simp_all
  qed
qed

lemma inv_jobs_wait:
  assumes "conn_inv (bp_conn s)"
    and I: "inv_jobs s"
    and bs_wait: "birpc_wait s = Some t"
  shows "inv_jobs t"
proof -
  note bs_wait
  then obtain cl where c: "bp_loop s = BWait cl"
    "\<forall>j < cn_njobs (bp_conn s). is_call (j_kind (cn_jobs (bp_conn s) j)) \<longrightarrow> job_done (bp_conn s) j"
    "t = s\<lparr>bp_notified := Suc (bp_notified s), bp_loop := BClose cl\<rparr>" by (rule birpc_waitE)
  from inv_jobs_at [OF I c(1)] obtain hs where hs: "jobs_inv (bp_conn s) hs None" by auto
  have "j_pc (cn_jobs (bp_conn s) j) = JDone" if "j < cn_njobs (bp_conn s)" for j
    using c(2) that jobs_invD(2) [OF hs that] by (auto simp: job_done_def)
  then show ?thesis
    by (intro inv_jobs_loop [OF I]) (use c inv_notified [OF I] in auto)
qed

lemma inv_jobs_cancel:
  assumes "conn_inv (bp_conn s)"
    and I: "inv_jobs s"
    and bs_cancel: "birpc_cancel s = Some t"
  shows "inv_jobs t"
proof -
  note bs_cancel
  then have c: "bp_loop s = BCancel"
    "t = s\<lparr>bp_conn := (bp_conn s)\<lparr>cn_store := (cn_store (bp_conn s))
        \<lparr>ss_ctxs := std_cancel (ctx_parent (bp_conn s)) Canceled (conn_ctxs (bp_conn s))\<rparr>\<rparr>, bp_loop := BEnded\<rparr>"
    by (auto elim!: birpc_cancelE)
  from inv_jobs_at [OF I c(1)] obtain hs where "jobs_inv (bp_conn s) hs None" "bp_requests s = hs"
    "bp_notified s = 1" "cn_cur (bp_conn s) = None" by auto
  with c show ?thesis
    by (intro inv_jobsI [of _ hs]) (use inv_late [OF I] in \<open>auto simp: jobs_inv_def\<close>)
qed

lemma inv_jobs_get:
  assumes "conn_inv (bp_conn s)"
    and I: "inv_jobs s"
    and bs_get: "birpc_get s = Some t"
  shows "inv_jobs t"
proof -
  note bs_get
  then obtain c where c: "bp_loop s = BRead" "conn_get (bp_conn s) = Some c" "t = s\<lparr>bp_conn := c, bp_loop := BHeader\<rparr>"
    by (rule birpc_getE)
  from inv_jobs_at [OF I c(1)] obtain hs where "jobs_inv (bp_conn s) hs None" "bp_requests s = hs" "bp_notified s = 0"
    by auto
  with c show ?thesis by (intro inv_jobsI [of _ hs]) (auto elim!: conn_getE simp: jobs_inv_def)
qed

lemma inv_jobs_free:
  assumes "conn_inv (bp_conn s)"
    and I: "inv_jobs s"
    and bs_free: "birpc_free s = Some t"
  shows "inv_jobs t"
proof -
  note bs_free
  then obtain p c where c: "bp_loop s = BFree p" "conn_free (bp_conn s) = Some c"
    "t = s\<lparr>bp_conn := c, bp_loop := BLookup p\<rparr>" by (rule birpc_freeE)
  from inv_jobs_at [OF I c(1)] obtain hs where "jobs_inv (bp_conn s) hs None" "bp_requests s = hs" "bp_notified s = 0"
    by auto
  with c show ?thesis by (intro inv_jobsI [of _ hs]) (auto elim!: conn_freeE simp: jobs_inv_def)
qed

lemma inv_jobs_step:
  assumes "birpc_step s t" "conn_inv (bp_conn s)" and I: "inv_jobs s"
  shows "inv_jobs t"
  using assms(1)
proof (cases rule: birpc_step.cases)
  case bs_get
  show ?thesis by (rule inv_jobs_get [OF assms(2-3) bs_get])
next
  case (bs_header h)
  show ?thesis by (rule inv_jobs_header [OF assms(2-3) bs_header])
next
  case (bs_request b)
  show ?thesis by (rule inv_jobs_request [OF assms(2-3) bs_request])
next
  case bs_replied
  then show ?thesis
    by (elim birpc_repliedE) (rule inv_jobs_loop [OF I], use inv_notified [OF I] jobs_inv_handled in \<open>auto simp: job_done_def\<close>)
next
  case bs_free
  show ?thesis by (rule inv_jobs_free [OF assms(2-3) bs_free])
next
  case bs_lookup
  then show ?thesis
    by (elim birpc_lookupE) (rule inv_jobs_loop [OF I], use inv_notified [OF I] in auto)
next
  case (bs_reply b)
  then show ?thesis
    by (elim birpc_replyE) (rule inv_jobs_loop [OF I], use inv_notified [OF I] in \<open>auto split: if_splits\<close>)
next
  case (bs_terminate ks)
  then show ?thesis
    by (elim birpc_terminateE) (rule inv_jobs_loop [OF I], use inv_notified [OF I] in auto)
next
  case bs_wait
  show ?thesis by (rule inv_jobs_wait [OF assms(2-3) bs_wait])
next
  case bs_shut
  then show ?thesis
    by (elim birpc_shutE) (rule inv_jobs_loop [OF I], use inv_notified [OF I] inv_late [OF I] in auto)
next
  case bs_cancel
  show ?thesis by (rule inv_jobs_cancel [OF assms(2-3) bs_cancel])
next
  case (bs_caller c)
  then show ?thesis by (intro inv_jobs_same [OF I]) simp_all
next
  case (bs_close w r)
  from this(1) show ?thesis by (rule birpc_user_closeE) (use I in \<open>auto intro: inv_jobs_same [OF I]\<close>)
next
  case (bs_job c)
  have "inv_jobs (s\<lparr>bp_conn := c\<rparr>)"
    using job_step_frame [OF bs_job(2)] current_request_kept [OF disjI1 [OF bs_job(2)]] conn_invD(1) [OF assms(2)]
    by (intro inv_jobs_conn [OF I job_step_conn [OF bs_job(2)]]) simp_all
  with bs_job(1) show ?thesis by simp
next
  case (bs_env c)
  have "inv_jobs (s\<lparr>bp_conn := c\<rparr>)"
    using env_step_frame [OF bs_env(2)] current_request_kept [OF disjI2 [OF bs_env(2)]] conn_invD(1) [OF assms(2)]
    by (intro inv_jobs_conn [OF I env_step_conn [OF bs_env(2)]]) simp_all
  with bs_env(1) show ?thesis by simp
qed

lemma inv_endsI:
  assumes "cl_reqmu (bp_client s) = None \<or> cn_sending (bp_conn s) = None"
    and "bp_reader (bp_loop s) (cl_reader (bp_client s))"
    and "bp_saw_closing (bp_loop s) \<Longrightarrow> cl_closing (bp_client s)"
    and "cl_closing (bp_client s) \<or> bp_shut (bp_loop s) \<Longrightarrow> 1 \<le> bp_closes s"
    and "bp_closes s \<le> (if cl_closing (bp_client s) then 1 else 0) + (if bp_shut (bp_loop s) then 1 else 0)"
  shows "inv_ends s"
  unfolding inv_ends_def using assms by blast

lemma inv_endsD:
  assumes "inv_ends s"
  shows inv_ends_mutex: "cl_reqmu (bp_client s) = None \<or> cn_sending (bp_conn s) = None"
    and inv_ends_reader: "bp_reader (bp_loop s) (cl_reader (bp_client s))"
    and inv_ends_saw: "bp_saw_closing (bp_loop s) \<Longrightarrow> cl_closing (bp_client s)"
    and inv_ends_closed: "cl_closing (bp_client s) \<or> bp_shut (bp_loop s) \<Longrightarrow> 1 \<le> bp_closes s"
    and inv_ends_bound: "bp_closes s \<le> (if cl_closing (bp_client s) then 1 else 0) + (if bp_shut (bp_loop s) then 1 else 0)"
  using assms unfolding inv_ends_def by presburger+

text \<open>How a step changes \<open>sending\<close>, the reader and the flags of the client.\<close>

lemma loop_sending:
  "conn_get c = Some t \<Longrightarrow> cn_sending t = cn_sending c" "conn_fill r c = Some t \<Longrightarrow> cn_sending t = cn_sending c"
  "conn_free c = Some t \<Longrightarrow> cn_sending t = cn_sending c" "conn_spawn sv mt v c = Some t \<Longrightarrow> cn_sending t = cn_sending c"
  "conn_fail e c = Some t \<Longrightarrow> cn_sending t = cn_sending c"
  by (auto elim!: conn_elims)

lemma conn_drop_sending [simp]: "cn_sending (conn_drop c) = cn_sending c"
  by (simp add: conn_drop_def)

lemma reader_ops:
  "input_header h c = Some t \<Longrightarrow> cl_reqmu t = cl_reqmu c \<and> cl_closing t = cl_closing c \<and>
     (case h of Inl e \<Rightarrow> cl_reader t = RTerm e | Inr p \<Rightarrow> \<exists>oc. cl_reader t = RGot oc p)"
  "input_body b c = Some t \<Longrightarrow> cl_reqmu t = cl_reqmu c \<and> cl_closing t = cl_closing c \<and>
     (cl_reader t = RReading \<or> (\<exists>e. cl_reader t = RTerm e))"
  "input_terminate ks c = Some t \<Longrightarrow> cl_reqmu t = cl_reqmu c \<and> cl_closing t = cl_closing c \<and> cl_reader t = REnded"
  by (auto elim!: input_headerE input_bodyE input_terminateE)

lemma env_step_sending: "env_step c t \<Longrightarrow> cn_sending t = cn_sending c"
  by (induction rule: env_step.induct) auto

lemma inv_ends_step:
  assumes "birpc_step s t" and I: "inv_ends s"
  shows "inv_ends t"
proof -
  note D = inv_endsD [OF I]
  from assms(1) show ?thesis
  proof (cases rule: birpc_step.cases)
    case (bs_caller c)
    then show ?thesis
      using D caller_step_reader [OF bs_caller(2)] caller_step_mutex [OF bs_caller(2)] by (intro inv_endsI) auto
  next
    case (bs_close w r)
    from this(1) show ?thesis by (rule birpc_user_closeE) (use D in \<open>auto intro!: inv_endsI split: if_splits\<close>)
  next
    case (bs_job c)
    then show ?thesis using D by (intro inv_endsI) auto
  next
    case (bs_env c)
    then show ?thesis using D env_step_sending [OF bs_env(2)] by (intro inv_endsI) auto
  next
    case bs_wait
    then show ?thesis by (elim birpc_waitE) (use D in \<open>auto intro!: inv_endsI split: if_splits\<close>)
  next
    case bs_shut
    then show ?thesis by (elim birpc_shutE) (use D in \<open>auto intro!: inv_endsI split: if_splits\<close>)
  next
    case bs_cancel
    then show ?thesis by (elim birpc_cancelE) (use D in \<open>auto intro!: inv_endsI split: if_splits\<close>)
  qed (use D in \<open>auto elim!: birpc_getE birpc_headerE birpc_requestE birpc_repliedE birpc_freeE birpc_lookupE
        birpc_replyE birpc_terminateE intro!: inv_endsI dest!: loop_sending reader_ops split: if_splits\<close>)
qed


section \<open>Reachable states\<close>

lemma new_conn_sending [simp]: "cn_sending (new_conn s q r ctx st) = None"
  by (simp add: new_conn_def split: prod.splits)

lemma birpc_start_inv:
  assumes "ready_server s q r background st"
  shows "conn_reach (bp_conn (birpc_start me s q r st)) \<and> inv_jobs (birpc_start me s q r st) \<and>
    inv_ends (birpc_start me s q r st)"
proof -
  have b: "g_std background < length (ss_ctxs st)" "wf_svc st" "reqs.safe s q" "resps.safe s r"
    using assms by (simp_all add: ready_server_def)
  obtain ctx h where c: "with_cancel background (ss_ctxs st) = (ctx, h)" by fastforce
  note d = with_cancel_simps [OF c]
  have w: "wf_svc (st\<lparr>ss_ctxs := h\<rparr>)" using wf_svc_derive [OF b(2,1)] d(4) by simp
  have "ready_server s q r (ctx\<lparr>g_client := Some me\<rparr>) (st\<lparr>ss_ctxs := h\<rparr>)"
    using b w d(1,3) by (simp add: ready_server_def)
  from conn_new [OF this] show ?thesis
    by (simp add: birpc_start_def c inv_jobs_def jobs_inv_def inv_ends_def new_basic_client_def)
qed

lemma birpc_start_client [simp]: "bp_client (birpc_start me s q r st) = new_basic_client"
  by (simp add: birpc_start_def split: prod.splits)

lemma birpc_reach_inv:
  "birpc_reach s \<Longrightarrow> client_reach (bp_client s) \<and> conn_reach (bp_conn s) \<and> inv_jobs s \<and> inv_ends s"
proof (induction rule: birpc_reach.induct)
  case (br_start s q r st me)
  then show ?case using birpc_start_inv by (simp add: client_reach.reach_new)
next
  case (br_step s t)
  then show ?case
    using birpc_step_client [OF br_step(2)] birpc_step_conn [OF br_step(2)] inv_jobs_step [OF br_step(2)]
      inv_ends_step [OF br_step(2)] conn_reach_inv
    by (metis client_reach.reach_step conn_more)
qed

lemma birpc_invD:
  assumes "birpc_reach s"
  shows "client_reach (bp_client s)" "conn_reach (bp_conn s)" "inv_jobs s" "inv_ends s"
  using birpc_reach_inv [OF assms] by simp_all

end
