(* ===== verification/Network.thy ===== *)
theory Network
  imports BirpcInv
begin

text \<open>
  A client and a server on one connection: the steps of Client and Server with the values their codecs
  return no longer arbitrary, but those the other side wrote. \<open>nt_up\<close> holds the requests written and not
  yet read, \<open>nt_down\<close> the responses. The connection may fail: a read or a write returns an error whenever
  it likes, and the user may close the client; \<open>nt_lost\<close> records that this has happened. A request whose
  writing failed may have been transmitted all the same (\<open>nc_torn\<close>); one of which only the beginning
  arrives is a transmitted request whose body cannot be read. A codec may refuse to encode a request, which
  leaves the connection as it was (\<open>nc_refused\<close>). \<open>nt_read\<close> and \<open>nt_got\<close> are what the server and the client
  have taken from the connection; the body each of them reads next is that of the last message.

  The codecs are two arguments: \<open>decA ty x\<close> is what decoding arguments \<open>x\<close> into a value of type \<open>ty\<close>
  gives (\<open>None\<close>: discarding them), \<open>decR c x\<close> what decoding a reply \<open>x\<close> into the \<open>Reply\<close> of call \<open>c\<close> gives.
  The registry is the one the server had in the beginning; other connections use the free lists.
\<close>

section \<open>State and steps\<close>

type_synonym arg_decoder = "gotype option \<Rightarrow> goval \<Rightarrow> go_error + goval"
type_synonym reply_decoder = "nat \<Rightarrow> goval \<Rightarrow> go_error + goval"

record net =
  nt_client :: client
  nt_serve :: serve
  nt_up :: "(request \<times> goval) list"
  nt_read :: "(request \<times> goval) list"
  nt_down :: "(response \<times> goval) list"
  nt_got :: "(response \<times> goval) list"
  nt_lost :: bool

definition new_net :: "basic_server \<Rightarrow> nat set \<Rightarrow> nat set \<Rightarrow> svc_store \<Rightarrow> net" where
  "new_net srv oreqs oresps st =
     \<lparr>nt_client = new_basic_client, nt_serve = serve_codec srv oreqs oresps st,
      nt_up = [], nt_read = [], nt_down = [], nt_got = [], nt_lost = False\<rparr>"

definition on_conn :: "conn \<Rightarrow> net \<Rightarrow> net" where
  "on_conn c s = s\<lparr>nt_serve := (nt_serve s)\<lparr>so_conn := c\<rparr>\<rparr>"

text \<open>The client's callers, its own \<open>WriteRequest\<close> and its reader.\<close>

inductive client_side :: "reply_decoder \<Rightarrow> net \<Rightarrow> net \<Rightarrow> bool" for decR where
  nc_caller: "caller_step True (nt_client s) c \<Longrightarrow> cl_tried c = cl_tried (nt_client s) \<Longrightarrow>
    client_side decR s (s\<lparr>nt_client := c\<rparr>)"
| nc_close: "client_close w (nt_client s) = (r, b, c) \<Longrightarrow>
    client_side decR s (s\<lparr>nt_client := c, nt_lost := True\<rparr>)"
| nc_send: "send_write None k (nt_client s) = Some c \<Longrightarrow>
    client_side decR s (s\<lparr>nt_client := c, nt_up := nt_up s @ [last (cl_tried c)]\<rparr>)"
| nc_refused: "send_write (Some e) k (nt_client s) = Some c \<Longrightarrow> client_side decR s (s\<lparr>nt_client := c\<rparr>)"
| nc_torn: "send_write (Some e) k (nt_client s) = Some c \<Longrightarrow>
    client_side decR s (s\<lparr>nt_client := c, nt_up := nt_up s @ [last (cl_tried c)], nt_lost := True\<rparr>)"
| nc_header: "nt_down s = (p, x) # down \<Longrightarrow> input_header (Inr p) (nt_client s) = Some c \<Longrightarrow>
    client_side decR s (s\<lparr>nt_client := c, nt_down := down, nt_got := nt_got s @ [(p, x)]\<rparr>)"
| nc_body: "cl_reader (nt_client s) = RGot (Some k) p \<Longrightarrow> resp_error p = [] \<Longrightarrow>
    input_body (decR k (snd (last (nt_got s)))) (nt_client s) = Some c \<Longrightarrow> client_side decR s (s\<lparr>nt_client := c\<rparr>)"
| nc_discard: "cl_reader (nt_client s) = RGot k p \<Longrightarrow> k = None \<or> resp_error p \<noteq> [] \<Longrightarrow>
    input_body (Inr v) (nt_client s) = Some c \<Longrightarrow> client_side decR s (s\<lparr>nt_client := c\<rparr>)"
| nc_no_header: "input_header (Inl e) (nt_client s) = Some c \<Longrightarrow>
    client_side decR s (s\<lparr>nt_client := c, nt_lost := True\<rparr>)"
| nc_no_body: "input_body (Inl e) (nt_client s) = Some c \<Longrightarrow>
    client_side decR s (s\<lparr>nt_client := c, nt_lost := True\<rparr>)"
| nc_terminate: "input_terminate ks (nt_client s) = Some c \<Longrightarrow> client_side decR s (s\<lparr>nt_client := c\<rparr>)"

text \<open>The server's loop, its handlers, and the other users of its free lists.\<close>

inductive server_side :: "arg_decoder \<Rightarrow> net \<Rightarrow> net \<Rightarrow> bool" for decA where
  ns_get: "serve_get (nt_serve s) = Some t \<Longrightarrow> server_side decA s (s\<lparr>nt_serve := t\<rparr>)"
| ns_header: "nt_up s = (q, x) # up \<Longrightarrow> serve_header (Inr q) (nt_serve s) = Some t \<Longrightarrow>
    server_side decA s (s\<lparr>nt_serve := t, nt_up := up, nt_read := nt_read s @ [(q, x)]\<rparr>)"
| ns_no_header: "serve_header (Inl e) (nt_serve s) = Some t \<Longrightarrow>
    server_side decA s (s\<lparr>nt_serve := t, nt_lost := True\<rparr>)"
| ns_body: "so_loop (nt_serve s) = LBody found \<Longrightarrow>
    serve_body (decA (body_target found) (snd (last (nt_read s)))) (nt_serve s) = Some t \<Longrightarrow>
    server_side decA s (s\<lparr>nt_serve := t\<rparr>)"
| ns_no_body: "serve_body (Inl e) (nt_serve s) = Some t \<Longrightarrow> error_text e \<noteq> [] \<Longrightarrow>
    server_side decA s (s\<lparr>nt_serve := t, nt_lost := True\<rparr>)"
| ns_replied: "serve_replied (nt_serve s) = Some t \<Longrightarrow> server_side decA s (s\<lparr>nt_serve := t\<rparr>)"
| ns_close: "serve_close (nt_serve s) = Some t \<Longrightarrow> server_side decA s (s\<lparr>nt_serve := t\<rparr>)"
| ns_cancel: "serve_cancel (nt_serve s) = Some t \<Longrightarrow> server_side decA s (s\<lparr>nt_serve := t\<rparr>)"
| ns_job: "job_step (so_conn (nt_serve s)) c \<Longrightarrow> cn_wire c = cn_wire (so_conn (nt_serve s)) \<Longrightarrow>
    server_side decA s (on_conn c s)"
| ns_write: "job_write j (so_conn (nt_serve s)) = Some c \<Longrightarrow>
    server_side decA s ((on_conn c s)\<lparr>nt_down := nt_down s @ [snd (last (cn_wire c))]\<rparr>)"
| ns_no_write: "job_write j (so_conn (nt_serve s)) = Some c \<Longrightarrow>
    server_side decA s ((on_conn c s)\<lparr>nt_lost := True\<rparr>)"
| ns_env: "env_step (so_conn (nt_serve s)) c \<Longrightarrow>
    bs_services (cn_server c) = bs_services (cn_server (so_conn (nt_serve s))) \<Longrightarrow>
    server_side decA s (on_conn c s)"

inductive net_reach :: "arg_decoder \<Rightarrow> reply_decoder \<Rightarrow> basic_server \<Rightarrow> net \<Rightarrow> bool"
  for decA decR srv where
  nr_new: "ready_server srv oreqs oresps background st \<Longrightarrow> ctx_err (ss_ctxs st) (g_std background) = None \<Longrightarrow>
    net_reach decA decR srv (new_net srv oreqs oresps st)"
| nr_client: "net_reach decA decR srv s \<Longrightarrow> client_side decR s t \<Longrightarrow> net_reach decA decR srv t"
| nr_server: "net_reach decA decR srv s \<Longrightarrow> server_side decA s t \<Longrightarrow> net_reach decA decR srv t"

lemma on_conn_simps [simp]:
  "nt_client (on_conn c s) = nt_client s" "nt_serve (on_conn c s) = (nt_serve s)\<lparr>so_conn := c\<rparr>"
  "nt_up (on_conn c s) = nt_up s" "nt_read (on_conn c s) = nt_read s"
  "nt_down (on_conn c s) = nt_down s" "nt_got (on_conn c s) = nt_got s"
  "nt_lost (on_conn c s) = nt_lost s"
  by (simp_all add: on_conn_def)


section \<open>The two sides are a client and a server\<close>

lemma client_side_client:
  "client_side decR s t \<Longrightarrow> client_step (nt_client s) (nt_client t) \<and> nt_serve t = nt_serve s \<and> nt_read t = nt_read s"
  by (induction rule: client_side.induct) (auto intro: client_step.intros dest: caller_step_client)

lemma server_side_serve:
  "server_side decA s t \<Longrightarrow> serve_step (nt_serve s) (nt_serve t) \<and> nt_client t = nt_client s \<and> nt_got t = nt_got s"
proof (induction rule: server_side.induct)
  case (ns_job s c)
  then show ?case by (simp add: ss_job)
next
  case (ns_env s c)
  then show ?case by (simp add: ss_env)
next
  case (ns_write j s c)
  then show ?case by (simp add: ss_job js_write)
next
  case (ns_no_write j s c)
  then show ?case by (simp add: ss_job js_write)
qed (auto intro: serve_step.intros)

lemma net_reach_sides: "net_reach decA decR srv s \<Longrightarrow> client_reach (nt_client s) \<and> serve_reach (nt_serve s)"
proof (induction rule: net_reach.induct)
  case (nr_new oreqs oresps st)
  then show ?case by (simp add: new_net_def reach_new sr_codec)
next
  case (nr_client s t)
  then show ?case using client_side_client [of decR s t] by (auto intro: reach_step)
next
  case (nr_server s t)
  then show ?case using server_side_serve [of decA s t] by (auto intro: sr_step)
qed


section \<open>For the codecs\<close>

text \<open>What \<open>ReadResponseBody\<close> is given: the \<open>Reply\<close> of the call, or nil.\<close>

definition reply_target :: "(nat \<Rightarrow> gotype option) \<Rightarrow> reader_pc \<Rightarrow> gotype option" where
  "reply_target rty r =
     (case r of RGot (Some k) p \<Rightarrow> if resp_error p = [] then rty k else None | _ \<Rightarrow> None)"

text \<open>The messages \<open>ms\<close> have arrived of the stream \<open>gs\<close>; if there are more, they never will.\<close>

definition arrived :: "'m list \<Rightarrow> bool \<Rightarrow> 'm list \<Rightarrow> bool" where
  "arrived ms ended gs \<longleftrightarrow> (\<exists>rest. gs = ms @ rest \<and> (rest \<noteq> [] \<longrightarrow> ended))"

lemma arrived_simps [simp]:
  "arrived [] e gs \<longleftrightarrow> (gs \<noteq> [] \<longrightarrow> e)"
  "arrived (m # ms) e (g # gs) \<longleftrightarrow> m = g \<and> arrived ms e gs"
  "\<not> arrived (m # ms) e []"
  by (auto simp: arrived_def)

lemma arrived_cut: "arrived ms e gs \<Longrightarrow> arrived (take n ms) True gs"
  unfolding arrived_def by (elim exE conjE, rule_tac x = "drop n ms @ rest" in exI) simp

lemma arrived_mono: "arrived ms e gs \<Longrightarrow> (e \<Longrightarrow> e') \<Longrightarrow> arrived ms e' gs"
  by (auto simp: arrived_def)

end
