(* ===== verification/NetworkProps.thy ===== *)
theory NetworkProps
  imports Network ServerProps
begin

text \<open>
  What a call gets from the other side of the connection: the invariants that tie the two sides of a
  network together, and the properties that follow for a \<open>Call\<close> that returns nil.
\<close>

section \<open>What the server's steps leave alone\<close>

lemma services_frame [simp]:
  "bs_services (free_request a s) = bs_services s" "bs_services (free_response a s) = bs_services s"
  "bs_services (set_request a r s) = bs_services s"
  by (simp_all add: free_request_def free_response_def set_request_def)

lemma get_request_services: "get_request s = (a, t) \<Longrightarrow> bs_services t = bs_services s"
  by (auto simp: get_request_def split: prod.splits)

lemma prepare_response_services:
  "prepare_response q reply msg s = (a, body, t) \<Longrightarrow> bs_services t = bs_services s"
  by (auto simp: prepare_response_def get_response_def Let_def split: prod.splits)

lemma get_service_cong: "bs_services s = bs_services t \<Longrightarrow> get_service q s = get_service q t"
  by (simp add: get_service_def split: option.split)

lemma get_service_error: "get_service q s = Inl e \<Longrightarrow> error_text e \<noteq> []"
  by (auto simp: get_service_def lookup_error_def split: option.splits)

lemma job_step_services: "job_step c t \<Longrightarrow> bs_services (cn_server t) = bs_services (cn_server c)"
  by (induction rule: job_step.induct) (auto elim!: conn_elims dest!: prepare_response_services)

lemma job_step_job:
  "job_step c t \<Longrightarrow> j < cn_njobs c \<Longrightarrow> j_kind (cn_jobs t j) = j_kind (cn_jobs c j) \<and>
     j_head (cn_jobs t j) = j_head (cn_jobs c j) \<and>
     (j_kind (cn_jobs c j) = JError \<longrightarrow> j_result (cn_jobs t j) = j_result (cn_jobs c j))"
  by (induction rule: job_step.induct) (auto elim!: conn_elims)

lemma job_step_wire: "job_step c t \<Longrightarrow> set (cn_wire c) \<subseteq> set (cn_wire t)"
  by (induction rule: job_step.induct) (auto elim!: conn_elims)

lemma job_write_wire: "job_write j c = Some t \<Longrightarrow> cn_wire t \<noteq> [] \<and> last (cn_wire t) \<in> set (cn_wire t)"
  by (auto elim!: job_writeE)

text \<open>Steps of the loop that only move it.\<close>

definition quiet :: "serve \<Rightarrow> serve \<Rightarrow> bool" where
  "quiet s t \<longleftrightarrow> so_headers t = so_headers s \<and> (\<forall>f. so_loop t \<noteq> LBody f) \<and>
     cn_njobs (so_conn t) = cn_njobs (so_conn s) \<and> cn_jobs (so_conn t) = cn_jobs (so_conn s) \<and>
     cn_wire (so_conn t) = cn_wire (so_conn s) \<and>
     bs_services (cn_server (so_conn t)) = bs_services (cn_server (so_conn s))"

lemma quiet_steps:
  "serve_get s = Some t \<Longrightarrow> quiet s t"
  "serve_header (Inl e) s = Some t \<Longrightarrow> quiet s t"
  "serve_replied s = Some t \<Longrightarrow> quiet s t"
  "serve_close s = Some t \<Longrightarrow> quiet s t"
  "serve_cancel s = Some t \<Longrightarrow> quiet s t"
  by (auto simp: quiet_def conn_drop_def split: if_splits dest: get_request_services
      elim!: serve_getE conn_getE serve_headerE serve_repliedE serve_closeE serve_cancelE)

lemma serve_header_read:
  assumes "serve_header (Inr q) s = Some t"
  shows "so_headers t = so_headers s @ [q]" "so_loop t = LBody (get_service q (cn_server (so_conn s)))"
    "cn_njobs (so_conn t) = cn_njobs (so_conn s)" "cn_jobs (so_conn t) = cn_jobs (so_conn s)"
    "cn_wire (so_conn t) = cn_wire (so_conn s)"
    "bs_services (cn_server (so_conn t)) = bs_services (cn_server (so_conn s))"
  using assms
  by (auto elim!: serve_headerE conn_fillE simp: current_request_def intro!: get_service_cong)

text \<open>The job a body leads to.\<close>

definition body_job :: "go_error + (service \<times> method_type) \<Rightarrow> go_error + goval \<Rightarrow> job \<Rightarrow> bool" where
  "body_job found b job \<longleftrightarrow>
     (case read_body found b of
        Inl e \<Rightarrow> j_kind job = JError \<and> j_result job = Some (invalid_request, error_text e)
      | Inr (sv, mt, v) \<Rightarrow> j_kind job = JCall sv mt (decoded_argv mt v))"

lemma serve_body_job:
  assumes "serve_body b s = Some t" "so_loop s = LBody found"
  shows "so_headers t = so_headers s" "\<And>f. so_loop t \<noteq> LBody f"
    "cn_njobs (so_conn t) = Suc (cn_njobs (so_conn s))" "cn_wire (so_conn t) = cn_wire (so_conn s)"
    "bs_services (cn_server (so_conn t)) = bs_services (cn_server (so_conn s))"
    "\<And>j. j < cn_njobs (so_conn s) \<Longrightarrow> cn_jobs (so_conn t) j = cn_jobs (so_conn s) j"
    "j_head (cn_jobs (so_conn t) (cn_njobs (so_conn s))) = current_request (so_conn s)"
    "body_job found b (cn_jobs (so_conn t) (cn_njobs (so_conn s)))"
  using assms
  by (auto elim!: serve_bodyE conn_failE conn_spawnE simp: current_request_def body_job_def split: if_splits)


section \<open>Subsequences\<close>

lemma subseq_snoc: "subseq xs ys \<Longrightarrow> subseq (xs @ [z]) (ys @ [z])"
  by simp

lemma subseq_more: "subseq xs ys \<Longrightarrow> subseq xs (ys @ zs)"
  by (induction rule: list_emb.induct) auto

lemma subseq_set: "subseq xs ys \<Longrightarrow> x \<in> set xs \<Longrightarrow> x \<in> set ys"
  by (induction rule: list_emb.induct) auto

lemma subseq_distinct: "subseq xs ys \<Longrightarrow> distinct ys \<Longrightarrow> distinct xs"
  using subseqs_distinctD [of xs ys] by simp


section \<open>Invariants\<close>

definition inv_sent :: "net \<Rightarrow> bool" where
  "inv_sent s \<longleftrightarrow> subseq (nt_read s @ nt_up s) (cl_tried (nt_client s)) \<and>
     set (cl_sent (nt_client s)) \<subseteq> set (nt_read s @ nt_up s) \<and> so_headers (nt_serve s) = map fst (nt_read s)"

definition inv_found :: "basic_server \<Rightarrow> net \<Rightarrow> bool" where
  "inv_found srv s \<longleftrightarrow> bs_services (cn_server (so_conn (nt_serve s))) = bs_services srv \<and>
     (\<forall>f. so_loop (nt_serve s) = LBody f \<longrightarrow> nt_read s \<noteq> [] \<and> f = get_service (fst (last (nt_read s))) srv)"

text \<open>The job for request \<open>q\<close> calls the method looked up for it with its decoded arguments \<open>x\<close>, or is an
  error response.\<close>

definition well_called :: "arg_decoder \<Rightarrow> basic_server \<Rightarrow> request \<times> goval \<Rightarrow> job \<Rightarrow> bool" where
  "well_called decA srv qx job \<longleftrightarrow> j_head job = fst qx \<and>
     (case j_kind job of
        JCall sv mt a \<Rightarrow> get_service (fst qx) srv = Inr (sv, mt) \<and>
          (\<exists>v. decA (body_target (Inr (sv, mt))) (snd qx) = Inr v \<and> a = decoded_argv mt v)
      | JError \<Rightarrow> (\<exists>m. j_result job = Some (invalid_request, m) \<and> m \<noteq> []))"

definition inv_called :: "arg_decoder \<Rightarrow> basic_server \<Rightarrow> net \<Rightarrow> bool" where
  "inv_called decA srv s \<longleftrightarrow>
     (\<forall>j < cn_njobs (so_conn (nt_serve s)). well_called decA srv (nt_read s ! j) (cn_jobs (so_conn (nt_serve s)) j))"

definition written :: "net \<Rightarrow> (response \<times> goval) set" where
  "written s = snd ` set (cn_wire (so_conn (nt_serve s)))"

lemma written_client [simp]:
  "written (s\<lparr>nt_client := c\<rparr>) = written s" "written (s\<lparr>nt_lost := b\<rparr>) = written s"
  "written (s\<lparr>nt_up := up\<rparr>) = written s" "written (s\<lparr>nt_down := down\<rparr>) = written s"
  "written (s\<lparr>nt_got := got\<rparr>) = written s"
  by (simp_all add: written_def)

definition inv_down :: "reply_decoder \<Rightarrow> net \<Rightarrow> bool" where
  "inv_down decR s \<longleftrightarrow> set (nt_down s) \<subseteq> written s \<and>
     (\<forall>k p. cl_reader (nt_client s) = RGot k p \<longrightarrow> nt_got s \<noteq> [] \<and> last (nt_got s) \<in> written s \<and> p = fst (last (nt_got s))) \<and>
     (\<forall>p c v. (p, Some c, Inr v) \<in> set (cl_received (nt_client s)) \<longrightarrow> resp_error p = [] \<longrightarrow>
        (\<exists>x. (p, x) \<in> written s \<and> decR c x = Inr v))"

lemma caller_step_received: "caller_step f s t \<Longrightarrow> cl_received t = cl_received s"
  by (induction rule: caller_step.induct) (auto elim!: op_elims simp: op_allocs split: if_splits)

lemma caller_step_sent: "caller_step f s t \<Longrightarrow> cl_tried t = cl_tried s \<Longrightarrow> cl_sent t = cl_sent s"
  by (induction rule: caller_step.induct) (auto elim!: op_elims simp: op_allocs split: if_splits)

lemma send_write_sent: "send_write r k s = Some t \<Longrightarrow>
    cl_tried t = cl_tried s @ [last (cl_tried t)] \<and>
    cl_sent t = (if r = None then cl_sent s @ [last (cl_tried t)] else cl_sent s) \<and>
    cl_reader t = cl_reader s \<and> cl_received t = cl_received s"
  by (auto elim!: send_writeE)

lemma reader_sent:
  "client_close w s = (r, b, t) \<Longrightarrow> cl_tried t = cl_tried s \<and> cl_sent t = cl_sent s \<and> cl_reader t = cl_reader s \<and> cl_received t = cl_received s"
  "input_header h s = Some t \<Longrightarrow> cl_tried t = cl_tried s \<and> cl_sent t = cl_sent s \<and> cl_received t = cl_received s \<and>
     (\<forall>k p. cl_reader t = RGot k p \<longrightarrow> h = Inr p)"
  "input_terminate ks s = Some t \<Longrightarrow> cl_tried t = cl_tried s \<and> cl_sent t = cl_sent s \<and> cl_received t = cl_received s \<and> cl_reader t = REnded"
  by (auto elim!: client_closeE input_headerE input_terminateE)

lemma input_body_received:
  assumes "input_body b s = Some t"
  obtains k p where "cl_reader s = RGot k p" "cl_received t = cl_received s @ [(p, k, b)]"
    "cl_tried t = cl_tried s" "cl_sent t = cl_sent s" "\<forall>k p. cl_reader t \<noteq> RGot k p"
  using assms by (auto elim!: input_bodyE)


lemma inv_down_mono:
  assumes "inv_down decR s" "written s \<subseteq> written t"
    and "nt_client t = nt_client s" "nt_down t = nt_down s" "nt_got t = nt_got s"
  shows "inv_down decR t"
  using assms(1,2) unfolding inv_down_def assms(3-5) by blast

text \<open>The client's steps.\<close>

lemma inv_sent_cong:
  assumes "inv_sent s" "cl_tried (nt_client t) = cl_tried (nt_client s)" "cl_sent (nt_client t) = cl_sent (nt_client s)"
    and "nt_read t = nt_read s" "nt_up t = nt_up s" "so_headers (nt_serve t) = so_headers (nt_serve s)"
  shows "inv_sent t"
  using assms(1) unfolding inv_sent_def assms(2-6) .

lemma inv_sent_client: "client_side decR s t \<Longrightarrow> inv_sent s \<Longrightarrow> inv_sent t"
proof (induction rule: client_side.induct)
  case (nc_send k s c)
  note w = send_write_sent [OF nc_send(1)]
  have "subseq ((nt_read s @ nt_up s) @ [last (cl_tried c)]) (cl_tried (nt_client s) @ [last (cl_tried c)])"
    by (rule subseq_snoc) (use nc_send(2) in \<open>simp add: inv_sent_def\<close>)
  with w nc_send(2) show ?case by (auto simp: inv_sent_def)
next
  case (nc_refused e k s c)
  note w = send_write_sent [OF nc_refused(1)]
  have "subseq (nt_read s @ nt_up s) (cl_tried c)"
    using nc_refused(2) w subseq_more unfolding inv_sent_def by metis
  with w nc_refused(2) show ?case by (auto simp: inv_sent_def)
next
  case (nc_torn e k s c)
  note w = send_write_sent [OF nc_torn(1)]
  have "subseq ((nt_read s @ nt_up s) @ [last (cl_tried c)]) (cl_tried (nt_client s) @ [last (cl_tried c)])"
    by (rule subseq_snoc) (use nc_torn(2) in \<open>simp add: inv_sent_def\<close>)
  with w nc_torn(2) show ?case by (auto simp: inv_sent_def)
next
  case (nc_caller s c)
  then show ?case using caller_step_sent [OF nc_caller(1)] by (simp add: inv_sent_def)
qed (rule inv_sent_cong, assumption; auto dest: reader_sent elim!: input_body_received)+

lemma inv_down_client:
  assumes "client_side decR s t" "inv_down decR s"
  shows "inv_down decR t"
  using assms(1)
proof (cases rule: client_side.cases)
  case (nc_header p x down c)
  have "(p, x) \<in> written s" using assms(2) nc_header(2) by (simp add: inv_down_def)
  with nc_header show ?thesis
    using assms(2) reader_sent(2) [OF nc_header(3)] by (auto simp: inv_down_def)
next
  case (nc_body k p c)
  from nc_body(4) obtain k' p' where b: "cl_reader (nt_client s) = RGot k' p'"
      "cl_received c = cl_received (nt_client s) @ [(p', k', decR k (snd (last (nt_got s))))]" "\<forall>k p. cl_reader c \<noteq> RGot k p"
    by (rule input_body_received)
  have "(p, snd (last (nt_got s))) \<in> written s" using assms(2) nc_body(2) by (auto simp: inv_down_def)
  with b nc_body assms(2) show ?thesis by (auto simp: inv_down_def) (metis prod.collapse)
next
  case (nc_discard k p v c)
  from nc_discard(4) obtain k' p' where b: "cl_reader (nt_client s) = RGot k' p'"
      "cl_received c = cl_received (nt_client s) @ [(p', k', Inr v)]" "\<forall>k p. cl_reader c \<noteq> RGot k p"
    by (rule input_body_received)
  with nc_discard assms(2) show ?thesis by (auto simp: inv_down_def written_def)
next
  case (nc_no_body e c)
  from nc_no_body(2) obtain k' p' where b: "cl_reader (nt_client s) = RGot k' p'"
      "cl_received c = cl_received (nt_client s) @ [(p', k', Inl e)]" "\<forall>k p. cl_reader c \<noteq> RGot k p"
    by (rule input_body_received)
  with nc_no_body assms(2) show ?thesis by (auto simp: inv_down_def written_def)
next
  case (nc_caller c)
  then show ?thesis
    using assms(2) caller_step_received [OF nc_caller(2)] caller_step_reader [OF nc_caller(2)]
    by (auto simp: inv_down_def written_def)
next
  case (nc_close w r b c)
  then show ?thesis using assms(2) reader_sent(1) [OF nc_close(2)] by (auto simp: inv_down_def written_def)
next
  case (nc_send k c)
  then show ?thesis using assms(2) send_write_sent [OF nc_send(2)] by (auto simp: inv_down_def written_def)
next
  case (nc_refused e k c)
  then show ?thesis using assms(2) send_write_sent [OF nc_refused(2)] by (auto simp: inv_down_def written_def)
next
  case (nc_torn e k c)
  then show ?thesis using assms(2) send_write_sent [OF nc_torn(2)] by (auto simp: inv_down_def written_def)
next
  case (nc_no_header e c)
  then show ?thesis using assms(2) reader_sent(2) [OF nc_no_header(2)] by (auto simp: inv_down_def written_def)
next
  case (nc_terminate ks c)
  then show ?thesis using assms(2) reader_sent(3) [OF nc_terminate(2)] by (auto simp: inv_down_def written_def)
qed

text \<open>The server's steps.\<close>

lemma inv_down_lost [simp]: "inv_down decR (s\<lparr>nt_lost := b\<rparr>) = inv_down decR s"
  by (simp add: inv_down_def)

definition inv_net :: "arg_decoder \<Rightarrow> reply_decoder \<Rightarrow> basic_server \<Rightarrow> net \<Rightarrow> bool" where
  "inv_net decA decR srv s \<longleftrightarrow> inv_sent s \<and> inv_found srv s \<and> inv_called decA srv s \<and> inv_down decR s"

lemma inv_net_lost [simp]: "inv_net decA decR srv (s\<lparr>nt_lost := b\<rparr>) = inv_net decA decR srv s"
  by (simp add: inv_net_def inv_sent_def inv_found_def inv_called_def)

lemma inv_net_quiet:
  assumes "inv_net decA decR srv s" "quiet (nt_serve s) t"
  shows "inv_net decA decR srv (s\<lparr>nt_serve := t\<rparr>)"
  using assms
  by (auto simp: inv_net_def inv_sent_def inv_found_def inv_called_def inv_down_def written_def quiet_def)

lemma inv_net_conn:
  assumes "inv_net decA decR srv s"
    and "bs_services (cn_server c) = bs_services (cn_server (so_conn (nt_serve s)))"
    and "cn_njobs c = cn_njobs (so_conn (nt_serve s))"
    and "\<And>j. j < cn_njobs c \<Longrightarrow> j_kind (cn_jobs c j) = j_kind (cn_jobs (so_conn (nt_serve s)) j) \<and>
      j_head (cn_jobs c j) = j_head (cn_jobs (so_conn (nt_serve s)) j) \<and>
      (j_kind (cn_jobs (so_conn (nt_serve s)) j) = JError \<longrightarrow>
         j_result (cn_jobs c j) = j_result (cn_jobs (so_conn (nt_serve s)) j))"
    and "set (cn_wire (so_conn (nt_serve s))) \<subseteq> set (cn_wire c)"
  shows "inv_net decA decR srv (on_conn c s)"
proof -
  have w: "written s \<subseteq> written (on_conn c s)" using assms(5) by (auto simp: written_def)
  have "well_called decA srv (nt_read s ! j) (cn_jobs c j)" if "j < cn_njobs c" for j
  proof -
    have "well_called decA srv (nt_read s ! j) (cn_jobs (so_conn (nt_serve s)) j)"
      using assms(1,3) that by (simp add: inv_net_def inv_called_def)
    then show ?thesis
      using assms(4) [OF that] by (auto simp: well_called_def split: job_kind.splits)
  qed
  moreover have "inv_down decR (on_conn c s)"
    using assms(1) w by (auto simp: inv_net_def intro: inv_down_mono)
  ultimately show ?thesis
    using assms(1,2,3) by (simp add: inv_net_def inv_sent_def inv_found_def inv_called_def)
qed

lemma inv_net_job:
  assumes "inv_net decA decR srv s" "job_step (so_conn (nt_serve s)) c"
  shows "inv_net decA decR srv (on_conn c s)"
  by (rule inv_net_conn [OF assms(1) job_step_services [OF assms(2)] _ _ job_step_wire [OF assms(2)]])
     (use job_step_frame [OF assms(2)] job_step_job [OF assms(2)] in simp_all)

text \<open>The loop has read a header, or made a job of the request it read last.\<close>

lemma inv_net_headed:
  assumes "inv_net decA decR srv s" "nt_up s = (q, x) # up"
    and "length (nt_read s) = cn_njobs (so_conn (nt_serve s))"
    and "so_headers t = so_headers (nt_serve s) @ [q]" "so_loop t = LBody (get_service q (cn_server (so_conn (nt_serve s))))"
    and "cn_njobs (so_conn t) = cn_njobs (so_conn (nt_serve s))"
    and "\<And>j. j < cn_njobs (so_conn t) \<Longrightarrow> cn_jobs (so_conn t) j = cn_jobs (so_conn (nt_serve s)) j"
    and "cn_wire (so_conn t) = cn_wire (so_conn (nt_serve s))"
    and "bs_services (cn_server (so_conn t)) = bs_services (cn_server (so_conn (nt_serve s)))"
  shows "inv_net decA decR srv (s\<lparr>nt_serve := t, nt_up := up, nt_read := nt_read s @ [(q, x)]\<rparr>)"
  using assms get_service_cong [of "cn_server (so_conn (nt_serve s))" srv q]
  by (auto simp: inv_net_def inv_sent_def inv_found_def inv_called_def inv_down_def written_def nth_append)

lemma inv_net_job_added:
  assumes "inv_net decA decR srv s" "length (nt_read s) = Suc (cn_njobs (so_conn (nt_serve s)))"
    and "well_called decA srv (last (nt_read s)) (cn_jobs (so_conn t) (cn_njobs (so_conn (nt_serve s))))"
    and "so_headers t = so_headers (nt_serve s)" "\<And>f. so_loop t \<noteq> LBody f"
    and "cn_njobs (so_conn t) = Suc (cn_njobs (so_conn (nt_serve s)))" "cn_wire (so_conn t) = cn_wire (so_conn (nt_serve s))"
    and "bs_services (cn_server (so_conn t)) = bs_services (cn_server (so_conn (nt_serve s)))"
    and "\<And>j. j < cn_njobs (so_conn (nt_serve s)) \<Longrightarrow> cn_jobs (so_conn t) j = cn_jobs (so_conn (nt_serve s)) j"
  shows "inv_net decA decR srv (s\<lparr>nt_serve := t\<rparr>)"
proof -
  have "nt_read s ! cn_njobs (so_conn (nt_serve s)) = last (nt_read s)"
    using assms(2) by (metis diff_Suc_1 last_conv_nth length_0_conv nat.distinct(1))
  with assms(1,3,6,9) have "inv_called decA srv (s\<lparr>nt_serve := t\<rparr>)"
    by (auto simp: inv_net_def inv_called_def less_Suc_eq)
  then show ?thesis
    using assms(1,4-8) by (auto simp: inv_net_def inv_sent_def inv_found_def inv_down_def written_def)
qed

lemma inv_net_read:
  assumes "inv_net decA decR srv s" "inv_loop (nt_serve s)" "nt_up s = (q, x) # up"
    and "serve_header (Inr q) (nt_serve s) = Some t"
  shows "inv_net decA decR srv (s\<lparr>nt_serve := t, nt_up := up, nt_read := nt_read s @ [(q, x)]\<rparr>)"
proof -
  have "so_loop (nt_serve s) = LHeader" using assms(4) by (auto elim!: serve_headerE)
  then have "length (nt_read s) = cn_njobs (so_conn (nt_serve s))"
    using arg_cong [OF inv_loop_headers [OF assms(2)], of length] assms(1)
    by (simp add: inv_net_def inv_sent_def)
  from inv_net_headed [OF assms(1,3) this] serve_header_read [OF assms(4)] show ?thesis by simp
qed

text \<open>The request whose body is read next is the last one read.\<close>

lemma last_read:
  assumes "map fst rs = map (\<lambda>j. j_head (jobs j)) [0..<n] @ [q]"
  shows "length rs = Suc n" "fst (last rs) = q"
proof -
  show "length rs = Suc n" using arg_cong [OF assms, of length] by simp
  then have "rs \<noteq> []" by auto
  then show "fst (last rs) = q" using arg_cong [OF assms, of last] by (simp add: last_map)
qed

lemma well_called_body:
  assumes "found = get_service (fst qx) srv" "j_head job = fst qx" "body_job found b job"
    and "b = decA (body_target found) (snd qx) \<or> (\<exists>e. b = Inl e)"
    and "\<And>e. b = Inl e \<Longrightarrow> error_text e \<noteq> []"
  shows "well_called decA srv qx job"
proof (cases found)
  case (Inl e)
  then show ?thesis
    using assms(2,3) get_service_error [of "fst qx" srv e] assms(1)
    by (simp add: well_called_def body_job_def read_body_def)
next
  case (Inr z)
  obtain sv mt where z: "z = (sv, mt)" by (cases z)
  note g = assms(1) [symmetric, unfolded Inr z]
  show ?thesis
  proof (cases b)
    case (Inr v)
    then have "decA (body_target (Inr (sv, mt))) (snd qx) = Inr v" using assms(4) \<open>found = Inr z\<close> z by auto
    then show ?thesis
      using assms(2,3) Inr \<open>found = Inr z\<close> z g by (simp add: well_called_def body_job_def read_body_def)
  qed (use assms(2,3,5) Inr z in \<open>simp add: well_called_def body_job_def read_body_def\<close>)
qed

lemma inv_net_body:
  assumes "inv_net decA decR srv s" "inv_loop (nt_serve s)" "so_loop (nt_serve s) = LBody found"
    and "serve_body b (nt_serve s) = Some t"
    and "b = decA (body_target found) (snd (last (nt_read s))) \<or> (\<exists>e. b = Inl e)"
    and "\<And>e. b = Inl e \<Longrightarrow> error_text e \<noteq> []"
  shows "inv_net decA decR srv (s\<lparr>nt_serve := t\<rparr>)"
proof -
  note B = serve_body_job [OF assms(4,3)]
  have f: "found = get_service (fst (last (nt_read s))) srv"
    using assms(1,3) by (auto simp: inv_net_def inv_found_def)
  have "map fst (nt_read s) = map (\<lambda>j. j_head (cn_jobs (so_conn (nt_serve s)) j)) [0..<cn_njobs (so_conn (nt_serve s))] @
      [current_request (so_conn (nt_serve s))]"
    using inv_loop_headers [OF assms(2)] assms(1,3) by (simp add: inv_net_def inv_sent_def)
  note r = last_read [OF this]
  have w: "well_called decA srv (last (nt_read s)) (cn_jobs (so_conn t) (cn_njobs (so_conn (nt_serve s))))"
    by (rule well_called_body [where b = b and decA = decA, OF f _ B(8) assms(5)]) (simp_all add: B(7) r(2) assms(6))
  show ?thesis by (rule inv_net_job_added [OF assms(1) r(1) w B(1-6)])
qed

lemma inv_net_server:
  assumes "server_side decA s t" "inv_net decA decR srv s" "inv_loop (nt_serve s)"
    and "\<forall>ty x e. decA ty x = Inl e \<longrightarrow> error_text e \<noteq> []"
  shows "inv_net decA decR srv t"
  using assms(1)
proof (cases rule: server_side.cases)
  case (ns_header q x up t')
  then show ?thesis using inv_net_read [OF assms(2,3)] by simp
next
  case (ns_body found t')
  then show ?thesis using inv_net_body [OF assms(2,3) ns_body(2,3)] assms(4) by simp
next
  case (ns_no_body e t')
  then obtain found where "so_loop (nt_serve s) = LBody found" by (auto elim!: serve_bodyE)
  then have "inv_net decA decR srv (s\<lparr>nt_serve := t'\<rparr>)"
    using inv_net_body [OF assms(2,3) _ ns_no_body(2)] ns_no_body(3) by simp
  then show ?thesis unfolding ns_no_body(1) by (simp only: inv_net_lost)
next
  case (ns_no_header e t')
  show ?thesis
    unfolding ns_no_header(1) inv_net_lost
    by (rule inv_net_quiet [OF assms(2) quiet_steps(2) [OF ns_no_header(2)]])
next
  case (ns_no_write j c)
  then show ?thesis using inv_net_job [OF assms(2) js_write [OF ns_no_write(2)]] by simp
next
  case (ns_job c)
  then show ?thesis
    using inv_net_job [OF assms(2)] by simp
next
  case (ns_write j c)
  have i: "inv_net decA decR srv (on_conn c s)" by (rule inv_net_job [OF assms(2) js_write [OF ns_write(2)]])
  have "snd (last (cn_wire c)) \<in> written (on_conn c s)"
    using job_write_wire [OF ns_write(2)] by (simp add: written_def)
  then show ?thesis
    using i unfolding ns_write(1)
    by (auto simp: inv_net_def inv_sent_def inv_found_def inv_called_def inv_down_def written_def)
next
  case (ns_env c)
  then show ?thesis using inv_net_conn [OF assms(2) ns_env(3)] env_step_frame [OF ns_env(2)] by simp
qed (use inv_net_quiet [OF assms(2)] quiet_steps in blast)+

lemma net_reach_inv:
  assumes "net_reach decA decR srv s" "\<forall>ty x e. decA ty x = Inl e \<longrightarrow> error_text e \<noteq> []"
  shows "inv_net decA decR srv s"
  using assms(1)
proof (induction rule: net_reach.induct)
  case (nr_new oreqs oresps st)
  show ?case
    by (simp add: inv_net_def inv_sent_def inv_found_def inv_called_def inv_down_def new_net_def
        serve_codec_def new_conn_def new_pending_def new_basic_client_def split: prod.splits)
next
  case (nr_client s t)
  note c = client_side_client [OF nr_client(2)]
  have "inv_sent t" "inv_down decR t"
    using inv_sent_client [OF nr_client(2)] inv_down_client [OF nr_client(2)] nr_client(3)
    by (simp_all add: inv_net_def)
  then show ?case using nr_client(3) c by (simp add: inv_net_def inv_found_def inv_called_def)
next
  case (nr_server s t)
  have "inv_loop (nt_serve s)" using net_reach_sides [OF nr_server(1)] serve_invD(3) by blast
  then show ?case by (rule inv_net_server [OF nr_server(2,3) _ assms(2)])
qed

text \<open>The same for a view of another state: the client's half moves as in Network, or not at all.\<close>

definition client_moves :: "reply_decoder \<Rightarrow> net \<Rightarrow> net \<Rightarrow> bool" where
  "client_moves decR s t \<longleftrightarrow> t = s \<or> (\<exists>l. client_side decR s (t\<lparr>nt_lost := l\<rparr>))"

lemma client_moves_lost [intro]: "client_side decR s (t\<lparr>nt_lost := l\<rparr>) \<Longrightarrow> client_moves decR s t"
  by (auto simp: client_moves_def)

lemma client_moves_step: "client_side decR s t \<Longrightarrow> nt_lost t = l \<Longrightarrow> client_moves decR s t"
  by (rule client_moves_lost [where l = l]) (cases t; simp)

lemma inv_net_client_moves:
  assumes "client_moves decR s t" "inv_net decA decR srv s"
  shows "inv_net decA decR srv t"
  using assms(1) unfolding client_moves_def
proof (elim disjE exE)
  fix l assume c: "client_side decR s (t\<lparr>nt_lost := l\<rparr>)"
  have "inv_sent (t\<lparr>nt_lost := l\<rparr>)" "inv_down decR (t\<lparr>nt_lost := l\<rparr>)"
    using inv_sent_client [OF c] inv_down_client [OF c] assms(2) by (simp_all add: inv_net_def)
  moreover have "nt_serve t = nt_serve s" "nt_read t = nt_read s" using client_side_client [OF c] by simp_all
  ultimately show ?thesis using assms(2) by (simp add: inv_net_def inv_sent_def inv_found_def inv_called_def)
qed (use assms(2) in simp)


section \<open>Jobs and calls\<close>

lemma net_length:
  assumes "inv_sent s" "inv_loop (nt_serve s)"
  shows "cn_njobs (so_conn (nt_serve s)) \<le> length (nt_read s)"
  using arg_cong [OF inv_loop_headers [OF assms(2)], of length] assms(1) by (simp add: inv_sent_def)

lemma net_jobs_distinct:
  assumes "inv_net decA decR srv s" and n: "cn_njobs (so_conn (nt_serve s)) \<le> length (nt_read s)"
    and "inv_wire (nt_client s)"
    and "j < cn_njobs (so_conn (nt_serve s))" "k < cn_njobs (so_conn (nt_serve s))"
    and "req_seq (j_head (cn_jobs (so_conn (nt_serve s)) j)) = req_seq (j_head (cn_jobs (so_conn (nt_serve s)) k))"
  shows "j = k"
proof -
  have sent: "subseq (map (req_seq \<circ> fst) (nt_read s @ nt_up s)) (map (req_seq \<circ> fst) (cl_tried (nt_client s)))"
    using assms(1) by (intro subseq_map) (simp add: inv_net_def inv_sent_def)
  have h: "j_head (cn_jobs (so_conn (nt_serve s)) i) = fst (nt_read s ! i)"
    if "i < cn_njobs (so_conn (nt_serve s))" for i
    using assms(1) that by (simp add: inv_net_def inv_called_def well_called_def)
  have "distinct (map (req_seq \<circ> fst) (nt_read s @ nt_up s))"
    using inv_wire_sorted [OF assms(3)] sent strict_sorted_iff subseq_distinct by blast
  then have d: "distinct (map (req_seq \<circ> fst) (nt_read s))" by simp
  have "map (req_seq \<circ> fst) (nt_read s) ! j = map (req_seq \<circ> fst) (nt_read s) ! k"
    using assms(4-6) n h by simp
  then show ?thesis
    by (rule nth_eq_iff_index_eq [OF d, THEN iffD1, rotated 2]) (use assms(4,5) n in simp_all)
qed

lemma net_job_call:
  assumes "inv_net decA decR srv s" "cn_njobs (so_conn (nt_serve s)) \<le> length (nt_read s)" "inv_wire (nt_client s)"
    and "j < cn_njobs (so_conn (nt_serve s))"
  obtains c where "c \<in> set (cl_registered (nt_client s))" "is_request_of (nt_client s) (nt_read s ! j) c"
proof -
  have "nt_read s ! j \<in> set (cl_tried (nt_client s))"
    using assms(1,2,4) by (auto simp: inv_net_def inv_sent_def dest!: subseq_set [where x = "nt_read s ! j"])
  with inv_wire_of [OF assms(3)] that show thesis by blast
qed

text \<open>What has been written are the answers of jobs.\<close>

definition answers_written :: "net \<Rightarrow> bool" where
  "answers_written s \<longleftrightarrow> (\<forall>(p, x) \<in> written s. \<exists>j < cn_njobs (so_conn (nt_serve s)).
     answer (cn_jobs (so_conn (nt_serve s)) j) = Some (p, x))"

lemma answers_written_conn: "conn_inv (so_conn (nt_serve s)) \<Longrightarrow> answers_written s"
  using inv_wire_entry [OF conn_invD(4)] unfolding answers_written_def written_def by fastforce

lemma net_written_job:
  assumes "answers_written s" "(p, x) \<in> written s"
  obtains j where "j < cn_njobs (so_conn (nt_serve s))" "answer (cn_jobs (so_conn (nt_serve s)) j) = Some (p, x)"
  using assms unfolding answers_written_def by blast

text \<open>All that the two ends of a connection owe each other.\<close>

definition linked :: "arg_decoder \<Rightarrow> reply_decoder \<Rightarrow> basic_server \<Rightarrow> net \<Rightarrow> bool" where
  "linked decA decR srv s \<longleftrightarrow> inv_net decA decR srv s \<and> client_reach (nt_client s) \<and>
     answers_written s \<and> cn_njobs (so_conn (nt_serve s)) \<le> length (nt_read s)"

lemma linkedD:
  assumes "linked decA decR srv s"
  shows "inv_net decA decR srv s" "client_reach (nt_client s)" "answers_written s"
    "cn_njobs (so_conn (nt_serve s)) \<le> length (nt_read s)"
  using assms unfolding linked_def by blast+

lemma net_reach_linked:
  assumes "net_reach decA decR srv s" and "\<forall>ty x e. decA ty x = Inl e \<longrightarrow> error_text e \<noteq> []"
  shows "linked decA decR srv s"
proof -
  have N: "inv_net decA decR srv s" by (rule net_reach_inv [OF assms])
  have R: "client_reach (nt_client s)" "serve_reach (nt_serve s)" using net_reach_sides [OF assms(1)] by auto
  then show ?thesis
    using N answers_written_conn [OF serve_invD(2) [OF R(2)]] net_length [OF _ serve_invD(3) [OF R(2)]]
    by (simp add: linked_def inv_net_def)
qed

text \<open>What stands behind a \<open>Call\<close> that returned nil.\<close>

lemma nil_callE:
  assumes K: "linked decA decR srv s"
    and B: "cl_ncalls (nt_client s) < 2 ^ 64" and D: "cl_caller (nt_client s) c = Some (CDone None)"
  obtains j sv mt v result x where "j < cn_njobs (so_conn (nt_serve s))"
    "get_service \<lparr>req_method = c_method (cl_calls (nt_client s) c), req_seq = c_seq (cl_calls (nt_client s) c)\<rparr> srv =
      Inr (sv, mt)"
    "decA (body_target (Inr (sv, mt))) (c_args (cl_calls (nt_client s) c)) = Inr v"
    "j_kind (cn_jobs (so_conn (nt_serve s)) j) = JCall sv mt (decoded_argv mt v)"
    "j_result (cn_jobs (so_conn (nt_serve s)) j) = Some (result, [])"
    "decR c result = Inr x" "c_reply (cl_calls (nt_client s) c) \<in> {None, Some x}"
    "\<forall>k < cn_njobs (so_conn (nt_serve s)).
       req_seq (j_head (cn_jobs (so_conn (nt_serve s)) k)) = c_seq (cl_calls (nt_client s) c) \<longrightarrow> k = j"
    "req_seq (j_head (cn_jobs (so_conn (nt_serve s)) j)) = c_seq (cl_calls (nt_client s) c)"
proof -
  let ?c = "cl_calls (nt_client s) c" and ?jobs = "cn_jobs (so_conn (nt_serve s))"
  note N = linkedD(1) [OF K] and C = linkedD(2) [OF K] and S = linkedD(3) [OF K] and L = linkedD(4) [OF K]
  note W = reach_wire [OF C B]
  have "answered (nt_client s) c"
    using inv_result_caller [OF reach_result [OF C B] D] inv_result_answered [OF reach_result [OF C B]] by blast
  then obtain p v where a: "c \<in> set (cl_registered (nt_client s))" "(p, Some c, Inr v) \<in> set (cl_received (nt_client s))"
      "resp_seq p = c_seq ?c" "resp_error p = []" "c_reply ?c \<in> {None, Some v}"
    by (auto simp: answered_def)
  obtain x where x: "(p, x) \<in> written s" "decR c x = Inr v"
    using N a(2,4) unfolding inv_net_def inv_down_def by blast
  obtain j where j: "j < cn_njobs (so_conn (nt_serve s))" "answer (?jobs j) = Some (p, x)"
    by (rule net_written_job [OF S x(1)])
  have r: "j_result (?jobs j) = Some (x, [])" "req_seq (j_head (?jobs j)) = c_seq ?c"
    using j(2) a(3,4) by (auto simp: answer_def split: option.splits)
  obtain c' where c': "c' \<in> set (cl_registered (nt_client s))" "is_request_of (nt_client s) (nt_read s ! j) c'"
    by (rule net_job_call [OF N L W j(1)])
  have w: "well_called decA srv (nt_read s ! j) (?jobs j)" using N j(1) by (simp add: inv_net_def inv_called_def)
  then have "c_seq (cl_calls (nt_client s) c') = c_seq ?c"
    using c'(2) r(2) by (simp add: well_called_def is_request_of_def)
  then have "c' = c"
    using inv_seq_inj [OF reach_seq [OF C B] _ c'(1) a(1)] B by (simp add: bounded_def)
  with w c'(2) r(1) obtain sv mt u where u: "j_kind (?jobs j) = JCall sv mt (decoded_argv mt u)"
      "get_service \<lparr>req_method = c_method ?c, req_seq = c_seq ?c\<rparr> srv = Inr (sv, mt)"
      "decA (body_target (Inr (sv, mt))) (c_args ?c) = Inr u"
    by (auto simp: well_called_def is_request_of_def split: job_kind.splits)
  have "k = j" if "k < cn_njobs (so_conn (nt_serve s))" "req_seq (j_head (?jobs k)) = c_seq ?c" for k
    by (rule net_jobs_distinct [OF N L W that(1) j(1)]) (simp add: that(2) r(2))
  then show thesis using that u j(1) r x(2) a(5) by blast
qed

lemmas net_nil_callE = nil_callE [OF net_reach_linked]

text \<open>What stands behind a request that is served.\<close>

lemma served_callE:
  assumes K: "linked decA decR srv s" and B: "cl_ncalls (nt_client s) < 2 ^ 64"
    and j: "j < cn_njobs (so_conn (nt_serve s))"
  obtains c where "c \<in> set (cl_registered (nt_client s))"
    "j_head (cn_jobs (so_conn (nt_serve s)) j) =
      \<lparr>req_method = c_method (cl_calls (nt_client s) c), req_seq = c_seq (cl_calls (nt_client s) c)\<rparr>"
    "\<forall>sv mt a. j_kind (cn_jobs (so_conn (nt_serve s)) j) = JCall sv mt a \<longrightarrow>
       get_service (j_head (cn_jobs (so_conn (nt_serve s)) j)) srv = Inr (sv, mt) \<and>
       (\<exists>v. decA (body_target (Inr (sv, mt))) (c_args (cl_calls (nt_client s) c)) = Inr v \<and> a = decoded_argv mt v)"
    "\<forall>k < cn_njobs (so_conn (nt_serve s)). k \<noteq> j \<longrightarrow>
       req_seq (j_head (cn_jobs (so_conn (nt_serve s)) k)) \<noteq> c_seq (cl_calls (nt_client s) c)"
proof -
  note N = linkedD(1) [OF K] and L = linkedD(4) [OF K] and W = reach_wire [OF linkedD(2) [OF K] B]
  obtain c where c: "c \<in> set (cl_registered (nt_client s))" "is_request_of (nt_client s) (nt_read s ! j) c"
    by (rule net_job_call [OF N L W j])
  have w: "well_called decA srv (nt_read s ! j) (cn_jobs (so_conn (nt_serve s)) j)"
    using N j by (simp add: inv_net_def inv_called_def)
  then have h: "j_head (cn_jobs (so_conn (nt_serve s)) j) =
      \<lparr>req_method = c_method (cl_calls (nt_client s) c), req_seq = c_seq (cl_calls (nt_client s) c)\<rparr>"
    using c(2) by (simp add: well_called_def is_request_of_def)
  show thesis
  proof (rule that [OF c(1) h])
    show "\<forall>k < cn_njobs (so_conn (nt_serve s)). k \<noteq> j \<longrightarrow>
        req_seq (j_head (cn_jobs (so_conn (nt_serve s)) k)) \<noteq> c_seq (cl_calls (nt_client s) c)"
      using net_jobs_distinct [OF N L W _ j] h by auto
  qed (use w c(2) in \<open>auto simp: well_called_def is_request_of_def\<close>)
qed


section \<open>Concrete runs\<close>

text \<open>The client's steps, the transmissions, and the server's steps, with codecs that change nothing.\<close>

datatype nact =
    NClient act
  | NSend nat
  | NHeader
  | NBody
  | NServe sact
  | NWrite nat
  | NReadHeader
  | NReadBody

fun quiet_act :: "act \<Rightarrow> bool" where
  "quiet_act (AWrite w c) = False"
| "quiet_act (AHeader h) = False"
| "quiet_act (ABody b) = False"
| "quiet_act (ATerminate ks) = False"
| "quiet_act AClose = False"
| "quiet_act a = True"

fun loop_act :: "sact \<Rightarrow> bool" where
  "loop_act (SHeader h) = False"
| "loop_act (SBody b) = False"
| "loop_act (SJob (CWrite j)) = False"
| "loop_act a = True"

text \<open>Those that leave a codec alone.\<close>

fun codec_act :: "sact \<Rightarrow> bool" where
  "codec_act SClose = False"
| "codec_act a = loop_act a"

definition plain_args :: arg_decoder where
  "plain_args ty x = Inr x"

definition plain_reply :: reply_decoder where
  "plain_reply c x = Inr x"

fun nact_step :: "nact \<Rightarrow> net \<Rightarrow> net option" where
  "nact_step (NClient a) s =
     (if quiet_act a then map_option (\<lambda>c. s\<lparr>nt_client := c\<rparr>) (act_step a (nt_client s)) else None)"
| "nact_step (NSend k) s =
     map_option (\<lambda>c. s\<lparr>nt_client := c, nt_up := nt_up s @ [last (cl_tried c)]\<rparr>) (send_write None k (nt_client s))"
| "nact_step NHeader s =
     (case nt_down s of
        [] \<Rightarrow> None
      | (p, x) # down \<Rightarrow>
          map_option (\<lambda>c. s\<lparr>nt_client := c, nt_down := down, nt_got := nt_got s @ [(p, x)]\<rparr>) (input_header (Inr p) (nt_client s)))"
| "nact_step NBody s =
     (case cl_reader (nt_client s) of
        RGot (Some k) p \<Rightarrow>
          if resp_error p = []
          then map_option (\<lambda>c. s\<lparr>nt_client := c\<rparr>) (input_body (plain_reply k (snd (last (nt_got s)))) (nt_client s)) else None
      | _ \<Rightarrow> None)"
| "nact_step (NServe a) s =
     (if loop_act a then map_option (\<lambda>t. s\<lparr>nt_serve := t\<rparr>) (sact_step a (nt_serve s)) else None)"
| "nact_step (NWrite j) s =
     map_option (\<lambda>c. (on_conn c s)\<lparr>nt_down := nt_down s @ [snd (last (cn_wire c))]\<rparr>)
       (job_write j (so_conn (nt_serve s)))"
| "nact_step NReadHeader s =
     (case nt_up s of
        [] \<Rightarrow> None
      | (q, x) # up \<Rightarrow>
          map_option (\<lambda>t. s\<lparr>nt_serve := t, nt_up := up, nt_read := nt_read s @ [(q, x)]\<rparr>)
            (serve_header (Inr q) (nt_serve s)))"
| "nact_step NReadBody s =
     (case so_loop (nt_serve s) of
        LBody found \<Rightarrow>
          map_option (\<lambda>t. s\<lparr>nt_serve := t\<rparr>)
            (serve_body (plain_args (body_target found) (snd (last (nt_read s)))) (nt_serve s))
      | _ \<Rightarrow> None)"

fun nact_run :: "nact list \<Rightarrow> net \<Rightarrow> net option" where
  "nact_run [] s = Some s"
| "nact_run (a # as) s = (case nact_step a s of None \<Rightarrow> None | Some t \<Rightarrow> nact_run as t)"

lemma act_step_caller: "quiet_act a \<Longrightarrow> act_step a s = Some t \<Longrightarrow> caller_step True s t"
  by (cases a) (auto intro: caller_step.intros)

lemma act_step_sent: "quiet_act a \<Longrightarrow> act_step a s = Some t \<Longrightarrow> cl_tried t = cl_tried s"
  by (cases a) (auto elim!: op_elims simp: op_allocs split: if_splits)

lemma cact_step_wire: "loop_act (SJob d) \<Longrightarrow> job_act d \<Longrightarrow> cact_step d c = Some t \<Longrightarrow> cn_wire t = cn_wire c"
  by (cases d) (auto elim!: conn_elims)

lemma nact_step_sound: "nact_step a s = Some t \<Longrightarrow> client_side plain_reply s t \<or> server_side plain_args s t"
proof (cases a)
  case (NClient b)
  assume "nact_step a s = Some t"
  with NClient show ?thesis by (auto dest: act_step_caller act_step_sent intro: nc_caller split: if_splits)
next
  case (NServe b)
  assume s: "nact_step a s = Some t"
  show ?thesis
  proof (cases b)
    case (SJob d)
    with s NServe obtain c where "job_step (so_conn (nt_serve s)) c" "t = on_conn c s"
        "cn_wire c = cn_wire (so_conn (nt_serve s))"
      by (auto simp: on_conn_def dest: cact_step_job cact_step_wire split: if_splits)
    then show ?thesis by (blast intro: ns_job)
  qed (use s NServe in \<open>auto intro: server_side.intros\<close>)
qed (auto intro: client_side.intros server_side.intros
       split: list.splits reader_pc.splits option.splits if_splits loop_pc.splits)

lemma nact_run_reach:
  "net_reach plain_args plain_reply srv s \<Longrightarrow> nact_run as s = Some t \<Longrightarrow> net_reach plain_args plain_reply srv t"
  by (induction as arbitrary: s)
     (auto split: option.splits dest!: nact_step_sound intro: nr_client nr_server)

text \<open>One call, answered.\<close>

definition round_trip_run :: "nact list" where
  "round_trip_run =
     [NClient (ACall ''Arith.Add'' (VInt 7) (Some (VInt 0))), NClient (AEnter 0), NSend 0,
      NServe SGet, NReadHeader, NReadBody] @
     map (NServe \<circ> SJob) [CStart 0, CReturn (VPtr (VInt 15)) None 0, CPrepare 0, CLock 0] @
     [NWrite 0, NHeader, NBody, NClient (AReceive 0)]"

lemmas net_eval [run_eval] = new_net_def on_conn_def plain_args_def plain_reply_def

lemma round_trip_run_ends:
  "\<exists>s. nact_run round_trip_run (new_net arith_server {} {} fresh_store) = Some s \<and>
     cl_ncalls (nt_client s) = 1 \<and> cl_caller (nt_client s) 0 = Some (CDone None) \<and>
     c_reply (cl_calls (nt_client s) 0) = Some (VPtr (VInt 15)) \<and> cn_njobs (so_conn (nt_serve s)) = 1"
  by (simp add: round_trip_run_def run_eval cancel_func_def)

lemma round_trip_run_reach:
  obtains s where "net_reach plain_args plain_reply arith_server s" "cl_ncalls (nt_client s) = 1"
    "cl_caller (nt_client s) 0 = Some (CDone None)" "c_reply (cl_calls (nt_client s) 0) = Some (VPtr (VInt 15))"
    "cn_njobs (so_conn (nt_serve s)) = 1"
proof -
  have n: "net_reach plain_args plain_reply arith_server (new_net arith_server {} {} fresh_store)"
    by (rule nr_new [OF ready_arith]) (simp add: fresh_store_def root_ctxs_def ctx_err_def background_def)
  show thesis using round_trip_run_ends by (elim exE conjE) (rule that [OF nact_run_reach [OF n]])
qed



section \<open>Properties\<close>

text \<open>
  C2: a \<open>Call\<close> that returns nil has had its effect, once: the server looked up its method under its name,
  ran it with its own arguments as decoded, it returned without an error, and the reply holds what
  decoding its result gave; no other request was served under the call's number. This holds for every
  interleaving of client, server, handlers and others on the server's free lists, for messages lost in
  either direction, and for every codec whose errors have a text (an error without one would be sent as
  a success).
\<close>

theorem successful_call_ran_its_method:
  assumes "net_reach decA decR srv s" and "\<forall>ty x e. decA ty x = Inl e \<longrightarrow> error_text e \<noteq> []"
    and "cl_ncalls (nt_client s) < 2 ^ 64" and "cl_caller (nt_client s) c = Some (CDone None)"
  shows "\<exists>j sv mt v result x. j < cn_njobs (so_conn (nt_serve s)) \<and>
    get_service \<lparr>req_method = c_method (cl_calls (nt_client s) c), req_seq = c_seq (cl_calls (nt_client s) c)\<rparr> srv =
      Inr (sv, mt) \<and>
    decA (body_target (Inr (sv, mt))) (c_args (cl_calls (nt_client s) c)) = Inr v \<and>
    j_kind (cn_jobs (so_conn (nt_serve s)) j) = JCall sv mt (decoded_argv mt v) \<and>
    j_result (cn_jobs (so_conn (nt_serve s)) j) = Some (result, []) \<and>
    decR c result = Inr x \<and> c_reply (cl_calls (nt_client s) c) \<in> {None, Some x} \<and>
    (\<forall>k < cn_njobs (so_conn (nt_serve s)).
       req_seq (j_head (cn_jobs (so_conn (nt_serve s)) k)) = c_seq (cl_calls (nt_client s) c) \<longrightarrow> k = j)"
  by (rule net_nil_callE [OF assms]) (intro exI conjI, assumption+)

theorem successful_call_ran_its_method_witness:
  "\<exists>s j sv mt v. net_reach plain_args plain_reply arith_server s \<and> cl_caller (nt_client s) 0 = Some (CDone None) \<and>
     j_kind (cn_jobs (so_conn (nt_serve s)) j) = JCall sv mt (decoded_argv mt v) \<and>
     j_result (cn_jobs (so_conn (nt_serve s)) j) = Some (VPtr (VInt 15), [])"
proof -
  obtain s where s: "net_reach plain_args plain_reply arith_server s" "cl_ncalls (nt_client s) = 1"
    "cl_caller (nt_client s) 0 = Some (CDone None)" "c_reply (cl_calls (nt_client s) 0) = Some (VPtr (VInt 15))"
    "cn_njobs (so_conn (nt_serve s)) = 1" by (rule round_trip_run_reach)
  have "\<forall>ty x e. plain_args ty x = Inl e \<longrightarrow> error_text e \<noteq> []" by (simp add: plain_args_def)
  from successful_call_ran_its_method [OF s(1) this _ s(3)] s(2)
  obtain j sv mt v result x where j:
    "j_kind (cn_jobs (so_conn (nt_serve s)) j) = JCall sv mt (decoded_argv mt v)"
    "j_result (cn_jobs (so_conn (nt_serve s)) j) = Some (result, [])" "plain_reply 0 result = Inr x"
    "c_reply (cl_calls (nt_client s) 0) \<in> {None, Some x}"
    by (simp only: one_less_numeral_iff) fastforce
  then have "result = VPtr (VInt 15)" using s(4) by (simp add: plain_reply_def)
  with s(1,3) j(1,2) show ?thesis by blast
qed

text \<open>
  C3: the server executes each call at most once and nothing else: every request it serves was made by a
  registered call of the client, with that call's method and number, is decoded from that call's
  arguments into a call of the method registered under that name, and no two requests served have the
  same number.
\<close>

theorem calls_are_executed_at_most_once:
  assumes "net_reach decA decR srv s" and "\<forall>ty x e. decA ty x = Inl e \<longrightarrow> error_text e \<noteq> []"
    and "cl_ncalls (nt_client s) < 2 ^ 64" and "j < cn_njobs (so_conn (nt_serve s))"
  shows "\<exists>c \<in> set (cl_registered (nt_client s)).
    j_head (cn_jobs (so_conn (nt_serve s)) j) =
      \<lparr>req_method = c_method (cl_calls (nt_client s) c), req_seq = c_seq (cl_calls (nt_client s) c)\<rparr> \<and>
    (\<forall>sv mt a. j_kind (cn_jobs (so_conn (nt_serve s)) j) = JCall sv mt a \<longrightarrow>
       get_service (j_head (cn_jobs (so_conn (nt_serve s)) j)) srv = Inr (sv, mt) \<and>
       (\<exists>v. decA (body_target (Inr (sv, mt))) (c_args (cl_calls (nt_client s) c)) = Inr v \<and> a = decoded_argv mt v)) \<and>
    (\<forall>k < cn_njobs (so_conn (nt_serve s)). k \<noteq> j \<longrightarrow>
       req_seq (j_head (cn_jobs (so_conn (nt_serve s)) k)) \<noteq> c_seq (cl_calls (nt_client s) c))"
proof -
  show ?thesis
    by (rule served_callE [OF net_reach_linked [OF assms(1,2)] assms(3,4)]) (intro bexI conjI, assumption+)
qed

theorem calls_are_executed_at_most_once_witness:
  "\<exists>s. net_reach plain_args plain_reply arith_server s \<and> cn_njobs (so_conn (nt_serve s)) = 1 \<and>
     (\<exists>c. j_head (cn_jobs (so_conn (nt_serve s)) 0) =
        \<lparr>req_method = c_method (cl_calls (nt_client s) c), req_seq = c_seq (cl_calls (nt_client s) c)\<rparr>)"
proof -
  obtain s where s: "net_reach plain_args plain_reply arith_server s" "cl_ncalls (nt_client s) = 1"
    "cn_njobs (so_conn (nt_serve s)) = 1" by (rule round_trip_run_reach)
  have "\<forall>ty x e. plain_args ty x = Inl e \<longrightarrow> error_text e \<noteq> []" by (simp add: plain_args_def)
  from calls_are_executed_at_most_once [OF s(1) this, of 0] s show ?thesis by auto
qed

end
