(* ===== verification/NetworkLive.thy ===== *)
theory NetworkLive
  imports NetworkProps
begin

text \<open>
  Progress of a network whose connection has not failed: the deliveries, the steps that bring the calls
  already made towards their completion, always include one while such a call is open, and they run out.
\<close>

section \<open>Deliveries\<close>

text \<open>\<open>WriteRequest\<close> and what follows its error, the server's loop and handlers, the client's reader.\<close>

inductive delivery :: "arg_decoder \<Rightarrow> reply_decoder \<Rightarrow> net \<Rightarrow> net \<Rightarrow> bool" for decA decR where
  dl_send: "send_write None k (nt_client s) = Some c \<Longrightarrow>
    delivery decA decR s (s\<lparr>nt_client := c, nt_up := nt_up s @ [last (cl_tried c)]\<rparr>)"
| dl_unregister: "send_unregister k (nt_client s) = Some c \<Longrightarrow> delivery decA decR s (s\<lparr>nt_client := c\<rparr>)"
| dl_get: "serve_get (nt_serve s) = Some t \<Longrightarrow> delivery decA decR s (s\<lparr>nt_serve := t\<rparr>)"
| dl_take: "nt_up s = (q, x) # up \<Longrightarrow> serve_header (Inr q) (nt_serve s) = Some t \<Longrightarrow>
    delivery decA decR s (s\<lparr>nt_serve := t, nt_up := up, nt_read := nt_read s @ [(q, x)]\<rparr>)"
| dl_args: "so_loop (nt_serve s) = LBody found \<Longrightarrow>
    serve_body (decA (body_target found) (snd (last (nt_read s)))) (nt_serve s) = Some t \<Longrightarrow>
    delivery decA decR s (s\<lparr>nt_serve := t\<rparr>)"
| dl_replied: "serve_replied (nt_serve s) = Some t \<Longrightarrow> delivery decA decR s (s\<lparr>nt_serve := t\<rparr>)"
| dl_job: "job_step (so_conn (nt_serve s)) c \<Longrightarrow> cn_wire c = cn_wire (so_conn (nt_serve s)) \<Longrightarrow>
    delivery decA decR s (on_conn c s)"
| dl_write: "job_write j (so_conn (nt_serve s)) = Some c \<Longrightarrow>
    delivery decA decR s ((on_conn c s)\<lparr>nt_down := nt_down s @ [snd (last (cn_wire c))]\<rparr>)"
| dl_header: "nt_down s = (p, x) # down \<Longrightarrow> input_header (Inr p) (nt_client s) = Some c \<Longrightarrow>
    delivery decA decR s (s\<lparr>nt_client := c, nt_down := down, nt_got := nt_got s @ [(p, x)]\<rparr>)"
| dl_reply: "cl_reader (nt_client s) = RGot (Some k) p \<Longrightarrow> resp_error p = [] \<Longrightarrow>
    input_body (decR k (snd (last (nt_got s)))) (nt_client s) = Some c \<Longrightarrow>
    delivery decA decR s (s\<lparr>nt_client := c\<rparr>)"
| dl_discard: "cl_reader (nt_client s) = RGot k p \<Longrightarrow> k = None \<or> resp_error p \<noteq> [] \<Longrightarrow>
    input_body (Inr v) (nt_client s) = Some c \<Longrightarrow> delivery decA decR s (s\<lparr>nt_client := c\<rparr>)"
| dl_end: "input_terminate ks (nt_client s) = Some c \<Longrightarrow> delivery decA decR s (s\<lparr>nt_client := c\<rparr>)"

lemma delivery_sides: "delivery decA decR s t \<Longrightarrow> client_side decR s t \<or> server_side decA s t"
proof (induction rule: delivery.induct)
  case (dl_unregister k s c)
  have "caller_step True (nt_client s) c" by (rule ca_unregister [OF dl_unregister])
  moreover have "cl_tried c = cl_tried (nt_client s)" using dl_unregister by (auto elim!: send_unregisterE)
  ultimately show ?case by (blast intro: nc_caller)
qed (blast intro: client_side.intros server_side.intros)+

lemma delivery_reach: "net_reach decA decR srv s \<Longrightarrow> delivery decA decR s t \<Longrightarrow> net_reach decA decR srv t"
  using delivery_sides by (blast intro: nr_client nr_server)

lemma reader_frame:
  "input_header h s = Some t \<Longrightarrow> cl_ncalls t = cl_ncalls s \<and> cl_sender t = cl_sender s \<and> cl_caller t = cl_caller s"
  "input_body b s = Some t \<Longrightarrow> cl_ncalls t = cl_ncalls s \<and> cl_sender t = cl_sender s \<and> cl_caller t = cl_caller s"
  "input_terminate ks s = Some t \<Longrightarrow> cl_ncalls t = cl_ncalls s \<and> cl_sender t = cl_sender s \<and> cl_caller t = cl_caller s"
  by (auto elim!: input_headerE input_bodyE input_terminateE)

lemma delivery_frame:
  "delivery decA decR s t \<Longrightarrow> nt_lost t = nt_lost s \<and> cl_ncalls (nt_client t) = cl_ncalls (nt_client s) \<and>
     cl_caller (nt_client t) = cl_caller (nt_client s) \<and>
     (cl_sender (nt_client s) c = Some SDone \<longrightarrow> cl_sender (nt_client t) c = Some SDone)"
  by (induction rule: delivery.induct) (auto dest: reader_frame elim!: send_writeE send_unregisterE)


section \<open>Invariants of a connection that has not failed\<close>

text \<open>A pending call was written, or is being written.\<close>

definition inv_written :: "client \<Rightarrow> bool" where
  "inv_written s \<longleftrightarrow> (\<forall>n c. cl_pending s n = Some c \<longrightarrow>
     in_write (cl_sender s c) \<or> (\<exists>x \<in> set (cl_sent s). req_seq (fst x) = n))"

lemma inv_written_weaken:
  assumes "inv_written s" and "\<And>n c. cl_pending t n = Some c \<Longrightarrow> cl_pending s n = Some c"
    and "\<And>n c. cl_pending t n = Some c \<Longrightarrow> in_write (cl_sender s c) \<Longrightarrow> in_write (cl_sender t c)"
    and "set (cl_sent s) \<subseteq> set (cl_sent t)"
  shows "inv_written t"
  using assms unfolding inv_written_def by blast

lemma inv_written_alloc: "inv_written s \<Longrightarrow> inv_alloc s \<Longrightarrow> inv_written (alloc_call k s)"
  by (erule inv_written_weaken) (auto simp: alloc_call_def inv_alloc_fresh)

lemma inv_written_make_chan: "inv_written s \<Longrightarrow> inv_written (snd (make_chan n s))"
  by (erule inv_written_weaken) (auto simp: make_chan_def)

lemma inv_alloc_make_chan: "inv_alloc s \<Longrightarrow> inv_alloc (snd (make_chan n s))"
  by (auto simp: inv_alloc_def make_chan_def less_Suc_eq)

lemma inv_written_write:
  assumes step_write: "send_write w c s = Some t" "inv_alloc s" "inv_seq s" "inv_written s"
  shows "inv_written t"
proof -
  from step_write(1) show ?thesis
  proof (cases rule: send_writeE)
    case (ok n)
    note w = inv_seq_writing [OF \<open>inv_seq s\<close> ok(1)]
    show ?thesis
      unfolding inv_written_def
    proof (intro allI impI)
      fix m d assume p: "cl_pending t m = Some d"
      show "in_write (cl_sender t d) \<or> (\<exists>x \<in> set (cl_sent t). req_seq (fst x) = m)"
      proof (cases "d = c")
        case True
        then have "m = n" using inv_seq_pending [OF \<open>inv_seq s\<close>, of m c] p w ok(3) by simp
        then show ?thesis using w ok(3) by simp
      next
        case False
        then show ?thesis using p \<open>inv_written s\<close> ok(3) by (auto simp: inv_written_def)
      qed
    qed
  next
    case failed
    then show ?thesis by (intro inv_written_weaken [OF \<open>inv_written s\<close>]) (auto split: if_splits)
  qed
qed

lemma inv_written_unregister:
  assumes step_unregister: "send_unregister c s = Some t" "inv_alloc s" "inv_seq s" "inv_written s"
  shows "inv_written t"
proof -
  from step_unregister(1) obtain n e where n: "cl_sender s c = Some (SWriteErr n e)"
    "\<forall>m d. cl_pending t m = Some d \<longrightarrow> cl_pending s m = Some d \<and> m \<noteq> n"
    "cl_sender t = (cl_sender s)(c \<mapsto> SDone)" "cl_sent t = cl_sent s"
    by (cases rule: send_unregisterE) (fastforce split: if_splits)+
  have "c_seq (cl_calls s c) = n" using inv_seq_write_err [OF \<open>inv_seq s\<close> n(1)] by simp
  then have "d \<noteq> c" if "cl_pending t m = Some d" for m d
    using n(2) that inv_seq_pending [OF \<open>inv_seq s\<close>, of m d] by auto
  with n show ?thesis by (intro inv_written_weaken [OF \<open>inv_written s\<close>]) auto
qed

lemma inv_written_step:
  assumes "client_step s t" "inv_alloc s" "inv_seq s" "inv_written s"
  shows "inv_written t"
  using assms
proof (induction rule: client_step.induct)
  case (step_go m a r s c t)
  then show ?case
    by (auto simp: client_go_new intro!: inv_written_alloc inv_written_make_chan inv_alloc_make_chan)
next
  case (step_go_on d s m a r c t)
  then show ?case by (auto simp: client_go_on intro!: inv_written_alloc split: if_splits)
next
  case (step_call m a r s c t)
  then show ?case
    by (intro inv_written_weaken [OF \<open>inv_written s\<close>])
       (auto simp: client_call_eq alloc_call_def make_chan_def inv_alloc_fresh split: if_splits)
next
  case (step_enter c s t)
  from step_enter(1) show ?case
  proof (cases rule: send_enterE)
    case (registered n)
    then show ?thesis
      using \<open>inv_written s\<close> unfolding inv_written_def by auto
  qed (intro inv_written_weaken [OF \<open>inv_written s\<close>]; auto split: if_splits)+
next
  case (step_write w c s t)
  then show ?case by (rule inv_written_write)
next
  case (step_unregister c s t)
  then show ?case by (rule inv_written_unregister)
next
  case (step_ctx e c s t)
  from step_ctx(1) show ?case
    by (cases rule: call_ctx_doneE)
       (intro inv_written_weaken [OF \<open>inv_written s\<close>];
        auto simp: alloc_call_def inv_alloc_fresh [OF \<open>inv_alloc s\<close>] split: if_splits)+
qed (rule inv_written_weaken, assumption; fastforce elim!: op_elims split: if_splits)+

lemma client_reach_written:
  "client_reach s \<Longrightarrow> cl_ncalls s < 2 ^ 64 \<Longrightarrow> inv_written s"
proof (induction rule: client_reach.induct)
  case reach_new
  show ?case by (simp add: inv_written_def new_basic_client_def)
next
  case (reach_step s t)
  have "cl_ncalls s < 2 ^ 64" using client_step_ncalls [OF reach_step(2)] reach_step(4) by simp
  with reach_step show ?case
    using inv_written_step reach_alloc reach_seq by blast
qed


text \<open>What the client has taken is of no pending call, and nothing written is missing in between.\<close>

definition inv_got :: "net \<Rightarrow> bool" where
  "inv_got s \<longleftrightarrow> set (nt_got s) \<subseteq> written s \<and>
     (\<forall>x \<in> set (nt_got s). cl_pending (nt_client s) (resp_seq (fst x)) = None) \<and>
     (\<not> nt_lost s \<longrightarrow> map snd (cn_wire (so_conn (nt_serve s))) = nt_got s @ nt_down s \<and>
        \<not> so_once (nt_serve s) \<and> so_loop (nt_serve s) \<noteq> LWait \<and> so_loop (nt_serve s) \<noteq> LCancel \<and>
        \<not> is_returned (so_loop (nt_serve s)))"

lemma inv_gotD:
  assumes "inv_got s"
  shows inv_got_written: "set (nt_got s) \<subseteq> written s"
    and inv_got_pending: "x \<in> set (nt_got s) \<Longrightarrow> cl_pending (nt_client s) (resp_seq (fst x)) = None"
    and inv_got_fifo: "\<not> nt_lost s \<Longrightarrow> map snd (cn_wire (so_conn (nt_serve s))) = nt_got s @ nt_down s"
    and inv_got_open: "\<not> nt_lost s \<Longrightarrow> \<not> so_once (nt_serve s) \<and> so_loop (nt_serve s) \<noteq> LWait \<and>
      so_loop (nt_serve s) \<noteq> LCancel \<and> \<not> is_returned (so_loop (nt_serve s))"
  using assms unfolding inv_got_def by blast+

text \<open>Numbers of responses written are numbers of requests given to \<open>WriteRequest\<close>.\<close>

lemma written_seq:
  assumes "inv_net decA decR srv s" "inv_loop (nt_serve s)" "conn_inv (so_conn (nt_serve s))" "y \<in> written s"
  obtains x where "x \<in> set (cl_tried (nt_client s))" "req_seq (fst x) = resp_seq (fst y)"
proof -
  obtain j where j: "j < cn_njobs (so_conn (nt_serve s))"
    "answer (cn_jobs (so_conn (nt_serve s)) j) = Some (fst y, snd y)"
    using net_written_job [OF answers_written_conn [OF assms(3)], of "fst y" "snd y"] assms(4) by auto
  have "nt_read s ! j \<in> set (cl_tried (nt_client s))"
    using assms(1) j(1) net_length [OF _ assms(2)]
    by (auto simp: inv_net_def inv_sent_def dest!: subseq_set [where x = "nt_read s ! j"])
  moreover have "req_seq (fst (nt_read s ! j)) = resp_seq (fst y)"
    using assms(1) j by (auto simp: inv_net_def inv_called_def well_called_def answer_def split: option.splits)
  ultimately show thesis by (rule that)
qed

text \<open>Only \<open>send_enter\<close> makes an entry of \<open>pending\<close>, under a number greater than all that were sent.\<close>

lemma caller_step_pending:
  assumes "caller_step f s t" "inv_wire t" "cl_tried t = cl_tried s" "x \<in> set (cl_tried s)"
    and "cl_pending s (req_seq (fst x)) = None"
  shows "cl_pending t (req_seq (fst x)) = None"
  using assms(1)
proof (cases rule: caller_step.cases)
  case (ca_enter c)
  from ca_enter(2) show ?thesis
  proof (cases rule: send_enterE)
    case (registered n)
    then have "req_seq (fst x) < n"
      using inv_wire_writing [OF assms(2), of c n] assms(3,4) by simp
    then show ?thesis using registered assms(5) by auto
  qed (use assms(5) in auto)
qed (use assms(5) in \<open>auto elim!: op_elims simp: op_allocs split: if_splits\<close>)


lemma inv_got_client:
  assumes "client_side decR s t" "inv_got s" "inv_wire (nt_client t)"
    and "\<And>y. y \<in> set (nt_got s) \<Longrightarrow> \<exists>x \<in> set (cl_tried (nt_client s)). req_seq (fst x) = resp_seq (fst y)"
    and "inv_down decR s"
  shows "inv_got t"
proof -
  have w: "written t = written s" "nt_serve t = nt_serve s"
    using client_side_client [OF assms(1)] by (simp_all add: written_def)
  have keep: "inv_got t" if "nt_got t = nt_got s" "nt_down t = nt_down s" "nt_lost s \<longrightarrow> nt_lost t"
    "\<And>y. y \<in> set (nt_got s) \<Longrightarrow> cl_pending (nt_client t) (resp_seq (fst y)) = None"
    using that assms(2) unfolding inv_got_def w by auto
  have fewer: "cl_pending (nt_client t) (resp_seq (fst y)) = None"
    if "\<And>n. cl_pending (nt_client s) n = None \<Longrightarrow> cl_pending (nt_client t) n = None" "y \<in> set (nt_got s)" for y
    using that(1) inv_got_pending [OF assms(2) that(2)] by blast
  from assms(1) show ?thesis
  proof (cases rule: client_side.cases)
    case (nc_caller c)
    have "cl_pending c (resp_seq (fst y)) = None" if y: "y \<in> set (nt_got s)" for y
    proof -
      obtain x where x: "x \<in> set (cl_tried (nt_client s))" "req_seq (fst x) = resp_seq (fst y)"
        using assms(4) [OF y] by blast
      then show ?thesis
        using caller_step_pending [OF nc_caller(2) _ nc_caller(3) x(1)] assms(3) nc_caller(1)
          inv_got_pending [OF assms(2) y] by simp
    qed
    with nc_caller show ?thesis by (intro keep) auto
  next
    case (nc_header p x down c)
    then have c: "cl_pending c = (cl_pending (nt_client s))(resp_seq p := None)" by (auto elim!: input_headerE)
    have "(p, x) \<in> written s" using assms(5) nc_header(2) by (simp add: inv_down_def)
    then show ?thesis using assms(2) nc_header c unfolding inv_got_def w by auto
  qed (intro keep fewer; auto elim!: client_closeE send_writeE input_headerE input_bodyE input_terminateE)+
qed

lemma inv_got_keep:
  assumes "inv_got s" "nt_client t = nt_client s" "nt_got t = nt_got s"
    and "set (cn_wire (so_conn (nt_serve s))) \<subseteq> set (cn_wire (so_conn (nt_serve t)))"
    and "\<not> nt_lost t \<Longrightarrow> \<not> nt_lost s \<and> map snd (cn_wire (so_conn (nt_serve t))) = nt_got s @ nt_down t \<and>
      \<not> so_once (nt_serve t) \<and> so_loop (nt_serve t) \<noteq> LWait \<and> so_loop (nt_serve t) \<noteq> LCancel \<and>
      \<not> is_returned (so_loop (nt_serve t))"
  shows "inv_got t"
proof -
  have "written s \<subseteq> written t" using assms(4) by (auto simp: written_def)
  then show ?thesis using assms(1-3,5) unfolding inv_got_def by auto
qed

lemma inv_got_server:
  assumes "server_side decA s t" "inv_got s" "inv_loop (nt_serve s)"
  shows "inv_got t"
proof -
  note open' = inv_got_open [OF assms(2)] and fifo = inv_got_fifo [OF assms(2)]
  note cl = inv_loop_calling [OF assms(3)]
  from assms(1) show ?thesis
  proof (cases rule: server_side.cases)
    case (ns_get t')
    then show ?thesis
      using open' fifo by (intro inv_got_keep [OF assms(2)]) (auto elim!: serve_getE conn_getE)
  next
    case (ns_header q x up t')
    then show ?thesis
      using open' fifo serve_header_read [OF ns_header(3)]
      by (intro inv_got_keep [OF assms(2)]) (auto elim!: serve_headerE)
  next
    case (ns_body found t')
    note b = serve_body_job [OF ns_body(3,2)]
    show ?thesis
      using ns_body open' fifo b(4) by (intro inv_got_keep [OF assms(2)]) (auto elim!: serve_bodyE)
  next
    case (ns_replied t')
    then show ?thesis
      using open' fifo cl by (intro inv_got_keep [OF assms(2)]) (auto elim!: serve_repliedE)
  next
    case (ns_close t')
    then show ?thesis using open' fifo by (intro inv_got_keep [OF assms(2)]) (auto elim!: serve_closeE)
  next
    case (ns_cancel t')
    then show ?thesis using open' fifo by (intro inv_got_keep [OF assms(2)]) (auto elim!: serve_cancelE)
  next
    case (ns_job c)
    then show ?thesis using open' fifo by (intro inv_got_keep [OF assms(2)]) auto
  next
    case (ns_write j c)
    then show ?thesis using open' fifo by (intro inv_got_keep [OF assms(2)]) (auto elim!: job_writeE)
  next
    case (ns_env c)
    then show ?thesis
      using open' fifo env_step_frame [OF ns_env(2)] by (intro inv_got_keep [OF assms(2)]) auto
  next
    case (ns_no_header e t')
    then show ?thesis by (intro inv_got_keep [OF assms(2)]) (auto dest!: quiet_steps simp: quiet_def)
  next
    case (ns_no_body e t')
    then show ?thesis
      by (intro inv_got_keep [OF assms(2)]) (auto elim!: serve_bodyE conn_failE conn_spawnE)
  next
    case (ns_no_write j c)
    then show ?thesis by (intro inv_got_keep [OF assms(2)]) (auto elim!: job_writeE)
  qed
qed

lemma net_reach_got:
  assumes "net_reach decA decR srv s" "\<forall>ty x e. decA ty x = Inl e \<longrightarrow> error_text e \<noteq> []"
    and "cl_ncalls (nt_client s) < 2 ^ 64"
  shows "inv_got s"
  using assms(1,3)
proof (induction rule: net_reach.induct)
  case (nr_new oreqs oresps st)
  show ?case
    by (simp add: inv_got_def new_net_def serve_codec_def new_conn_def new_pending_def split: prod.splits)
next
  case (nr_client s t)
  note N = net_reach_inv [OF nr_client(1) assms(2)] and R = net_reach_sides [OF nr_client(1)]
  have b: "cl_ncalls (nt_client s) < 2 ^ 64"
    using client_side_client [OF nr_client(2)] client_step_ncalls nr_client(4) by fastforce
  have w: "inv_wire (nt_client t)"
    using net_reach_sides [OF net_reach.nr_client [OF nr_client(1,2)]] reach_wire nr_client(4) by blast
  have L: "inv_loop (nt_serve s)" "conn_inv (so_conn (nt_serve s))" using R serve_invD by blast+
  note g = nr_client(3) [OF b]
  have "\<exists>x \<in> set (cl_tried (nt_client s)). req_seq (fst x) = resp_seq (fst y)" if "y \<in> set (nt_got s)" for y
    using written_seq [OF N L] inv_got_written [OF g] that by blast
  then show ?case using inv_got_client [OF nr_client(2) g w] N by (simp add: inv_net_def)
next
  case (nr_server s t)
  then show ?case
    using inv_got_server [OF nr_server(2)] server_side_serve [OF nr_server(2)] net_reach_sides [OF nr_server(1)]
      serve_invD(3) by auto
qed



section \<open>What is left to do\<close>

text \<open>A job's steps and, until it has written, its response; the loop's; the reader's; the open \<open>send\<close>'s.\<close>

definition job_work :: "job \<Rightarrow> nat" where
  "job_work job = rank (j_pc job) + (if has_answered (j_pc job) then 0 else 4)"

definition works :: "conn \<Rightarrow> nat" where
  "works c = (\<Sum>j < cn_njobs c. job_work (cn_jobs c j))"

fun loop_work :: "loop_pc \<Rightarrow> nat" where
  "loop_work LHeader = 0"
| "loop_work LRead = 1"
| "loop_work (LReplying j e) = 2"
| "loop_work (LBody f) = 15"
| "loop_work _ = 3"

fun reader_work :: "reader_pc \<Rightarrow> nat" where
  "reader_work (RGot k p) = 2"
| "reader_work (RTerm e) = 1"
| "reader_work _ = 0"

fun send_work :: "send_pc option \<Rightarrow> nat" where
  "send_work (Some (SWriting n)) = 21"
| "send_work (Some (SWriteErr n e)) = 1"
| "send_work _ = 0"

definition client_work :: "client \<Rightarrow> nat" where
  "client_work s = reader_work (cl_reader s) + (case cl_reqmu s of None \<Rightarrow> 0 | Some c \<Rightarrow> send_work (cl_sender s c))"

definition net_left :: "net \<Rightarrow> nat" where
  "net_left s = client_work (nt_client s) + 20 * length (nt_up s) + loop_work (so_loop (nt_serve s)) +
     works (so_conn (nt_serve s)) + 3 * length (nt_down s)"

lemma works_update:
  assumes "cn_njobs t = cn_njobs c" "j < cn_njobs c" "job_work (cn_jobs t j) + d \<le> job_work (cn_jobs c j)"
    and "\<And>k. k \<noteq> j \<Longrightarrow> cn_jobs t k = cn_jobs c k"
  shows "works t + d \<le> works c"
proof -
  have "(\<Sum>k \<in> {..<cn_njobs c} - {j}. job_work (cn_jobs t k)) = (\<Sum>k \<in> {..<cn_njobs c} - {j}. job_work (cn_jobs c k))"
    by (rule sum.cong) (auto simp: assms(4))
  then show ?thesis
    using assms(2,3) unfolding works_def assms(1) by (simp add: sum.remove [of "{..<cn_njobs c}" j])
qed

lemma works_less:
  assumes "cn_njobs t = cn_njobs c" "j < cn_njobs c" "job_work (cn_jobs t j) < job_work (cn_jobs c j)"
    and "\<And>k. k \<noteq> j \<Longrightarrow> cn_jobs t k = cn_jobs c k"
  shows "works t < works c"
  using works_update [OF assms(1,2) _ assms(4), of 1] assms(3) by simp

lemma works_cong: "cn_njobs t = cn_njobs c \<Longrightarrow> cn_jobs t = cn_jobs c \<Longrightarrow> works t = works c"
  by (simp add: works_def)

text \<open>Every step of a job brings it further, and its write makes up for the message in flight.\<close>

lemma job_write_work: "job_write j c = Some t \<Longrightarrow> works t + 5 \<le> works c"
  by (elim job_writeE) (auto simp: job_work_def intro!: works_update [of _ _ j])

lemma job_step_work:
  assumes "job_step c t" "\<not> cn_panic t"
  shows "works t < works c"
  using assms(1)
proof (cases rule: job_step.cases)
  case (js_write j)
  then show ?thesis using job_write_work by fastforce
next
  case (js_return r e j)
  then show ?thesis
    using assms(2) by (elim job_returnE) (auto simp: job_work_def intro!: works_less [of _ _ j])
next
  case (js_start j)
  then show ?thesis by (elim job_startE) (auto simp: job_work_def intro!: works_less [of _ _ j])
next
  case (js_prepare j)
  then show ?thesis by (elim job_prepareE) (auto simp: job_work_def intro!: works_less [of _ _ j])
next
  case (js_lock j)
  then show ?thesis by (elim job_lockE) (auto simp: job_work_def intro!: works_less [of _ _ j])
next
  case (js_free_response j)
  then show ?thesis by (elim job_free_responseE) (auto simp: job_work_def intro!: works_less [of _ _ j])
next
  case (js_free_request j)
  then show ?thesis by (elim job_free_requestE) (auto simp: job_work_def intro!: works_less [of _ _ j])
next
  case (js_finish j)
  then show ?thesis by (elim job_finishE) (auto simp: job_work_def intro!: works_less [of _ _ j])
qed

lemma serve_body_work:
  assumes "serve_body b s = Some t" "so_loop s = LBody found" "\<not> so_once s"
  shows "loop_work (so_loop t) + works (so_conn t) < loop_work (so_loop s) + works (so_conn s)"
proof -
  note B = serve_body_job [OF assms(1,2)]
  have "job_work (cn_jobs (so_conn t) (cn_njobs (so_conn s))) \<le> 12"
    using assms(1) by (elim serve_bodyE) (auto simp: job_work_def elim!: conn_failE conn_spawnE)
  then have "works (so_conn t) \<le> works (so_conn s) + 12" using B(3,6) by (simp add: works_def)
  moreover have "loop_work (so_loop t) \<le> 2"
    using assms(1,3) by (elim serve_bodyE) auto
  ultimately show ?thesis using assms(2) by simp
qed


text \<open>The internal \<open>Cancel\<close> is registered under its own name only, so that it finds the map it needs.\<close>

definition internal_cancel :: "basic_server \<Rightarrow> bool" where
  "internal_cancel srv \<longleftrightarrow> (\<forall>n sv m mt. bs_services srv n = Some sv \<longrightarrow> sv_methods sv m = Some mt \<longrightarrow>
     gm_func (mt_method mt) = cancel_func \<longrightarrow> sv_name sv = ''_goRPC_'')"

lemma internal_cancelD:
  "internal_cancel srv \<Longrightarrow> get_service q srv = Inr (sv, mt) \<Longrightarrow> gm_func (mt_method mt) = cancel_func \<Longrightarrow>
   sv_name sv = ''_goRPC_''"
  unfolding internal_cancel_def get_service_def by (auto split: option.splits)

lemma job_step_no_panic:
  assumes "job_step c t" "\<not> cn_panic c"
    and "\<And>j sv mt a. j < cn_njobs c \<Longrightarrow> j_kind (cn_jobs c j) = JCall sv mt a \<Longrightarrow>
      gm_func (mt_method mt) = cancel_func \<Longrightarrow> sv_name sv = ''_goRPC_''"
  shows "\<not> cn_panic t"
  using assms(1)
proof (cases rule: job_step.cases)
  case (js_return r e j)
  from js_return show ?thesis
    by (cases rule: job_returnE) (use assms(2,3) in \<open>auto simp: finish_method_def\<close>)
qed (use assms(2) in \<open>auto elim!: conn_elims\<close>)

lemma well_called_cancel:
  "well_called decA srv qx job \<Longrightarrow> internal_cancel srv \<Longrightarrow> j_kind job = JCall sv mt a \<Longrightarrow>
   gm_func (mt_method mt) = cancel_func \<Longrightarrow> sv_name sv = ''_goRPC_''"
  by (auto simp: well_called_def dest: internal_cancelD)

lemma server_side_panic:
  assumes "server_side decA s t" "inv_called decA srv s" "internal_cancel srv"
    and "\<not> cn_panic (so_conn (nt_serve s))"
  shows "\<not> cn_panic (so_conn (nt_serve t))"
proof -
  have job: "\<not> cn_panic c" if "job_step (so_conn (nt_serve s)) c" for c
    by (rule job_step_no_panic [OF that assms(4)])
       (use assms(2,3) well_called_cancel in \<open>unfold inv_called_def, blast\<close>)
  from assms(1) show ?thesis
  proof (cases rule: server_side.cases)
    case (ns_env c)
    then show ?thesis using assms(4) by (auto elim!: env_step.cases)
  next
    case (ns_body found t')
    then show ?thesis using assms(4) by (auto elim!: serve_bodyE conn_failE conn_spawnE)
  next
    case (ns_no_body e t')
    then show ?thesis using assms(4) by (auto elim!: serve_bodyE conn_failE conn_spawnE)
  qed (use assms(4) job js_write in \<open>auto simp: conn_drop_def elim!: serve_getE conn_getE serve_headerE conn_fillE
         serve_repliedE serve_closeE serve_cancelE\<close>)
qed

lemma net_reach_panic:
  assumes "net_reach decA decR srv s" "\<forall>ty x e. decA ty x = Inl e \<longrightarrow> error_text e \<noteq> []" "internal_cancel srv"
  shows "\<not> cn_panic (so_conn (nt_serve s))"
  using assms(1)
proof (induction rule: net_reach.induct)
  case (nr_new oreqs oresps st)
  show ?case by (simp add: new_net_def serve_codec_def new_conn_def new_pending_def split: prod.splits)
next
  case (nr_client s t)
  then show ?case using client_side_client [OF nr_client(2)] by simp
next
  case (nr_server s t)
  have "inv_called decA srv s" using net_reach_inv [OF nr_server(1) assms(2)] by (simp add: inv_net_def)
  then show ?case by (rule server_side_panic [OF nr_server(2) _ assms(3) nr_server(3)])
qed


section \<open>Deliveries run out\<close>

lemma reader_work_less:
  "input_header (Inr p) s = Some t \<Longrightarrow> client_work t = client_work s + 2"
  "input_body b s = Some t \<Longrightarrow> client_work t < client_work s"
  "input_terminate ks s = Some t \<Longrightarrow> client_work t < client_work s"
  by (auto simp: client_work_def elim!: input_headerE input_bodyE input_terminateE split: option.splits)

lemma send_work_less:
  "inv_lock s \<Longrightarrow> send_write None k s = Some t \<Longrightarrow> client_work t + 21 = client_work s"
  "inv_lock s \<Longrightarrow> send_unregister k s = Some t \<Longrightarrow> client_work t < client_work s"
  by (auto simp: client_work_def inv_lockD elim!: send_writeE send_unregisterE)

lemma delivery_less:
  assumes "delivery decA decR s t" "inv_lock (nt_client s)" "\<not> so_once (nt_serve s)"
    and "\<forall>j. so_loop (nt_serve s) \<noteq> LCalling j" "\<not> cn_panic (so_conn (nt_serve t))"
  shows "net_left t < net_left s"
  using assms(1)
proof (cases rule: delivery.cases)
  case (dl_send k c)
  then show ?thesis using send_work_less(1) [OF assms(2) dl_send(2)] by (simp add: net_left_def)
next
  case (dl_unregister k c)
  then show ?thesis using send_work_less(2) [OF assms(2) dl_unregister(2)] by (simp add: net_left_def)
next
  case (dl_get t')
  then show ?thesis by (auto simp: net_left_def works_def elim!: serve_getE conn_getE)
next
  case (dl_take q x up t')
  note H = serve_header_read [OF dl_take(3)]
  have "so_loop (nt_serve s) = LHeader" using dl_take(3) by (auto elim!: serve_headerE)
  then show ?thesis using dl_take(1,2) H works_cong [OF H(3,4)] by (simp add: net_left_def)
next
  case (dl_args found t')
  then show ?thesis using serve_body_work [OF dl_args(3,2) assms(3)] by (simp add: net_left_def)
next
  case (dl_replied t')
  then show ?thesis by (auto simp: net_left_def assms(3,4) elim!: serve_repliedE)
next
  case (dl_job c)
  then show ?thesis using job_step_work [OF dl_job(2)] assms(5) by (simp add: net_left_def)
next
  case (dl_write j c)
  then show ?thesis using job_write_work [OF dl_write(2)] by (simp add: net_left_def)
next
  case (dl_header p x down c)
  then show ?thesis using reader_work_less(1) [OF dl_header(3)] by (simp add: net_left_def)
next
  case (dl_reply k p c)
  then show ?thesis using reader_work_less(2) [OF dl_reply(4)] by (simp add: net_left_def)
next
  case (dl_discard k p v c)
  then show ?thesis using reader_work_less(2) [OF dl_discard(4)] by (simp add: net_left_def)
next
  case (dl_end ks c)
  then show ?thesis using reader_work_less(3) [OF dl_end(2)] by (simp add: net_left_def)
qed



section \<open>A delivery is possible\<close>

lemma job_delivers:
  assumes "conn_inv (so_conn (nt_serve s))" "j < cn_njobs (so_conn (nt_serve s))"
    and "j_pc (cn_jobs (so_conn (nt_serve s)) j) \<noteq> JDone"
  shows "\<exists>t. delivery decA decR s t"
proof -
  obtain c where c: "job_step (so_conn (nt_serve s)) c" using job_can_step [OF assms] by blast
  have "cn_wire c = cn_wire (so_conn (nt_serve s)) \<or> (\<exists>k. job_write k (so_conn (nt_serve s)) = Some c)"
    using c
  proof (cases rule: job_step.cases)
    case (js_write k)
    then show ?thesis by blast
  qed (auto elim!: conn_elims)
  then show ?thesis using c by (blast intro: dl_job dl_write)
qed

lemma loop_delivers:
  assumes "conn_inv (so_conn (nt_serve s))" "inv_loop (nt_serve s)" "inv_got s" "\<not> nt_lost s"
    and "nt_up s \<noteq> [] \<or> (\<exists>f. so_loop (nt_serve s) = LBody f)"
  shows "\<exists>t. delivery decA decR s t"
proof (cases "so_loop (nt_serve s)")
  case LRead
  then have "cn_cur (so_conn (nt_serve s)) = None" using inv_loop_cur [OF assms(2)] by simp
  with LRead have "serve_get (nt_serve s) \<noteq> None" by (simp add: serve_get_def conn_get_def split: prod.splits)
  then show ?thesis by (blast intro: dl_get)
next
  case LHeader
  obtain q x up where up: "nt_up s = (q, x) # up" using assms(5) LHeader by (cases "nt_up s") auto
  have "cn_cur (so_conn (nt_serve s)) \<noteq> None" using LHeader inv_loop_cur [OF assms(2)] by simp
  with LHeader have "serve_header (Inr q) (nt_serve s) \<noteq> None" by (auto simp: serve_header_def conn_fill_def)
  then show ?thesis using up by (blast intro: dl_take)
next
  case (LBody f)
  have "cn_cur (so_conn (nt_serve s)) \<noteq> None" using LBody inv_loop_cur [OF assms(2)] by simp
  with LBody have "serve_body b (nt_serve s) \<noteq> None" for b
    by (auto simp: serve_body_def conn_fail_def conn_spawn_def Let_def split: sum.splits)
  then show ?thesis using LBody by (blast intro: dl_args)
next
  case (LReplying j e)
  show ?thesis
  proof (cases "job_done (so_conn (nt_serve s)) j")
    case True
    then have "serve_replied (nt_serve s) \<noteq> None" using LReplying by (simp add: serve_replied_def)
    then show ?thesis by (blast intro: dl_replied)
  next
    case False
    then show ?thesis
      using job_delivers [OF assms(1) inv_loop_handling [OF assms(2), of j]] LReplying by (simp add: job_done_def)
  qed
qed (use inv_got_open [OF assms(3,4)] inv_loop_calling [OF assms(2)] in auto)

text \<open>A message for the reader, or one it has in hand, or its end.\<close>

lemma reader_delivers:
  assumes "inv_lock (nt_client s)"
    and "cl_reader (nt_client s) = RReading \<and> nt_down s \<noteq> [] \<or>
      (\<exists>k p. cl_reader (nt_client s) = RGot k p) \<or> (\<exists>e. cl_reader (nt_client s) = RTerm e)"
  shows "\<exists>t. delivery decA decR s t"
proof (cases "cl_reader (nt_client s)")
  case RReading
  then obtain p x down where "nt_down s = (p, x) # down" using assms(2) by (cases "nt_down s") auto
  moreover have "input_header (Inr p) (nt_client s) \<noteq> None" using RReading by (simp add: input_header_def)
  ultimately show ?thesis by (blast intro: dl_header)
next
  case (RGot k p)
  then have b: "input_body b (nt_client s) \<noteq> None" for b
    by (auto simp: input_body_def Let_def split: option.splits)
  show ?thesis
  proof (cases "k = None \<or> resp_error p \<noteq> []")
    case True
    then show ?thesis using RGot b [of "Inr VNil"] by (blast intro: dl_discard)
  next
    case False
    then obtain c where "k = Some c" "resp_error p = []" by auto
    then show ?thesis using RGot b by (blast intro: dl_reply)
  qed
next
  case (RTerm e)
  show ?thesis
  proof (cases "cl_reqmu (nt_client s)")
    case None
    then show ?thesis by (rule reader_can_end [OF RTerm]) (blast intro: dl_end)
  next
    case (Some k)
    then show ?thesis using write_holder_can_move [OF assms(1) Some] by (blast intro: dl_send dl_unregister)
  qed
qed (use assms(2) in auto)

lemma open_call_delivers:
  assumes "net_reach decA decR srv s" "\<forall>ty x e. decA ty x = Inl e \<longrightarrow> error_text e \<noteq> []"
    and "cl_ncalls (nt_client s) < 2 ^ 64" "\<not> nt_lost s" "cl_sender (nt_client s) c = Some SDone"
    and "\<not> settled (nt_client s) c"
  shows "\<exists>t. delivery decA decR s t"
proof -
  let ?conn = "so_conn (nt_serve s)"
  have R: "client_reach (nt_client s)" "serve_reach (nt_serve s)" using net_reach_sides [OF assms(1)] by auto
  note C = reach_inv [OF R(1) assms(3)] and S = serve_invD [OF R(2)]
  note N = net_reach_inv [OF assms(1,2)] and G = net_reach_got [OF assms(1-3)]
  note once = inv_once_wireD [OF conn_invD(4) [OF S(2)]]
  have "c < cl_ncalls (nt_client s)" using inv_alloc_fresh(3) [OF C(1) assms(5)] .
  then have "c \<in> ran (cl_pending (nt_client s)) \<or> in_hand (cl_reader (nt_client s)) = Some c"
    using C(5) assms(5,6) by (auto simp: inv_track_def)
  then consider (reader) "cl_reader (nt_client s) \<noteq> RReading" "cl_reader (nt_client s) \<noteq> REnded"
    | (pending) n where "cl_pending (nt_client s) n = Some c" "cl_reader (nt_client s) = RReading"
    using inv_once_pending [OF C(4)] inv_once_ended [OF C(4)] assms(6)
    by (cases "cl_reader (nt_client s)") (auto simp: ran_def settled_def)
  then show ?thesis
  proof cases
    case reader
    then show ?thesis by (intro reader_delivers [OF C(2)]) (cases "cl_reader (nt_client s)"; simp)
  next
    case (pending n)
    obtain x where x: "x \<in> set (cl_sent (nt_client s))" "req_seq (fst x) = n"
      using client_reach_written [OF R(1) assms(3)] pending(1) assms(5) by (fastforce simp: inv_written_def)
    have sent: "set (cl_sent (nt_client s)) \<subseteq> set (nt_read s @ nt_up s)" "so_headers (nt_serve s) = map fst (nt_read s)"
      using N by (simp_all add: inv_net_def inv_sent_def)
    show ?thesis
    proof (cases "nt_down s = [] \<and> nt_up s = [] \<and> \<not> has_header (so_loop (nt_serve s))")
      case False
      then show ?thesis
        using reader_delivers [OF C(2)] pending(2) loop_delivers [OF S(2,3) G assms(4)]
        by (cases "so_loop (nt_serve s)") auto
    next
      case True
      then obtain j where j: "j < length (nt_read s)" "nt_read s ! j = x"
        using x(1) sent(1) by (metis append_Nil2 in_set_conv_nth subsetD)
      then have jn: "j < cn_njobs ?conn"
        using arg_cong [OF inv_loop_headers [OF S(3)], of length] sent(2) True by simp
      show ?thesis
      proof (cases "j_pc (cn_jobs ?conn j) = JDone")
        case False
        then show ?thesis by (rule job_delivers [OF S(2) jn])
      next
        case done': True
        then obtain y where y: "y \<in> set (cn_wire ?conn)" "fst y = j" using once(2) [OF jn] by auto
        have "resp_seq (fst (snd y)) = n"
          using once(3) [OF y(1)] N j(2) jn x(2) y(2)
          by (cases y) (auto simp: answer_def inv_net_def inv_called_def well_called_def split: option.splits)
        moreover have "snd y \<in> set (nt_got s)"
          using inv_got_fifo [OF G assms(4)] True y(1) by (metis append_Nil2 image_eqI list.set_map)
        ultimately show ?thesis using inv_got_pending [OF G] pending(1) by fastforce
      qed
    qed
  qed
qed



section \<open>Property\<close>

lemma deliveries_keep:
  assumes "(delivery decA decR)\<^sup>*\<^sup>* s t" "net_reach decA decR srv s" "\<not> nt_lost s"
    and "cl_ncalls (nt_client s) < 2 ^ 64" "cl_sender (nt_client s) c = Some SDone"
  shows "net_reach decA decR srv t \<and> \<not> nt_lost t \<and> cl_ncalls (nt_client t) < 2 ^ 64 \<and>
    cl_sender (nt_client t) c = Some SDone"
  using assms(1)
proof (induction rule: rtranclp_induct)
  case (step t u)
  then show ?case using delivery_reach delivery_frame by metis
qed (use assms(2-5) in blast)

text \<open>
  C6: a call that has been made is completed, unless the connection fails. Let the \<open>send\<close> of a call have
  returned, on a connection whose reads and writes have not failed. Then every maximal sequence of
  deliveries, in whatever order the goroutines of client and server make them and whatever the methods
  return, ends in a state in which the call has been signalled or its \<open>Call\<close> has left through its context;
  and there is no infinite one, because every delivery uses up some of a finite amount of work.
\<close>

theorem made_calls_complete:
  assumes "net_reach decA decR srv s" and "\<forall>ty x e. decA ty x = Inl e \<longrightarrow> error_text e \<noteq> []"
    and "internal_cancel srv" and "cl_ncalls (nt_client s) < 2 ^ 64" and "\<not> nt_lost s"
    and "cl_sender (nt_client s) c = Some SDone"
  shows "(\<forall>t. (delivery decA decR)\<^sup>*\<^sup>* s t \<longrightarrow> (\<nexists>u. delivery decA decR t u) \<longrightarrow>
       c \<in> set (cl_signalled (nt_client t)) \<or> by_ctx (cl_caller (nt_client t) c)) \<and>
    (\<forall>t u. (delivery decA decR)\<^sup>*\<^sup>* s t \<longrightarrow> delivery decA decR t u \<longrightarrow> net_left u < net_left t)"
proof (intro conjI allI impI)
  fix t assume t: "(delivery decA decR)\<^sup>*\<^sup>* s t" "\<nexists>u. delivery decA decR t u"
  note K = deliveries_keep [OF t(1) assms(1,5,4,6)]
  show "c \<in> set (cl_signalled (nt_client t)) \<or> by_ctx (cl_caller (nt_client t) c)"
    using open_call_delivers [OF _ assms(2), of decR srv t c] K t(2) unfolding settled_def by blast
next
  fix t u assume t: "(delivery decA decR)\<^sup>*\<^sup>* s t" and u: "delivery decA decR t u"
  note K = deliveries_keep [OF t assms(1,5,4,6)]
  have R: "client_reach (nt_client t)" "serve_reach (nt_serve t)" using net_reach_sides K by blast+
  have G: "inv_got t" using net_reach_got [OF _ assms(2)] K by blast
  have "\<not> cn_panic (so_conn (nt_serve u))"
    using net_reach_panic [OF delivery_reach [OF _ u] assms(2,3)] K by blast
  then show "net_left u < net_left t"
    using delivery_less [OF u reach_lock [OF R(1)]] inv_got_open [OF G] inv_loop_calling [OF serve_invD(3) [OF R(2)]] K
    by blast
qed

text \<open>The call is written; the server has not read it yet.\<close>

definition written_run :: "nact list" where
  "written_run = [NClient (ACall ''Arith.Add'' (VInt 7) (Some (VInt 0))), NClient (AEnter 0), NSend 0]"

lemma written_run_ends:
  "\<exists>s. nact_run written_run (new_net arith_server {} {} fresh_store) = Some s \<and> cl_ncalls (nt_client s) = 1 \<and>
     \<not> nt_lost s \<and> cl_sender (nt_client s) 0 = Some SDone \<and> cl_signalled (nt_client s) = [] \<and>
     cl_caller (nt_client s) 0 = Some CSelect"
  by (simp add: written_run_def run_eval)

lemma internal_cancel_arith: "internal_cancel arith_server"
  by (auto simp: internal_cancel_def run_eval cancel_func_def split: if_splits)

lemma deliveries_caller:
  "(delivery decA decR)\<^sup>*\<^sup>* s t \<Longrightarrow> cl_caller (nt_client t) = cl_caller (nt_client s)"
  by (induction rule: rtranclp_induct) (auto dest: delivery_frame)

theorem made_calls_complete_witness:
  "\<exists>s t. net_reach plain_args plain_reply arith_server s \<and> cl_signalled (nt_client s) = [] \<and>
     (delivery plain_args plain_reply)\<^sup>*\<^sup>* s t \<and> 0 \<in> set (cl_signalled (nt_client t))"
proof -
  have n: "net_reach plain_args plain_reply arith_server (new_net arith_server {} {} fresh_store)"
    by (rule nr_new [OF ready_arith]) (simp add: fresh_store_def root_ctxs_def ctx_err_def background_def)
  obtain s where s: "nact_run written_run (new_net arith_server {} {} fresh_store) = Some s"
    "cl_ncalls (nt_client s) = 1" "\<not> nt_lost s" "cl_sender (nt_client s) 0 = Some SDone"
    "cl_signalled (nt_client s) = []" "cl_caller (nt_client s) 0 = Some CSelect"
    using written_run_ends by (elim exE conjE)
  have r: "net_reach plain_args plain_reply arith_server s" by (rule nact_run_reach [OF n s(1)])
  have e: "\<forall>ty x e. plain_args ty x = Inl e \<longrightarrow> error_text e \<noteq> []" by (simp add: plain_args_def)
  have "cl_ncalls (nt_client s) < 2 ^ 64" using s(2) by simp
  note M = made_calls_complete [OF r e internal_cancel_arith this s(3,4)]
  obtain t where t: "(delivery plain_args plain_reply)\<^sup>*\<^sup>* s t"
    "\<forall>u. (delivery plain_args plain_reply)\<^sup>*\<^sup>* s u \<longrightarrow> net_left t \<le> net_left u"
    using ex_has_least_nat [of "(delivery plain_args plain_reply)\<^sup>*\<^sup>* s" s net_left] by blast
  have "\<nexists>u. delivery plain_args plain_reply t u"
    using M t by (meson leD rtranclp.rtrancl_into_rtrancl)
  moreover have "\<not> by_ctx (cl_caller (nt_client t) 0)" using deliveries_caller [OF t(1)] s(6) by simp
  ultimately have "0 \<in> set (cl_signalled (nt_client t))" using M t(1) by blast
  with r s(5) t(1) show ?thesis by blast
qed

end
