(* ===== verification/Gob.thy ===== *)
theory Gob
  imports Service
begin

text \<open>
  What the gob codecs use of encoding/gob and bufio: messages with the names of the fields their type
  declares and the fields that were sent (zero values are left out), decoding by field name, a decoder
  as a stream of messages, and a buffered writer of 4096 bytes. The type definitions an encoder sends
  first are part of the message that needs them.
\<close>

section \<open>Messages\<close>

datatype gob =
    GNil                \<comment> \<open>never sent\<close>
  | GBool bool
  | GInt int
  | GUint u64
  | GString string
  | GStruct "string list" "(string \<times> gob) list"
  | GSlice "gob list"
  | GMap "(gob \<times> gob) list"

record gob_in =
  gi_msgs :: "gob list"
  gi_end :: go_error

definition gob_next :: "gob_in \<Rightarrow> (go_error + gob) \<times> gob_in" where
  "gob_next d =
     (case gi_msgs d of
        [] \<Rightarrow> (Inl (gi_end d), d)
      | m # ms \<Rightarrow> (Inr m, d\<lparr>gi_msgs := ms\<rparr>))"

definition gob_mismatch :: go_error where
  "gob_mismatch = ErrorString ''gob: type mismatch''"


section \<open>Values\<close>

text \<open>A field with such a value is not sent.\<close>

fun omitted :: "goval \<Rightarrow> bool" where
  "omitted VNil = True"
| "omitted (VBool b) = (\<not> b)"
| "omitted (VInt i) = (i = 0)"
| "omitted (VUint n) = (n = 0)"
| "omitted (VString s) = (s = [])"
| "omitted (VStruct n fs) = False"
| "omitted (VSlice vs) = (vs = [])"
| "omitted (VMap kvs) = (kvs = [])"
| "omitted (VPtr v) = omitted v"

text \<open>Pointers are flattened and unexported fields skipped.\<close>

fun to_gob :: "goval \<Rightarrow> gob" where
  "to_gob VNil = GNil"
| "to_gob (VBool b) = GBool b"
| "to_gob (VInt i) = GInt i"
| "to_gob (VUint n) = GUint n"
| "to_gob (VString s) = GString s"
| "to_gob (VStruct n fs) =
     GStruct (map fst (filter (\<lambda>f. is_exported (fst f)) fs))
       (map (\<lambda>f. (fst f, to_gob (snd f))) (filter (\<lambda>f. is_exported (fst f) \<and> \<not> omitted (snd f)) fs))"
| "to_gob (VSlice vs) = GSlice (map to_gob vs)"
| "to_gob (VMap kvs) = GMap (map (\<lambda>x. (to_gob (fst x), to_gob (snd x))) kvs)"
| "to_gob (VPtr v) = to_gob v"

definition basic_from_gob :: "string \<Rightarrow> gob \<Rightarrow> go_error + goval" where
  "basic_from_gob n g =
     (if n = ''bool'' then (case g of GBool b \<Rightarrow> Inr (VBool b) | _ \<Rightarrow> Inl gob_mismatch)
      else if n = ''string'' then (case g of GString s \<Rightarrow> Inr (VString s) | _ \<Rightarrow> Inl gob_mismatch)
      else if is_prefix_of ''uint'' n then (case g of GUint w \<Rightarrow> Inr (VUint w) | _ \<Rightarrow> Inl gob_mismatch)
      else (case g of GInt i \<Rightarrow> Inr (VInt i) | _ \<Rightarrow> Inl gob_mismatch))"

text \<open>
  The fields a struct with the fields \<open>names\<close> takes from a message: none match although there are some
  on both sides is an error, and so is a message that is not a struct.
\<close>

definition struct_fields :: "string list \<Rightarrow> gob \<Rightarrow> go_error + (string \<times> gob) list" where
  "struct_fields names g =
     (case g of
        GStruct ns fs \<Rightarrow>
          if names \<noteq> [] \<and> ns \<noteq> [] \<and> set names \<inter> set ns = {} then Inl gob_mismatch else Inr fs
      | _ \<Rightarrow> Inl gob_mismatch)"

text \<open>\<open>Decode\<close> into a new value of type \<open>t\<close>; maps and interfaces are left opaque.\<close>

fun from_gob :: "gotype \<Rightarrow> gob \<Rightarrow> go_error + goval" where
  "from_gob (TBasic n) g = basic_from_gob n g"
| "from_gob (TNamed p n u) g =
     (case u of
        TStruct _ \<Rightarrow> map_sum (\<lambda>v. case v of VStruct _ fs \<Rightarrow> VStruct n fs | w \<Rightarrow> w) (from_gob u g)
      | _ \<Rightarrow> from_gob u g)"
| "from_gob (TPtr t) g = map_sum VPtr (from_gob t g)"
| "from_gob (TSlice t) g =
     (case g of GSlice gs \<Rightarrow> map_sum (\<lambda>vs. if vs = [] then VNil else VSlice vs) (sequence (map (from_gob t) gs)) | _ \<Rightarrow> Inl gob_mismatch)"
| "from_gob (TStruct fs) g =
     (case struct_fields (map fst (filter (\<lambda>f. is_exported (fst f)) fs)) g of
        Inl e \<Rightarrow> Inl e
      | Inr ms \<Rightarrow>
          map_sum (VStruct []) (sequence (map (\<lambda>f.
            (case (if is_exported (fst f) then map_of ms (fst f) else None) of
               None \<Rightarrow> Inr (fst f, zero_value (snd f))
             | Some m \<Rightarrow> map_sum (Pair (fst f)) (from_gob (snd f) m))) fs)))"
| "from_gob (TMapOf k t) g = (case g of GMap kvs \<Rightarrow> Inr VNil | _ \<Rightarrow> Inl gob_mismatch)"
| "from_gob TInterface g = Inr VNil"


section \<open>Buffered output\<close>

text \<open>
  Messages that have reached the connection, those that have not, or not wholly, the bytes in the buffer,
  and the error that stays once a write to the connection has failed.
\<close>

record gob_writer =
  gw_out :: "gob list"
  gw_buf :: "gob list"
  gw_bytes :: nat
  gw_err :: "go_error option"

definition new_writer :: gob_writer where
  "new_writer = \<lparr>gw_out = [], gw_buf = [], gw_bytes = 0, gw_err = None\<rparr>"

definition buf_size :: nat where
  "buf_size = 4096"

text \<open>
  What the connection's \<open>Write\<close> makes of the messages it is given: it takes them, or returns an error when
  so many of them, and perhaps a part of the next, have gone out.
\<close>

datatype conn_write = Wrote | Failed go_error nat

text \<open>\<open>bufio.Writer.Write\<close> of a message of \<open>n\<close> bytes.\<close>

definition buf_write :: "conn_write \<Rightarrow> gob \<Rightarrow> nat \<Rightarrow> gob_writer \<Rightarrow> go_error option \<times> gob_writer" where
  "buf_write w g n b =
     (case gw_err b of
        Some e \<Rightarrow> (Some e, b)
      | None \<Rightarrow>
          if n \<le> buf_size - gw_bytes b
          then (None, b\<lparr>gw_buf := gw_buf b @ [g], gw_bytes := gw_bytes b + n\<rparr>)
          else (case w of
                  Failed e k \<Rightarrow>
                    (Some e, b\<lparr>gw_out := gw_out b @ take k (gw_buf b @ [g]), gw_err := Some e\<rparr>)
                | Wrote \<Rightarrow>
                    (let rest = n - (if gw_bytes b = 0 then n else buf_size - gw_bytes b)
                     in (None,
                         if 0 < rest \<and> rest \<le> buf_size
                         then b\<lparr>gw_out := gw_out b @ gw_buf b, gw_buf := [g], gw_bytes := rest\<rparr>
                         else b\<lparr>gw_out := gw_out b @ gw_buf b @ [g], gw_buf := [], gw_bytes := 0\<rparr>))))"

definition buf_flush :: "conn_write \<Rightarrow> gob_writer \<Rightarrow> go_error option \<times> gob_writer" where
  "buf_flush w b =
     (case gw_err b of
        Some e \<Rightarrow> (Some e, b)
      | None \<Rightarrow>
          if gw_bytes b = 0 then (None, b)
          else (case w of
                  Failed e k \<Rightarrow> (Some e, b\<lparr>gw_out := gw_out b @ take k (gw_buf b), gw_err := Some e\<rparr>)
                | Wrote \<Rightarrow> (None, b\<lparr>gw_out := gw_out b @ gw_buf b, gw_buf := [], gw_bytes := 0\<rparr>)))"

text \<open>What gob makes of a value: it cannot encode it, or a message of so many bytes, at least one.\<close>

datatype encoding = Refused go_error | Encoded nat

definition gob_encode ::
  "encoding \<Rightarrow> conn_write \<Rightarrow> gob \<Rightarrow> gob_writer \<Rightarrow> go_error option \<times> gob_writer" where
  "gob_encode x w g b = (case x of Refused e \<Rightarrow> (Some e, b) | Encoded n \<Rightarrow> buf_write w g (Suc n) b)"


section \<open>Round trip\<close>

text \<open>
  Types and values that survive: basic types, slices and structs with exported fields, without pointers,
  maps and interfaces inside, and no slice that is empty (it comes back nil).
\<close>

fun gob_type :: "gotype \<Rightarrow> bool" where
  "gob_type (TBasic n) = True"
| "gob_type (TNamed p n u) = gob_type u"
| "gob_type (TSlice t) = gob_type t"
| "gob_type (TStruct fs) =
     ((\<forall>f \<in> set fs. gob_type (snd f) \<and> is_exported (fst f)) \<and> distinct (map fst fs))"
| "gob_type _ = False"

fun gob_value :: "goval \<Rightarrow> bool" where
  "gob_value (VSlice vs) = (vs \<noteq> [] \<and> (\<forall>v \<in> set vs. gob_value v))"
| "gob_value (VStruct n fs) = (\<forall>f \<in> set fs. gob_value (snd f))"
| "gob_value VNil = False"
| "gob_value (VPtr v) = False"
| "gob_value (VMap kvs) = False"
| "gob_value _ = True"

lemma omitted_is_zero: "gob_type t \<Longrightarrow> gob_value v \<Longrightarrow> value_ok t v \<Longrightarrow> omitted v \<Longrightarrow> v = zero_value t"
proof (induction t arbitrary: v)
  case (TNamed p n u)
  then show ?case by (cases u) (auto split: goval.splits)
qed (auto split: goval.splits if_splits)

lemma basic_gob_round_trip: "value_ok (TBasic n) v \<Longrightarrow> from_gob (TBasic n) (to_gob v) = Inr v"
  by (auto simp: basic_from_gob_def split: if_splits goval.splits)

lemma map_of_sent:
  "distinct (map fst fs) \<Longrightarrow> i < length fs \<Longrightarrow>
   map_of (map (\<lambda>f. (fst f, g (snd f))) (filter (\<lambda>f. P (snd f)) fs)) (fst (fs ! i)) =
     (if P (snd (fs ! i)) then Some (g (snd (fs ! i))) else None)"
proof (induction fs arbitrary: i)
  case (Cons f fs)
  have none: "map_of (map (\<lambda>f. (fst f, g (snd f))) (filter (\<lambda>f. P (snd f)) fs)) k = None" if "k \<notin> set (map fst fs)" for k
    using that by (force simp: map_of_eq_None_iff)
  show ?case
  proof (cases i)
    case 0
    then show ?thesis using Cons.prems none [of "fst f"] by simp
  next
    case (Suc i')
    then have "fst (fs ! i') \<noteq> fst f" using Cons.prems by (metis Suc_less_eq distinct.simps(2) imageI length_Cons
      list.simps(9) list.set_map nth_mem)
    with Suc show ?thesis using Cons by simp
  qed
qed simp

lemma struct_gob_round_trip:
  assumes "\<And>f w. f \<in> set fs \<Longrightarrow> gob_value w \<Longrightarrow> value_ok (snd f) w \<Longrightarrow> from_gob (snd f) (to_gob w) = Inr w"
    and "\<forall>f \<in> set fs. gob_type (snd f) \<and> is_exported (fst f)" "distinct (map fst fs)"
    and "\<forall>w \<in> set vs. gob_value (snd w)"
    and "list_all2 (\<lambda>f w. fst f = fst w \<and> value_ok (snd f) (snd w)) fs vs"
  shows "from_gob (TStruct fs) (to_gob (VStruct s vs)) = Inr (VStruct [] vs)"
proof -
  have len: "length fs = length vs" by (rule list_all2_lengthD [OF assms(5)])
  have nth: "fst (fs ! i) = fst (vs ! i)" "value_ok (snd (fs ! i)) (snd (vs ! i))" if "i < length fs" for i
    using list_all2_nthD [OF assms(5) that] by blast+
  have names: "map fst vs = map fst fs" using len nth(1) by (simp add: list_eq_iff_nth_eq)
  then have "set (map fst vs) = set (map fst fs)" by simp
  then have "\<And>w. w \<in> set vs \<Longrightarrow> is_exported (fst w)" using assms(2) by force
  then have f: "filter (\<lambda>f. is_exported (fst f)) vs = vs" "filter (\<lambda>f. is_exported (fst f)) fs = fs"
    "filter (\<lambda>f. is_exported (fst f) \<and> \<not> omitted (snd f)) vs = filter (\<lambda>f. \<not> omitted (snd f)) vs"
    using assms(2) by (auto intro: filter_True filter_cong)
  let ?ms = "map (\<lambda>f. (fst f, to_gob (snd f))) (filter (\<lambda>f. \<not> omitted (snd f)) vs)"
  let ?field = "\<lambda>f. case (if is_exported (fst f) then map_of ?ms (fst f) else None) of
      None \<Rightarrow> Inr (fst f, zero_value (snd f)) | Some m \<Rightarrow> map_sum (Pair (fst f)) (from_gob (snd f) m)"
  have "sequence (map ?field fs) = Inr vs"
  proof (rule sequence_Inr)
    fix i assume "i < length (map ?field fs)"
    then have i: "i < length fs" by simp
    have m: "map_of ?ms (fst (vs ! i)) = (if omitted (snd (vs ! i)) then None else Some (to_gob (snd (vs ! i))))"
      using map_of_sent [of vs i to_gob "\<lambda>v. \<not> omitted v"] i len names assms(3) by simp
    have v: "gob_value (snd (vs ! i))" using assms(4) i len by simp
    have t: "gob_type (snd (fs ! i))" "is_exported (fst (vs ! i))"
      using bspec [OF assms(2) nth_mem [OF i]] nth(1) [OF i] by simp_all
    show "map ?field fs ! i = Inr (vs ! i)"
      using m t nth [OF i] i v assms(1) [OF nth_mem [OF i] v] omitted_is_zero [OF t(1) v]
      by (auto simp: prod_eq_iff)
  qed (simp add: len)
  then show ?thesis using names by (simp add: struct_fields_def f del: map_eq_conv)
qed

lemma gob_round_trip: "gob_type t \<Longrightarrow> gob_value v \<Longrightarrow> value_ok t v \<Longrightarrow> from_gob t (to_gob v) = Inr v"
proof (induction t arbitrary: v)
  case (TBasic n)
  then show ?case by (intro basic_gob_round_trip)
next
  case (TNamed p n u)
  show ?case
  proof (cases u)
    case (TStruct fs)
    with TNamed.prems(3) obtain vs where v: "v = VStruct n vs" "value_ok u (VStruct [] vs)"
      by (auto split: goval.splits)
    have "from_gob u (to_gob (VStruct [] vs)) = Inr (VStruct [] vs)"
      by (rule TNamed.IH) (use TNamed.prems v in simp_all)
    then show ?thesis using v(1) TStruct by simp
  qed (use TNamed in simp_all)
next
  case (TSlice t)
  then obtain vs where v: "v = VSlice vs" "vs \<noteq> []" "\<forall>w \<in> set vs. gob_value w \<and> value_ok t w"
    by (cases v) auto
  have "sequence (map (from_gob t) (map to_gob vs)) = Inr vs"
    by (rule sequence_Inr) (use TSlice v in auto)
  then show ?case using v by simp
next
  case (TStruct fs)
  from TStruct.prems obtain vs where v: "v = VStruct [] vs" "\<forall>w \<in> set vs. gob_value (snd w)"
    "list_all2 (\<lambda>f w. fst f = fst w \<and> value_ok (snd f) (snd w)) fs vs"
    by (auto split: goval.splits)
  show ?case
    unfolding v(1)
    by (rule struct_gob_round_trip [OF _ _ _ v(2,3)])
       (use TStruct in \<open>fastforce simp: snds.simps\<close>)+
qed simp_all

end
