(* ===== verification/GobCodec.thy ===== *)
theory GobCodec
  imports Gob
begin

text \<open>
  codec.go and birpc_codec.go: the gob codecs of the server, of the client and of a bidirectional
  connection. What gob makes of a header and of a body (\<open>h\<close> and \<open>b\<close>), what the connection's \<open>Write\<close> does
  when the header, the body or the rest of the buffer is written to it (\<open>w1\<close>, \<open>w2\<close> and \<open>w3\<close>), and what its
  \<open>Close\<close> returns (\<open>k\<close>) are arguments of the operations. \<open>gs_closes\<close>, \<open>gc_closes\<close> and \<open>gb_closes\<close>
  count the calls of the connection's \<open>Close\<close>.
\<close>

section \<open>Headers\<close>

definition sent_string :: "string \<Rightarrow> string \<Rightarrow> (string \<times> gob) list" where
  "sent_string k s = (if s = [] then [] else [(k, GString s)])"

definition sent_u64 :: "string \<Rightarrow> u64 \<Rightarrow> (string \<times> gob) list" where
  "sent_u64 k n = (if n = 0 then [] else [(k, GUint n)])"

definition gob_request :: "request \<Rightarrow> gob" where
  "gob_request r =
     GStruct [''ServiceMethod'', ''Seq''] (sent_string ''ServiceMethod'' (req_method r) @ sent_u64 ''Seq'' (req_seq r))"

definition gob_response :: "response \<Rightarrow> gob" where
  "gob_response r =
     GStruct [''Seq'', ''Error''] (sent_u64 ''Seq'' (resp_seq r) @ sent_string ''Error'' (resp_error r))"

definition got_string :: "string \<Rightarrow> (string \<times> gob) list \<Rightarrow> go_error + string" where
  "got_string k fs =
     (case map_of fs k of None \<Rightarrow> Inr [] | Some (GString s) \<Rightarrow> Inr s | _ \<Rightarrow> Inl gob_mismatch)"

definition got_u64 :: "string \<Rightarrow> (string \<times> gob) list \<Rightarrow> go_error + u64" where
  "got_u64 k fs =
     (case map_of fs k of None \<Rightarrow> Inr 0 | Some (GUint n) \<Rightarrow> Inr n | _ \<Rightarrow> Inl gob_mismatch)"

text \<open>Decoding into a cleared header.\<close>

definition request_from_gob :: "gob \<Rightarrow> go_error + request" where
  "request_from_gob g =
     (case struct_fields [''ServiceMethod'', ''Seq''] g of
        Inl e \<Rightarrow> Inl e
      | Inr fs \<Rightarrow>
          (case (got_string ''ServiceMethod'' fs, got_u64 ''Seq'' fs) of
             (Inr m, Inr n) \<Rightarrow> Inr \<lparr>req_method = m, req_seq = n\<rparr>
           | _ \<Rightarrow> Inl gob_mismatch))"

definition response_from_gob :: "gob \<Rightarrow> go_error + response" where
  "response_from_gob g =
     (case struct_fields [''Seq'', ''Error''] g of
        Inl e \<Rightarrow> Inl e
      | Inr fs \<Rightarrow>
          (case (got_u64 ''Seq'' fs, got_string ''Error'' fs) of
             (Inr n, Inr s) \<Rightarrow> Inr \<lparr>resp_seq = n, resp_error = s\<rparr>
           | _ \<Rightarrow> Inl gob_mismatch))"

text \<open>The type \<open>message\<close> of birpc_codec.go, which has the fields of both.\<close>

record gob_message =
  gm_seq :: u64
  gm_method :: string
  gm_error :: string

definition message_from_gob :: "gob \<Rightarrow> go_error + gob_message" where
  "message_from_gob g =
     (case struct_fields [''Seq'', ''ServiceMethod'', ''Error''] g of
        Inl e \<Rightarrow> Inl e
      | Inr fs \<Rightarrow>
          (case (got_u64 ''Seq'' fs, got_string ''ServiceMethod'' fs, got_string ''Error'' fs) of
             (Inr n, Inr m, Inr s) \<Rightarrow> Inr \<lparr>gm_seq = n, gm_method = m, gm_error = s\<rparr>
           | _ \<Rightarrow> Inl gob_mismatch))"

text \<open>\<open>Decode(body)\<close>: a nil body discards the message.\<close>

definition body_from_gob :: "gotype option \<Rightarrow> gob \<Rightarrow> go_error + goval" where
  "body_from_gob ty g = (case ty of None \<Rightarrow> Inr VNil | Some t \<Rightarrow> from_gob t g)"

definition decode_next :: "(gob \<Rightarrow> go_error + 'a) \<Rightarrow> gob_in \<Rightarrow> (go_error + 'a) \<times> gob_in" where
  "decode_next f d =
     (case gob_next d of (x, d') \<Rightarrow> (case x of Inl e \<Rightarrow> Inl e | Inr g \<Rightarrow> f g, d'))"


section \<open>The server's codec\<close>

record gob_server =
  gs_dec :: gob_in
  gs_writer :: gob_writer
  gs_closed :: bool
  gs_closes :: nat

definition new_gob_server :: "gob_in \<Rightarrow> gob_server" where
  "new_gob_server d = \<lparr>gs_dec = d, gs_writer = new_writer, gs_closed = False, gs_closes = 0\<rparr>"

definition gserver_read_header :: "gob_server \<Rightarrow> (go_error + request) \<times> gob_server" where
  "gserver_read_header c =
     (case decode_next request_from_gob (gs_dec c) of (x, d) \<Rightarrow> (x, c\<lparr>gs_dec := d\<rparr>))"

definition gserver_read_body :: "gotype option \<Rightarrow> gob_server \<Rightarrow> (go_error + goval) \<times> gob_server" where
  "gserver_read_body ty c =
     (case decode_next (body_from_gob ty) (gs_dec c) of (x, d) \<Rightarrow> (x, c\<lparr>gs_dec := d\<rparr>))"

definition gserver_close :: "go_error option \<Rightarrow> gob_server \<Rightarrow> go_error option \<times> gob_server" where
  "gserver_close k c =
     (if gs_closed c then (None, c)
      else (k, c\<lparr>gs_closed := True, gs_closes := Suc (gs_closes c)\<rparr>))"

text \<open>After a refused header or body: flush, and close when that worked.\<close>

definition gserver_abandon :: "conn_write \<Rightarrow> go_error option \<Rightarrow> gob_server \<Rightarrow> gob_server" where
  "gserver_abandon w k c =
     (case buf_flush w (gs_writer c) of
        (None, b) \<Rightarrow> snd (gserver_close k (c\<lparr>gs_writer := b\<rparr>))
      | (Some e, b) \<Rightarrow> c\<lparr>gs_writer := b\<rparr>)"

definition gserver_write_response ::
  "encoding \<Rightarrow> encoding \<Rightarrow> conn_write \<Rightarrow> conn_write \<Rightarrow> conn_write \<Rightarrow> go_error option \<Rightarrow>
   response \<Rightarrow> goval \<Rightarrow> gob_server \<Rightarrow>
   go_error option \<times> gob_server" where
  "gserver_write_response h b w1 w2 w3 k r x c =
     (case gob_encode h w1 (gob_response r) (gs_writer c) of
        (Some e, b1) \<Rightarrow> (Some e, gserver_abandon w3 k (c\<lparr>gs_writer := b1\<rparr>))
      | (None, b1) \<Rightarrow>
          (case gob_encode b w2 (to_gob x) b1 of
             (Some e, b2) \<Rightarrow> (Some e, gserver_abandon w3 k (c\<lparr>gs_writer := b2\<rparr>))
           | (None, b2) \<Rightarrow> (case buf_flush w3 b2 of (f, b3) \<Rightarrow> (f, c\<lparr>gs_writer := b3\<rparr>))))"


section \<open>The client's codec\<close>

record gob_client =
  gc_dec :: gob_in
  gc_writer :: gob_writer
  gc_closes :: nat

definition new_gob_client :: "gob_in \<Rightarrow> gob_client" where
  "new_gob_client d = \<lparr>gc_dec = d, gc_writer = new_writer, gc_closes = 0\<rparr>"

definition gclient_write_request ::
  "encoding \<Rightarrow> encoding \<Rightarrow> conn_write \<Rightarrow> conn_write \<Rightarrow> conn_write \<Rightarrow> request \<Rightarrow> goval \<Rightarrow> gob_client \<Rightarrow>
   go_error option \<times> gob_client" where
  "gclient_write_request h b w1 w2 w3 r x c =
     (case gob_encode h w1 (gob_request r) (gc_writer c) of
        (Some e, b1) \<Rightarrow> (Some e, c\<lparr>gc_writer := b1\<rparr>)
      | (None, b1) \<Rightarrow>
          (case gob_encode b w2 (to_gob x) b1 of
             (Some e, b2) \<Rightarrow> (Some e, c\<lparr>gc_writer := b2\<rparr>)
           | (None, b2) \<Rightarrow> (case buf_flush w3 b2 of (f, b3) \<Rightarrow> (f, c\<lparr>gc_writer := b3\<rparr>))))"

definition gclient_read_header :: "gob_client \<Rightarrow> (go_error + response) \<times> gob_client" where
  "gclient_read_header c =
     (case decode_next response_from_gob (gc_dec c) of (x, d) \<Rightarrow> (x, c\<lparr>gc_dec := d\<rparr>))"

definition gclient_read_body :: "gotype option \<Rightarrow> gob_client \<Rightarrow> (go_error + goval) \<times> gob_client" where
  "gclient_read_body ty c =
     (case decode_next (body_from_gob ty) (gc_dec c) of (x, d) \<Rightarrow> (x, c\<lparr>gc_dec := d\<rparr>))"

definition gclient_close :: "go_error option \<Rightarrow> gob_client \<Rightarrow> go_error option \<times> gob_client" where
  "gclient_close k c = (k, c\<lparr>gc_closes := Suc (gc_closes c)\<rparr>)"


section \<open>The bidirectional codec\<close>

text \<open>
  The encoder writes straight to the connection, \<open>gb_out\<close>; \<open>encBuf\<close> is flushed but nothing is ever
  written to it, so \<open>Flush\<close> returns nil.
\<close>

record gob_birpc =
  gb_dec :: gob_in
  gb_out :: "gob list"
  gb_closes :: nat

definition new_gob_birpc :: "gob_in \<Rightarrow> gob_birpc" where
  "new_gob_birpc d = \<lparr>gb_dec = d, gb_out = [], gb_closes = 0\<rparr>"

definition gbirpc_encode ::
  "encoding \<Rightarrow> conn_write \<Rightarrow> gob \<Rightarrow> gob_birpc \<Rightarrow> go_error option \<times> gob_birpc" where
  "gbirpc_encode x w g c =
     (case x of
        Refused e \<Rightarrow> (Some e, c)
      | Encoded n \<Rightarrow>
          (case w of
             Failed e k \<Rightarrow> (Some e, c\<lparr>gb_out := gb_out c @ take k [g]\<rparr>)
           | Wrote \<Rightarrow> (None, c\<lparr>gb_out := gb_out c @ [g]\<rparr>)))"

definition gbirpc_close :: "go_error option \<Rightarrow> gob_birpc \<Rightarrow> go_error option \<times> gob_birpc" where
  "gbirpc_close k c = (k, c\<lparr>gb_closes := Suc (gb_closes c)\<rparr>)"

definition gbirpc_read_header :: "gob_birpc \<Rightarrow> (go_error + request \<times> response) \<times> gob_birpc" where
  "gbirpc_read_header c =
     (case decode_next message_from_gob (gb_dec c) of
        (x, d) \<Rightarrow>
          (map_sum (\<lambda>m. if gm_method m \<noteq> []
                       then (\<lparr>req_method = gm_method m, req_seq = gm_seq m\<rparr>, zero_response)
                       else (zero_request, \<lparr>resp_seq = gm_seq m, resp_error = gm_error m\<rparr>)) x,
           c\<lparr>gb_dec := d\<rparr>))"

text \<open>\<open>ReadRequestBody\<close> and \<open>ReadResponseBody\<close>.\<close>

definition gbirpc_read_body :: "gotype option \<Rightarrow> gob_birpc \<Rightarrow> (go_error + goval) \<times> gob_birpc" where
  "gbirpc_read_body ty c =
     (case decode_next (body_from_gob ty) (gb_dec c) of (x, d) \<Rightarrow> (x, c\<lparr>gb_dec := d\<rparr>))"

text \<open>Each message is a \<open>Write\<close> of its own.\<close>

definition gbirpc_write_request ::
  "encoding \<Rightarrow> encoding \<Rightarrow> conn_write \<Rightarrow> conn_write \<Rightarrow> request \<Rightarrow> goval \<Rightarrow> gob_birpc \<Rightarrow>
   go_error option \<times> gob_birpc" where
  "gbirpc_write_request h b w1 w2 r x c =
     (case gbirpc_encode h w1 (gob_request r) c of
        (Some e, c1) \<Rightarrow> (Some e, c1)
      | (None, c1) \<Rightarrow> gbirpc_encode b w2 (to_gob x) c1)"

definition gbirpc_write_response ::
  "encoding \<Rightarrow> encoding \<Rightarrow> conn_write \<Rightarrow> conn_write \<Rightarrow> go_error option \<Rightarrow> response \<Rightarrow> goval \<Rightarrow> gob_birpc \<Rightarrow>
   go_error option \<times> gob_birpc" where
  "gbirpc_write_response h b w1 w2 k r x c =
     (case gbirpc_encode h w1 (gob_response r) c of
        (Some e, c1) \<Rightarrow> (Some e, snd (gbirpc_close k c1))
      | (None, c1) \<Rightarrow>
          (case gbirpc_encode b w2 (to_gob x) c1 of
             (Some e, c2) \<Rightarrow> (Some e, snd (gbirpc_close k c2))
           | (None, c2) \<Rightarrow> (None, c2)))"

end
