(* ===== verification/GobProps.thy ===== *)
theory GobProps
  imports GobCodec ClientProps
begin

text \<open>
  What the gob codecs guarantee: a response is sent whole or ends the stream, a request and its reply
  survive the wire, and what happens to a request that gob refuses to encode and to one without a method.
\<close>

section \<open>The buffer\<close>

definition writer_ok :: "gob_writer \<Rightarrow> bool" where
  "writer_ok b \<longleftrightarrow> (gw_bytes b = 0 \<longleftrightarrow> gw_buf b = [])"

definition emitted :: "gob_writer \<Rightarrow> gob list" where
  "emitted b = gw_out b @ gw_buf b"

lemma writer_ok_new [simp]: "writer_ok new_writer" "emitted new_writer = []" "gw_err new_writer = None"
  by (simp_all add: writer_ok_def emitted_def new_writer_def)

lemma buf_write_None:
  assumes "buf_write w g (Suc n) b = (None, b')"
  shows "emitted b' = emitted b @ [g]" "writer_ok b'" "gw_err b' = None" "gw_err b = None"
  using assms
  by (auto simp: buf_write_def emitted_def writer_ok_def Let_def split: option.splits conn_write.splits if_splits)

lemma buf_write_Some:
  "buf_write w g n b = (Some e, b') \<Longrightarrow> gw_err b' \<noteq> None"
  by (auto simp: buf_write_def Let_def split: option.splits conn_write.splits if_splits)

lemma buf_flush_None:
  assumes "buf_flush w b = (None, b')" "writer_ok b"
  shows "gw_out b' = emitted b" "gw_buf b' = []" "writer_ok b'" "gw_err b' = None"
  using assms by (auto simp: buf_flush_def emitted_def writer_ok_def split: option.splits conn_write.splits if_splits)

lemma buf_flush_Some: "buf_flush w b = (Some e, b') \<Longrightarrow> gw_err b' \<noteq> None"
  by (auto simp: buf_flush_def split: option.splits conn_write.splits if_splits)

lemma gob_encode_None:
  assumes "gob_encode x w g b = (None, b')"
  shows "emitted b' = emitted b @ [g]" "writer_ok b'" "gw_err b' = None" "gw_err b = None"
  using assms by (auto simp: gob_encode_def dest: buf_write_None split: encoding.splits)

lemma gob_encode_Some:
  assumes "gob_encode x w g b = (Some e, b')"
  obtains "x = Refused e" "b' = b" | "gw_err b' \<noteq> None"
  using assms by (auto simp: gob_encode_def dest: buf_write_Some split: encoding.splits)


section \<open>The server's stream stays in step\<close>

type_synonym gob_write =
  "encoding \<times> encoding \<times> conn_write \<times> conn_write \<times> conn_write \<times> go_error option \<times> response \<times> goval"

fun gserver_run :: "gob_write list \<Rightarrow> gob_server \<Rightarrow> gob_server" where
  "gserver_run [] c = c"
| "gserver_run ((h, b, w1, w2, w3, k, r, x) # ops) c = gserver_run ops (snd (gserver_write_response h b w1 w2 w3 k r x c))"

definition frames :: "gob_write list \<Rightarrow> gob list" where
  "frames ops = concat (map (\<lambda>(h, b, w1, w2, w3, k, r, x). [gob_response r, to_gob x]) ops)"

text \<open>Nothing has gone wrong on the connection.\<close>

definition gs_fine :: "gob_server \<Rightarrow> bool" where
  "gs_fine c \<longleftrightarrow> \<not> gs_closed c \<and> gw_err (gs_writer c) = None"

lemma gserver_abandon_ends: "\<not> gs_fine (gserver_abandon w k c)"
  by (auto simp: gserver_abandon_def gs_fine_def gserver_close_def dest: buf_flush_Some split: prod.splits option.splits)

lemma gserver_abandon_closes:
  "gs_closes (gserver_abandon w k c) \<le> 1 \<and> (gs_closed (gserver_abandon w k c) \<longleftrightarrow> gs_closes (gserver_abandon w k c) = 1)"
  if "gs_closes c \<le> 1 \<and> (gs_closed c \<longleftrightarrow> gs_closes c = 1)"
  using that by (auto simp: gserver_abandon_def gserver_close_def split: prod.splits option.splits)

lemma gserver_write_closes:
  "gs_closes c \<le> 1 \<and> (gs_closed c \<longleftrightarrow> gs_closes c = 1) \<Longrightarrow> c' = snd (gserver_write_response h b w1 w2 w3 k r x c) \<Longrightarrow>
   gs_closes c' \<le> 1 \<and> (gs_closed c' \<longleftrightarrow> gs_closes c' = 1)"
  using gserver_abandon_closes [of "c\<lparr>gs_writer := u\<rparr>" w3 k for u]
  by (auto simp: gserver_write_response_def split: prod.splits option.splits)

text \<open>A response was written whole and flushed, or the stream is at its end.\<close>

lemma gserver_write_fineE:
  assumes "gs_fine (snd (gserver_write_response h b w1 w2 w3 k r x c))"
  obtains b1 b2 b3 where "gs_fine c" "gob_encode h w1 (gob_response r) (gs_writer c) = (None, b1)"
    "gob_encode b w2 (to_gob x) b1 = (None, b2)" "buf_flush w3 b2 = (None, b3)"
    "gserver_write_response h b w1 w2 w3 k r x c = (None, c\<lparr>gs_writer := b3\<rparr>)"
proof -
  obtain b1 b2 b3 f where s: "gob_encode h w1 (gob_response r) (gs_writer c) = (None, b1)"
    "gob_encode b w2 (to_gob x) b1 = (None, b2)" "buf_flush w3 b2 = (f, b3)"
    "gserver_write_response h b w1 w2 w3 k r x c = (f, c\<lparr>gs_writer := b3\<rparr>)"
    using assms gserver_abandon_ends
    by (auto simp: gserver_write_response_def split: prod.splits option.splits)
  have "f = None" using buf_flush_Some [of w3 b2] s(3,4) assms by (cases f) (auto simp: gs_fine_def)
  moreover have "gs_fine c" using assms s(4) gob_encode_None(4) [OF s(1)] by (simp add: gs_fine_def)
  ultimately show ?thesis using that s by blast
qed

lemma gserver_write_fine:
  assumes "gs_fine (snd (gserver_write_response h b w1 w2 w3 k r x c))"
  defines "c' \<equiv> snd (gserver_write_response h b w1 w2 w3 k r x c)"
  shows "gw_out (gs_writer c') = emitted (gs_writer c) @ [gob_response r, to_gob x]" "gw_buf (gs_writer c') = []"
  using assms(1) by (rule gserver_write_fineE;
    use gob_encode_None buf_flush_None in \<open>force simp: c'_def\<close>)+

lemma gserver_run_snoc:
  "gserver_run (ops @ [(h, b, w1, w2, w3, k, r, x)]) c = snd (gserver_write_response h b w1 w2 w3 k r x (gserver_run ops c))"
  by (induction ops c rule: gserver_run.induct) simp_all

text \<open>
  C33: on the server's gob codec, whatever gob and the connection make of each response: as long as the
  connection has neither failed nor been closed, it holds exactly a header and a body for every response
  written, in order, with nothing left in the buffer; so a response that could not be written whole has
  ended the stream. The connection is closed at most once.
\<close>

theorem response_stream_stays_in_step:
  fixes ops d
  defines "c \<equiv> gserver_run ops (new_gob_server d)"
  shows "gs_closes c \<le> 1 \<and> (gs_closed c \<longleftrightarrow> gs_closes c = 1) \<and>
    (\<not> gs_closed c \<and> gw_err (gs_writer c) = None \<longrightarrow>
       gw_out (gs_writer c) = frames ops \<and> gw_buf (gs_writer c) = [])"
proof -
  have "gs_closes c \<le> 1 \<and> (gs_closed c \<longleftrightarrow> gs_closes c = 1)"
    unfolding c_def
  proof (induction ops rule: rev_induct)
    case (snoc op ops)
    obtain h b w1 w2 w3 k r x where "op = (h, b, w1, w2, w3, k, r, x)" by (cases op) auto
    with gserver_write_closes [OF snoc refl] show ?case by (simp add: gserver_run_snoc)
  qed (simp add: new_gob_server_def)
  moreover have "gw_out (gs_writer c) = frames ops \<and> gw_buf (gs_writer c) = []" if "gs_fine c"
    using that unfolding c_def
  proof (induction ops rule: rev_induct)
    case (snoc op ops)
    obtain h b w1 w2 w3 k r x where op: "op = (h, b, w1, w2, w3, k, r, x)" by (cases op) auto
    note fine = snoc.prems [unfolded op gserver_run_snoc]
    then have "gs_fine (gserver_run ops (new_gob_server d))" by (rule gserver_write_fineE)
    then show ?case
      using snoc.IH gserver_write_fine [OF fine] by (simp add: op gserver_run_snoc emitted_def frames_def)
  qed (simp add: new_gob_server_def frames_def new_writer_def)
  ultimately show ?thesis by (auto simp: gs_fine_def)
qed

lemmas gob_write_eval = gserver_write_response_def gclient_write_request_def gob_encode_def buf_write_def
  buf_flush_def buf_size_def new_gob_server_def new_gob_client_def new_writer_def gserver_abandon_def
  gserver_close_def Let_def

theorem response_stream_stays_in_step_witness:
  "\<exists>c :: gob_server. \<not> gs_closed c \<and> gw_out (gs_writer c) =
     [gob_response \<lparr>resp_seq = 1, resp_error = []\<rparr>, GInt 7, gob_response \<lparr>resp_seq = 2, resp_error = ''e''\<rparr>, GBool True]"
proof -
  let ?ops = "[(Encoded 40, Encoded 5000, Wrote, Wrote, Wrote, None, \<lparr>resp_seq = 1, resp_error = []\<rparr>, VPtr (VInt 7)),
    (Encoded 4095, Encoded 3, Wrote, Wrote, Wrote, None, \<lparr>resp_seq = 2, resp_error = ''e''\<rparr>, VBool True)] :: gob_write list"
  let ?c = "gserver_run ?ops (new_gob_server \<lparr>gi_msgs = [], gi_end = EOF\<rparr>)"
  have "\<not> gs_closed ?c \<and> gw_err (gs_writer ?c) = None"
    by (simp add: gob_write_eval)
  then show ?thesis
    using response_stream_stays_in_step [of ?ops "\<lparr>gi_msgs = [], gi_end = EOF\<rparr>"]
    by (intro exI [of _ ?c]) (simp add: frames_def)
qed


section \<open>A request that gob refuses\<close>

text \<open>
  C36: a request whose arguments gob cannot encode leaves its header in the client's buffer. The call is
  told the error, but the next request that is sent goes out behind that header, and the server decodes
  the second header as the arguments of the first request and the second arguments as a header.
\<close>

theorem refused_request_leaves_its_header:
  assumes "gw_err (gc_writer c) = None" "gw_bytes (gc_writer c) = 0" "gw_buf (gc_writer c) = []"
    and "n < buf_size" and "gclient_write_request (Encoded n) (Refused e) w1 w2 w3 q x c = (r, c1)"
    and "gclient_write_request h2 b2 v1 v2 v3 q2 x2 c1 = (None, c2)"
    and "gi_msgs (gs_dec s) = drop (length (gw_out (gc_writer c))) (gw_out (gc_writer c2))"
  shows "r = Some e \<and>
    gw_out (gc_writer c2) = gw_out (gc_writer c) @ [gob_request q, gob_request q2, to_gob x2] \<and>
    (\<exists>s1 s2 s3. gserver_read_header s = (Inr q, s1) \<and>
       gserver_read_body (Some t) s1 = (from_gob t (gob_request q2), s2) \<and>
       gserver_read_header s2 = (request_from_gob (to_gob x2), s3))"
proof -
  have 1: "r = Some e" "emitted (gc_writer c1) = gw_out (gc_writer c) @ [gob_request q]"
    using assms(1-5) by (auto simp: gclient_write_request_def gob_encode_def buf_write_def emitted_def)
  obtain b1 b2' b3 where 2: "gob_encode h2 v1 (gob_request q2) (gc_writer c1) = (None, b1)"
    "gob_encode b2 v2 (to_gob x2) b1 = (None, b2')" "buf_flush v3 b2' = (None, b3)" "c2 = c1\<lparr>gc_writer := b3\<rparr>"
    using assms(6) by (auto simp: gclient_write_request_def split: prod.splits option.splits)
  have 3: "gw_out (gc_writer c2) = gw_out (gc_writer c) @ [gob_request q, gob_request q2, to_gob x2]"
    using 1(2) 2(4) gob_encode_None(1) [OF 2(1)] gob_encode_None(1,2) [OF 2(2)] buf_flush_None(1) [OF 2(3)] by simp
  have "request_from_gob (gob_request q) = Inr q"
    by (auto simp: request_from_gob_def gob_request_def struct_fields_def got_string_def got_u64_def
      sent_string_def sent_u64_def)
  with 1(1) 3 assms(7) show ?thesis
    by (simp add: gserver_read_header_def gserver_read_body_def decode_next_def gob_next_def body_from_gob_def)
qed

theorem refused_request_leaves_its_header_witness:
  "\<exists>(c2 :: gob_client) s1 s2. gw_out (gc_writer c2) =
       [gob_request \<lparr>req_method = ''A.B'', req_seq = 1\<rparr>, gob_request \<lparr>req_method = ''A.B'', req_seq = 2\<rparr>, GInt 7] \<and>
     gserver_read_body (Some (TBasic ''int'')) s1 = (Inl gob_mismatch, s2)"
proof -
  let ?q = "\<lambda>n. \<lparr>req_method = ''A.B'', req_seq = n\<rparr> :: request"
  let ?c = "new_gob_client \<lparr>gi_msgs = [], gi_end = EOF\<rparr>"
  let ?c1 = "snd (gclient_write_request (Encoded 50) (Refused (ErrorString ''gob: type not registered'')) Wrote Wrote Wrote (?q 1) VNil ?c)"
  let ?c2 = "snd (gclient_write_request (Encoded 10) (Encoded 4) Wrote Wrote Wrote (?q 2) (VInt 7) ?c1)"
  let ?s = "new_gob_server \<lparr>gi_msgs = drop (length (gw_out (gc_writer ?c))) (gw_out (gc_writer ?c2)), gi_end = EOF\<rparr>"
  have c: "gw_err (gc_writer ?c) = None" "gw_bytes (gc_writer ?c) = 0" "gw_buf (gc_writer ?c) = []" "50 < buf_size"
    by (simp_all add: new_gob_client_def new_writer_def buf_size_def)
  have w1: "gclient_write_request (Encoded 50) (Refused (ErrorString ''gob: type not registered'')) Wrote Wrote Wrote (?q 1) VNil ?c =
      (Some (ErrorString ''gob: type not registered''), ?c1)"
    by (simp add: gob_write_eval)
  have w2: "gclient_write_request (Encoded 10) (Encoded 4) Wrote Wrote Wrote (?q 2) (VInt 7) ?c1 = (None, ?c2)"
    by (simp add: gob_write_eval)
  have s: "gi_msgs (gs_dec ?s) = drop (length (gw_out (gc_writer ?c))) (gw_out (gc_writer ?c2))"
    by (simp add: new_gob_server_def)
  show ?thesis
    using refused_request_leaves_its_header [OF c w1 w2 s, of "TBasic ''int''"]
    by (auto simp: gob_request_def basic_from_gob_def is_prefix_of_def new_gob_client_def new_writer_def)
qed


section \<open>Headers and bodies survive the wire\<close>

lemma header_round_trip [simp]:
  "request_from_gob (gob_request q) = Inr q"
  "response_from_gob (gob_response r) = Inr r"
  "message_from_gob (gob_request q) = Inr \<lparr>gm_seq = req_seq q, gm_method = req_method q, gm_error = []\<rparr>"
  "message_from_gob (gob_response r) = Inr \<lparr>gm_seq = resp_seq r, gm_method = [], gm_error = resp_error r\<rparr>"
  by (auto simp: request_from_gob_def response_from_gob_def message_from_gob_def gob_request_def gob_response_def
    struct_fields_def got_string_def got_u64_def sent_string_def sent_u64_def)

text \<open>A value that survives, given as itself or through a pointer.\<close>

definition survives :: "gotype \<Rightarrow> goval \<Rightarrow> goval \<Rightarrow> bool" where
  "survives t v x \<longleftrightarrow> gob_type t \<and> gob_value v \<and> value_ok t v \<and> (x = v \<or> x = VPtr v)"

lemma survives_decoded [simp]: "survives t v x \<Longrightarrow> body_from_gob (Some t) (to_gob x) = Inr v"
  by (auto simp: survives_def body_from_gob_def gob_round_trip)

lemma gclient_written:
  assumes "gclient_write_request h b w1 w2 w3 q x c = (None, c')" "gw_buf (gc_writer c) = []"
  shows "gw_out (gc_writer c') = gw_out (gc_writer c) @ [gob_request q, to_gob x]"
proof -
  obtain b1 b2 b3 where s: "gob_encode h w1 (gob_request q) (gc_writer c) = (None, b1)"
    "gob_encode b w2 (to_gob x) b1 = (None, b2)" "buf_flush w3 b2 = (None, b3)" "c' = c\<lparr>gc_writer := b3\<rparr>"
    using assms(1) by (auto simp: gclient_write_request_def split: prod.splits option.splits)
  show ?thesis
    using gob_encode_None(1) [OF s(1)] gob_encode_None(1,2) [OF s(2)] buf_flush_None(1) [OF s(3)] assms(2) s(4)
    by (simp add: emitted_def)
qed

lemma gserver_written:
  assumes "gserver_write_response h b w1 w2 w3 k r x c = (None, c')" "gw_buf (gs_writer c) = []"
  shows "gw_out (gs_writer c') = gw_out (gs_writer c) @ [gob_response r, to_gob x]"
proof -
  obtain b1 b2 b3 where s: "gob_encode h w1 (gob_response r) (gs_writer c) = (None, b1)"
    "gob_encode b w2 (to_gob x) b1 = (None, b2)" "buf_flush w3 b2 = (None, b3)" "c' = c\<lparr>gs_writer := b3\<rparr>"
    using assms(1) by (auto simp: gserver_write_response_def split: prod.splits option.splits)
  show ?thesis
    using gob_encode_None(1) [OF s(1)] gob_encode_None(1,2) [OF s(2)] buf_flush_None(1) [OF s(3)] assms(2) s(4)
    by (simp add: emitted_def)
qed




section \<open>The bidirectional codec\<close>

lemma gbirpc_encode_None:
  "gbirpc_encode x w g c = (None, c') \<Longrightarrow> c' = c\<lparr>gb_out := gb_out c @ [g]\<rparr>"
  by (auto simp: gbirpc_encode_def split: encoding.splits conn_write.splits)

lemma gbirpc_request_written:
  "gbirpc_write_request h b w1 w2 q x c = (None, c') \<Longrightarrow> gb_out c' = gb_out c @ [gob_request q, to_gob x]"
  by (auto simp: gbirpc_write_request_def dest!: gbirpc_encode_None split: prod.splits option.splits)

lemma gbirpc_response_written:
  "gbirpc_write_response h b w1 w2 k r x c = (None, c') \<Longrightarrow> gb_out c' = gb_out c @ [gob_response r, to_gob x]"
  by (auto simp: gbirpc_write_response_def dest!: gbirpc_encode_None split: prod.splits option.splits)



text \<open>
  C37: a request without a method name is taken for a response: the peer's reader completes its own
  pending call of that number, with the request's arguments as the reply.
\<close>

theorem request_without_method_is_taken_for_a_response:
  assumes "gbirpc_write_request h b w1 w2 q arg a = (None, a1)" and "req_method q = []" and "survives t v arg"
    and "gi_msgs (gb_dec c) = drop (length (gb_out a)) (gb_out a1)"
    and "cl_reader s = RReading" and "cl_pending s (req_seq q) = Some i"
    and "c_reply (cl_calls s i) = Some old"
  shows "\<exists>p c1 c2 s1 s2. gbirpc_read_header c = (Inr (zero_request, p), c1) \<and>
    gbirpc_read_body (Some t) c1 = (Inr v, c2) \<and>
    input_header (Inr p) s = Some s1 \<and> input_body (Inr v) s1 = Some s2 \<and>
    i \<in> set (cl_signalled s2) \<and> c_error (cl_calls s2 i) = c_error (cl_calls s i) \<and> c_reply (cl_calls s2 i) = Some v"
proof -
  have "gi_msgs (gb_dec c) = [gob_request q, to_gob arg]"
    using assms(4) gbirpc_request_written [OF assms(1)] by simp
  then have "\<exists>c1 c2. gbirpc_read_header c = (Inr (zero_request, \<lparr>resp_seq = req_seq q, resp_error = []\<rparr>), c1) \<and>
      gbirpc_read_body (Some t) c1 = (Inr v, c2)"
    using assms(2,3) by (simp add: gbirpc_read_header_def gbirpc_read_body_def decode_next_def gob_next_def)
  then show ?thesis
    using assms(5-7) by (fastforce simp: input_header_def input_body_def set_reply_def call_done_def Let_def)
qed

theorem request_without_method_is_taken_for_a_response_witness:
  "\<exists>s1 s2. input_body (Inr (VInt 7)) s1 = Some s2 \<and> 0 \<in> set (cl_signalled s2) \<and>
     c_error (cl_calls s2 0) = None \<and> c_reply (cl_calls s2 0) = Some (VInt 7)"
proof -
  let ?q = "\<lparr>req_method = [], req_seq = 1\<rparr>"
  let ?a = "new_gob_birpc \<lparr>gi_msgs = [], gi_end = EOF\<rparr>"
  let ?a1 = "snd (gbirpc_write_request (Encoded 9) (Encoded 9) Wrote Wrote ?q (VInt 7) ?a)"
  let ?c = "new_gob_birpc \<lparr>gi_msgs = drop (length (gb_out ?a)) (gb_out ?a1), gi_end = EOF\<rparr>"
  obtain s where s: "client_call ''C.D'' (VInt 2) (Some VNil) new_basic_client = Some (0, s)"
    by (simp add: client_call_def client_go_def make_chan_def set_sender_def set_caller_def Let_def new_basic_client_def)
  obtain s' where s': "send_enter 0 s = Some s'" "cl_reader s' = RReading" "cl_pending s' (req_seq ?q) = Some 0"
    "c_reply (cl_calls s' 0) = Some VNil" "c_error (cl_calls s' 0) = None"
    using s by (auto simp: send_enter_def client_call_def client_go_def make_chan_def set_sender_def set_caller_def
      Let_def new_basic_client_def)
  have w: "gbirpc_write_request (Encoded 9) (Encoded 9) Wrote Wrote ?q (VInt 7) ?a = (None, ?a1)" "req_method ?q = []"
    "survives (TBasic ''int'') (VInt 7) (VInt 7)"
    by (simp_all add: gbirpc_write_request_def gbirpc_encode_def survives_def is_prefix_of_def)
  have i: "gi_msgs (gb_dec ?c) = drop (length (gb_out ?a)) (gb_out ?a1)" by (simp add: new_gob_birpc_def)
  show ?thesis
    using request_without_method_is_taken_for_a_response [OF w i s'(2-4)] s'(5) by auto
qed

end
