(* ===== verification/Dial.thy ===== *)
theory Dial
  imports Prelude
begin

text \<open>
  How connections come about: \<open>Accept\<close> of server.go and birpc_server.go, and the HTTP handshake, \<open>ServeHTTP\<close>
  of server.go and \<open>DialHTTPPathTimeout\<close> of client.go. What an operation does to the network is the list
  of its effects; what the network and net/http answer is an argument. net/http is modelled as far as the
  two sides need each other's first line.
\<close>

section \<open>Accepting connections\<close>

text \<open>
  The loop over what \<open>lis.Accept\<close> returns: the connections given to goroutines of \<open>ServeConn\<close>, and the
  error it ends with; \<open>None\<close> while it waits for more.
\<close>

fun accept_loop :: "(go_error + 'c) list \<Rightarrow> 'c list \<times> go_error option" where
  "accept_loop [] = ([], None)"
| "accept_loop (Inl e # rs) = ([], Some e)"
| "accept_loop (Inr c # rs) = (case accept_loop rs of (cs, r) \<Rightarrow> (c # cs, r))"

lemma accept_loop_error:
  "accept_loop (map Inr cs @ Inl e # rs) = (cs, Some e)"
  by (induction cs) simp_all


section \<open>The server's side\<close>

definition newline :: string where
  "newline = [CHR 0x0A]"

definition connected :: string where
  "connected = ''200 Connected to Go RPC''"

datatype http_effect =
    SetHeader string string
  | WriteHeader nat
  | WriteBody string
  | LogHijack go_error
  | ConnWrite string
  | ConnServe
  | ConnClose

definition serve_http :: "string \<Rightarrow> go_error option \<Rightarrow> http_effect list" where
  "serve_http meth hijack =
     (if meth \<noteq> ''CONNECT''
      then [SetHeader ''Content-Type'' ''text/plain; charset=utf-8'', WriteHeader 405,
            WriteBody (''405 must CONNECT'' @ newline)]
      else (case hijack of
              Some e \<Rightarrow> [LogHijack e]
            | None \<Rightarrow> [ConnWrite (''HTTP/1.0 '' @ connected @ newline @ newline), ConnServe]))"


section \<open>The client's side\<close>

text \<open>\<open>net.OpError\<close> with its fields \<open>Op\<close>, \<open>Net\<close> and \<open>Err\<close>; other errors are passed on.\<close>

datatype dial_error = DialFailed go_error | OpError string string go_error

definition connect_line :: "string \<Rightarrow> string" where
  "connect_line path = ''CONNECT '' @ path @ '' HTTP/1.0'' @ newline @ newline"

text \<open>
  \<open>dial\<close> is what \<open>net.DialTimeout\<close> returns and \<open>status\<close> what \<open>http.ReadResponse\<close> does, an error or the
  field \<open>Status\<close>. The result is the connection for \<open>NewClient\<close>, or the error.
\<close>

definition dial_http_path_timeout ::
  "string \<Rightarrow> string \<Rightarrow> string \<Rightarrow> go_error + 'c \<Rightarrow> go_error + string \<Rightarrow> (dial_error + 'c) \<times> http_effect list" where
  "dial_http_path_timeout network address path dial status =
     (case dial of
        Inl e \<Rightarrow> (Inl (DialFailed e), [])
      | Inr c \<Rightarrow>
          (if status = Inr connected then (Inr c, [ConnWrite (connect_line path)])
           else
             (let err = (case status of Inl e \<Rightarrow> e
                         | Inr st \<Rightarrow> ErrorString (''unexpected HTTP response: '' @ st))
              in (Inl (OpError ''dial-http'' (network @ '' '' @ address) err),
                  [ConnWrite (connect_line path), ConnClose]))))"

definition default_rpc_path :: string where
  "default_rpc_path = ''/_goRPC_''"

definition dial_http ::
  "string \<Rightarrow> string \<Rightarrow> go_error + 'c \<Rightarrow> go_error + string \<Rightarrow> (dial_error + 'c) \<times> http_effect list" where
  "dial_http network address dial status =
     dial_http_path_timeout network address default_rpc_path dial status"


section \<open>The handshake\<close>

text \<open>What net/http makes of a first line: the method of a request, the \<open>Status\<close> of a response.\<close>

definition first_line :: "string \<Rightarrow> string" where
  "first_line s = takeWhile (\<lambda>c. c \<noteq> CHR 0x0A) s"

definition request_method_of :: "string \<Rightarrow> string" where
  "request_method_of s = takeWhile (\<lambda>c. c \<noteq> CHR '' '') (first_line s)"

definition response_status_of :: "string \<Rightarrow> string" where
  "response_status_of s = dropWhile (\<lambda>c. c = CHR '' '') (dropWhile (\<lambda>c. c \<noteq> CHR '' '') (first_line s))"

lemma connect_is_connect: "request_method_of (connect_line path) = ''CONNECT''"
  unfolding request_method_of_def connect_line_def first_line_def newline_def by simp

lemma status_is_connected: "response_status_of (''HTTP/1.0 '' @ connected @ newline @ newline) = connected"
  unfolding response_status_of_def connected_def first_line_def newline_def by simp

text \<open>
  The two sides of the HTTP handshake agree, for every path: the line the client sends is a CONNECT
  request, which the server answers by serving the connection, and from the line it answers with the
  client takes the connection, which nobody closes; any other answer makes the client close it and
  report the error.
\<close>

theorem http_handshake_agrees:
  assumes "ConnWrite line \<in> set (snd (dial_http_path_timeout network address path (Inr c) st0))"
    and "ConnWrite answer \<in> set (serve_http (request_method_of line) None)"
  shows "ConnServe \<in> set (serve_http (request_method_of line) None) \<and>
    dial_http_path_timeout network address path (Inr c) (Inr (response_status_of answer)) =
      (Inr c, [ConnWrite line]) \<and>
    (\<forall>st. st \<noteq> Inr (response_status_of answer) \<longrightarrow>
       ConnClose \<in> set (snd (dial_http_path_timeout network address path (Inr c) st)) \<and>
       (\<exists>e. fst (dial_http_path_timeout network address path (Inr c) st) =
          Inl (OpError ''dial-http'' (network @ '' '' @ address) e)))"
proof -
  have line: "line = connect_line path"
    using assms(1) by (auto simp: dial_http_path_timeout_def Let_def split: if_splits)
  have meth: "request_method_of line = ''CONNECT''"
    unfolding line by (rule connect_is_connect)
  have "answer = ''HTTP/1.0 '' @ connected @ newline @ newline"
    using assms(2) by (auto simp: serve_http_def meth)
  then have status: "response_status_of answer = connected"
    by (simp only: status_is_connected)
  show ?thesis
    unfolding meth status
    by (simp add: line serve_http_def dial_http_path_timeout_def Let_def)
qed

theorem http_handshake_agrees_witness:
  "dial_http_path_timeout ''tcp'' ''h'' ''/p'' (Inr (0 :: nat))
     (Inr (response_status_of (''HTTP/1.0 '' @ connected @ newline @ newline))) =
   (Inr 0, [ConnWrite (connect_line ''/p'')])"
proof -
  have "ConnWrite (connect_line ''/p'') \<in>
      set (snd (dial_http_path_timeout ''tcp'' ''h'' ''/p'' (Inr (0 :: nat)) (Inl EOF)))"
    by (simp add: dial_http_path_timeout_def)
  moreover have "ConnWrite (''HTTP/1.0 '' @ connected @ newline @ newline) \<in>
      set (serve_http (request_method_of (connect_line ''/p'')) None)"
    unfolding connect_is_connect by (simp add: serve_http_def)
  ultimately show ?thesis by (rule http_handshake_agrees [THEN conjunct2, THEN conjunct1])
qed

end
