(* ===== verification/Json.thy ===== *)
theory Json
  imports Service
begin

text \<open>
  What the JSON-RPC codecs use of encoding/json: a decoder is a stream of JSON values with the error
  that ends it; decoding into a struct matches keys without regard to (ASCII) case, later keys winning,
  skips unknown keys and treats null as described by the package for each kind of target. Go values
  are encoded by \<open>to_json\<close> and decoded, into zero values, by \<open>from_json\<close>.
\<close>

section \<open>Values and streams\<close>

datatype json =
    JNull
  | JBool bool
  | JNum int
  | JFrac string      \<comment> \<open>a number that is not an integer\<close>
  | JStr string
  | JArr "json list"
  | JObj "(string \<times> json) list"

record json_in =
  ji_msgs :: "json list"
  ji_end :: go_error

definition dec_next :: "json_in \<Rightarrow> (go_error + json) \<times> json_in" where
  "dec_next d =
     (case ji_msgs d of
        [] \<Rightarrow> (Inl (ji_end d), d)
      | j # js \<Rightarrow> (Inr j, d\<lparr>ji_msgs := js\<rparr>))"

definition lower_char :: "char \<Rightarrow> char" where
  "lower_char c =
     (let n = (of_char c :: nat) in if 65 \<le> n \<and> n \<le> 90 then char_of (n + 32) else c)"

definition same_key :: "string \<Rightarrow> string \<Rightarrow> bool" where
  "same_key a b \<longleftrightarrow> map lower_char a = map lower_char b"

text \<open>The last member of an object that a struct field named \<open>k\<close> takes, and all of them in order.\<close>

fun member :: "string \<Rightarrow> (string \<times> json) list \<Rightarrow> json option" where
  "member k [] = None"
| "member k ((k', v) # ms) =
     (case member k ms of Some w \<Rightarrow> Some w | None \<Rightarrow> if same_key k k' then Some v else None)"

text \<open>Fields of the types the codecs declare: string, \<open>*json.RawMessage\<close>, uint64 and any. Every member
  with the key is stored in turn; null leaves a string or a number alone and makes a pointer or an
  interface nil.\<close>

definition matching :: "string \<Rightarrow> (string \<times> json) list \<Rightarrow> json list" where
  "matching k ms = map snd (filter (\<lambda>m. same_key k (fst m)) ms)"

fun store_strings :: "string \<Rightarrow> string \<Rightarrow> json list \<Rightarrow> go_error + string" where
  "store_strings k old [] = Inr old"
| "store_strings k old (JNull # js) = store_strings k old js"
| "store_strings k old (JStr s # js) = store_strings k s js"
| "store_strings k old (_ # js) = Inl (UnmarshalError k)"

definition field_string :: "string \<Rightarrow> string \<Rightarrow> (string \<times> json) list \<Rightarrow> go_error + string" where
  "field_string k old ms = store_strings k old (matching k ms)"

definition field_raw :: "string \<Rightarrow> (string \<times> json) list \<Rightarrow> json option" where
  "field_raw k ms = (case member k ms of Some JNull \<Rightarrow> None | x \<Rightarrow> x)"

definition to_u64 :: "json \<Rightarrow> u64 option" where
  "to_u64 j = (case j of JNum n \<Rightarrow> if 0 \<le> n \<and> n < 2 ^ 64 then Some (of_int n) else None | _ \<Rightarrow> None)"

fun store_u64s :: "string \<Rightarrow> u64 \<Rightarrow> json list \<Rightarrow> go_error + u64" where
  "store_u64s k old [] = Inr old"
| "store_u64s k old (j # js) =
     (if j = JNull then store_u64s k old js
      else case to_u64 j of Some n \<Rightarrow> store_u64s k n js | None \<Rightarrow> Inl (UnmarshalError k))"

definition field_u64 :: "string \<Rightarrow> u64 \<Rightarrow> (string \<times> json) list \<Rightarrow> go_error + u64" where
  "field_u64 k old ms = store_u64s k old (matching k ms)"

text \<open>The members of a value decoded into a struct; null leaves every field alone.\<close>

definition members_of :: "json \<Rightarrow> go_error + (string \<times> json) list" where
  "members_of j =
     (case j of JObj ms \<Rightarrow> Inr ms | JNull \<Rightarrow> Inr [] | _ \<Rightarrow> Inl (UnmarshalError ''struct''))"


section \<open>Encoding Go values\<close>

text \<open>Unexported struct fields are skipped; field tags, and types that encode themselves, are not modelled.\<close>

definition key_string :: "goval \<Rightarrow> string" where
  "key_string v = (case v of VString s \<Rightarrow> s | _ \<Rightarrow> [])"

fun to_json :: "goval \<Rightarrow> json" where
  "to_json VNil = JNull"
| "to_json (VBool b) = JBool b"
| "to_json (VInt i) = JNum i"
| "to_json (VUint n) = JNum (uint n)"
| "to_json (VString s) = JStr s"
| "to_json (VStruct n fs) = JObj (map (\<lambda>f. (fst f, to_json (snd f))) (filter (\<lambda>f. is_exported (fst f)) fs))"
| "to_json (VSlice vs) = JArr (map to_json vs)"
| "to_json (VMap kvs) = JObj (map (\<lambda>x. (key_string (fst x), to_json (snd x))) kvs)"
| "to_json (VPtr v) = to_json v"


section \<open>Decoding Go values\<close>

definition basic_from_json :: "string \<Rightarrow> json \<Rightarrow> go_error + goval" where
  "basic_from_json n j =
     (if n = ''bool'' then (case j of JBool b \<Rightarrow> Inr (VBool b) | _ \<Rightarrow> Inl (UnmarshalError n))
      else if n = ''string'' then (case j of JStr s \<Rightarrow> Inr (VString s) | _ \<Rightarrow> Inl (UnmarshalError n))
      else if is_prefix_of ''uint'' n
      then (case to_u64 j of Some w \<Rightarrow> Inr (VUint w) | None \<Rightarrow> Inl (UnmarshalError n))
      else (case j of JNum i \<Rightarrow> Inr (VInt i) | _ \<Rightarrow> Inl (UnmarshalError n)))"

text \<open>
  \<open>json.Unmarshal\<close> into a new value of type \<open>t\<close>. Null leaves the zero value. Map keys are strings; what
  an interface gets is left as an opaque nil, since the library only passes it on.
\<close>

fun from_json :: "gotype \<Rightarrow> json \<Rightarrow> go_error + goval" where
  "from_json (TBasic n) j = (if j = JNull then Inr (zero_value (TBasic n)) else basic_from_json n j)"
| "from_json (TNamed p n u) j =
     (case u of
        TStruct _ \<Rightarrow> map_sum (\<lambda>v. case v of VStruct _ fs \<Rightarrow> VStruct n fs | w \<Rightarrow> w) (from_json u j)
      | _ \<Rightarrow> from_json u j)"
| "from_json (TPtr t) j = (if j = JNull then Inr VNil else map_sum VPtr (from_json t j))"
| "from_json (TSlice t) j =
     (case j of
        JNull \<Rightarrow> Inr VNil
      | JArr js \<Rightarrow> map_sum VSlice (sequence (map (from_json t) js))
      | _ \<Rightarrow> Inl (UnmarshalError ''slice''))"
| "from_json (TMapOf k t) j =
     (case j of
        JNull \<Rightarrow> Inr VNil
      | JObj ms \<Rightarrow> map_sum VMap (sequence (map (\<lambda>m. map_sum (\<lambda>v. (VString (fst m), v)) (from_json t (snd m))) ms))
      | _ \<Rightarrow> Inl (UnmarshalError ''map''))"
| "from_json (TStruct fs) j =
     (case members_of j of
        Inl e \<Rightarrow> Inl e
      | Inr ms \<Rightarrow>
          map_sum (VStruct []) (sequence (map (\<lambda>f.
            (case (if is_exported (fst f) then member (fst f) ms else None) of
               None \<Rightarrow> Inr (fst f, zero_value (snd f))
             | Some m \<Rightarrow> map_sum (Pair (fst f)) (from_json (snd f) m))) fs)))"
| "from_json TInterface j = Inr VNil"


section \<open>Round trip\<close>

text \<open>
  Types whose values survive: no maps and interfaces, exported struct fields that differ in more than
  case, no pointer to something that is encoded as null itself. Slices of bytes, which the package
  encodes in base64, are left aside.
\<close>

fun nullable :: "gotype \<Rightarrow> bool" where
  "nullable (TPtr t) = True"
| "nullable (TSlice t) = True"
| "nullable (TMapOf k t) = True"
| "nullable TInterface = True"
| "nullable (TNamed p n u) = nullable u"
| "nullable _ = False"

fun is_byte :: "gotype \<Rightarrow> bool" where
  "is_byte (TBasic n) \<longleftrightarrow> n = ''uint8'' \<or> n = ''byte''"
| "is_byte (TNamed p n u) = is_byte u"
| "is_byte _ = False"

fun plain :: "gotype \<Rightarrow> bool" where
  "plain (TBasic n) = True"
| "plain (TNamed p n u) = plain u"
| "plain (TPtr t) = (plain t \<and> \<not> nullable t)"
| "plain (TSlice t) = (plain t \<and> \<not> is_byte t)"
| "plain (TMapOf k t) = False"
| "plain (TStruct fs) =
     ((\<forall>f \<in> set fs. plain (snd f) \<and> is_exported (fst f)) \<and> distinct (map (\<lambda>f. map lower_char (fst f)) fs))"
| "plain TInterface = False"

lemma member_map:
  "distinct (map (\<lambda>f. map lower_char (fst f)) fs) \<Longrightarrow> i < length fs \<Longrightarrow>
   member (fst (fs ! i)) (map (\<lambda>f. (fst f, g (snd f))) fs) = Some (g (snd (fs ! i)))"
proof (induction fs arbitrary: i)
  case (Cons f fs)
  have none: "member k (map (\<lambda>f. (fst f, g (snd f))) fs) = None"
    if "map lower_char k \<notin> (\<lambda>f. map lower_char (fst f)) ` set fs" for k
    using that by (induction fs) (auto simp: same_key_def)
  show ?case
  proof (cases i)
    case 0
    then show ?thesis using Cons.prems none [of "fst f"] by (simp add: same_key_def)
  next
    case (Suc i')
    then show ?thesis using Cons by simp
  qed
qed simp

lemma uint_range: "0 \<le> uint (n :: u64)" "uint (n :: u64) < 2 ^ 64"
  using uint_lt2p [of n] by simp_all

lemma to_json_not_null: "value_ok t v \<Longrightarrow> \<not> nullable t \<Longrightarrow> to_json v \<noteq> JNull"
proof (induction t arbitrary: v)
  case (TNamed p n u)
  then show ?case by (cases u) (auto split: goval.splits)
qed (auto split: goval.splits if_splits)

lemma to_u64_uint [simp]: "to_u64 (JNum (uint n)) = Some n"
  using uint_range [of n] by (simp add: to_u64_def)

lemma basic_round_trip: "value_ok (TBasic n) v \<Longrightarrow> from_json (TBasic n) (to_json v) = Inr v"
  by (auto simp: basic_from_json_def split: if_splits goval.splits)

lemma struct_round_trip:
  assumes "\<And>f w. f \<in> set fs \<Longrightarrow> value_ok (snd f) w \<Longrightarrow> from_json (snd f) (to_json w) = Inr w"
    and "\<forall>f \<in> set fs. is_exported (fst f)" "distinct (map (\<lambda>f. map lower_char (fst f)) fs)"
    and "list_all2 (\<lambda>f w. fst f = fst w \<and> value_ok (snd f) (snd w)) fs vs"
  shows "from_json (TStruct fs) (to_json (VStruct [] vs)) = Inr (VStruct [] vs)"
proof -
  have len: "length fs = length vs" by (rule list_all2_lengthD [OF assms(4)])
  have nth: "fst (fs ! i) = fst (vs ! i)" "value_ok (snd (fs ! i)) (snd (vs ! i))" if "i < length fs" for i
    using list_all2_nthD [OF assms(4) that] by blast+
  have names: "map fst vs = map fst fs" using len nth(1) by (simp add: list_eq_iff_nth_eq)
  then have "set (map fst vs) = set (map fst fs)" by simp
  then have exported: "filter (\<lambda>f. is_exported (fst f)) vs = vs"
    using assms(2) by (intro filter_True) force
  have "map (map lower_char) (map fst vs) = map (map lower_char) (map fst fs)" by (simp only: names)
  then have dist: "distinct (map (\<lambda>f. map lower_char (fst f)) vs)"
    using assms(3) by (simp add: comp_def)
  have "sequence (map (\<lambda>f.
      (case (if is_exported (fst f) then member (fst f) (map (\<lambda>f. (fst f, to_json (snd f))) vs) else None) of
         None \<Rightarrow> Inr (fst f, zero_value (snd f))
       | Some m \<Rightarrow> map_sum (Pair (fst f)) (from_json (snd f) m))) fs) = Inr vs"
  proof (rule sequence_Inr)
    fix i assume i: "i < length (map (\<lambda>f.
      (case (if is_exported (fst f) then member (fst f) (map (\<lambda>f. (fst f, to_json (snd f))) vs) else None) of
         None \<Rightarrow> Inr (fst f, zero_value (snd f))
       | Some m \<Rightarrow> map_sum (Pair (fst f)) (from_json (snd f) m))) fs)"
    then have i': "i < length fs" by simp
    have "member (fst (fs ! i)) (map (\<lambda>f. (fst f, to_json (snd f))) vs) = Some (to_json (snd (vs ! i)))"
      using member_map [OF dist, of i to_json] i' len nth(1) [OF i'] by simp
    then show "map (\<lambda>f.
      (case (if is_exported (fst f) then member (fst f) (map (\<lambda>f. (fst f, to_json (snd f))) vs) else None) of
         None \<Rightarrow> Inr (fst f, zero_value (snd f))
       | Some m \<Rightarrow> map_sum (Pair (fst f)) (from_json (snd f) m))) fs ! i = Inr (vs ! i)"
      using assms(1) [OF nth_mem [OF i'] nth(2) [OF i']] bspec [OF assms(2) nth_mem [OF i']] i' nth(1) [OF i']
      by simp
  qed (simp add: len)
  then show ?thesis by (simp add: members_of_def exported)
qed

lemma json_round_trip: "plain t \<Longrightarrow> value_ok t v \<Longrightarrow> from_json t (to_json v) = Inr v"
proof (induction t arbitrary: v)
  case (TBasic n)
  then show ?case by (intro basic_round_trip)
next
  case (TNamed p n u)
  show ?case
  proof (cases u)
    case (TStruct fs)
    with TNamed.prems(2) obtain vs where v: "v = VStruct n vs" "value_ok u (VStruct [] vs)"
      by (auto split: goval.splits)
    have "from_json u (to_json (VStruct [] vs)) = Inr (VStruct [] vs)"
      using TNamed.IH [OF _ v(2)] TNamed.prems(1) by simp
    then show ?thesis using v(1) TStruct by simp
  qed (use TNamed in simp_all)
next
  case (TPtr t)
  then show ?case
    by (cases v) (auto dest: to_json_not_null)
next
  case (TSlice t)
  show ?case
  proof (cases v)
    case (VSlice vs)
    have "sequence (map (from_json t) (map to_json vs)) = Inr vs"
      by (rule sequence_Inr) (use TSlice VSlice in auto)
    then show ?thesis using VSlice by simp
  qed (use TSlice in auto)
next
  case (TStruct fs)
  from TStruct.prems(2) obtain vs where v: "v = VStruct [] vs"
    "list_all2 (\<lambda>f w. fst f = fst w \<and> value_ok (snd f) (snd w)) fs vs"
    by (auto split: goval.splits)
  show ?case
    unfolding v(1)
    by (rule struct_round_trip [OF _ _ _ v(2)])
       (use TStruct in \<open>fastforce simp: snds.simps\<close>)+
qed simp_all

end
