(* ===== verification/JsonCodec.thy ===== *)
theory JsonCodec
  imports Json ServerProps
begin

text \<open>
  jsonrpc/server.go, jsonrpc/client.go and jsonrpc/birpc_codec.go: the JSON-RPC codecs. A request id is
  any JSON value; the codec numbers the requests itself and keeps the ids in a table. \<open>js_out\<close>,
  \<open>jc_out\<close> and \<open>jb_out\<close> collect the values encoded to the connection; the argument \<open>w\<close> of a writer is
  the connection's error. Each table update is one critical section. \<open>Close\<close> closes the connection
  every time it is called.
\<close>

section \<open>The table of request ids\<close>

text \<open>\<open>seq\<close> and \<open>pending\<close>; a nil id is \<open>Some None\<close>.\<close>

record id_table =
  it_seq :: u64
  it_pending :: "u64 \<rightharpoonup> json option"

definition new_ids :: id_table where
  "new_ids = \<lparr>it_seq = 0, it_pending = Map.empty\<rparr>"

definition ids_new :: "json option \<Rightarrow> id_table \<Rightarrow> u64 \<times> id_table" where
  "ids_new raw t =
     (let n = it_seq t + 1
      in (n, \<lparr>it_seq = n, it_pending = (it_pending t)(n \<mapsto> raw)\<rparr>))"

definition ids_take :: "u64 \<Rightarrow> id_table \<Rightarrow> (json option \<times> id_table) option" where
  "ids_take n t =
     (case it_pending t n of
        None \<Rightarrow> None
      | Some raw \<Rightarrow> Some (raw, t\<lparr>it_pending := (it_pending t)(n := None)\<rparr>))"


section \<open>What the codecs share\<close>

definition missing_params :: go_error where
  "missing_params = ErrorString ''jsonrpc: request body missing params''"

definition bad_number :: go_error where
  "bad_number = ErrorString ''invalid sequence number in response''"

text \<open>\<open>json.Unmarshal(params, &[1]any{x})\<close> for a pointer \<open>x\<close> to a new value of type \<open>t\<close>.\<close>

definition decode_params :: "gotype \<Rightarrow> json \<Rightarrow> go_error + goval" where
  "decode_params t p =
     (case p of
        JArr [] \<Rightarrow> Inr (zero_value t)
      | JArr (j # js) \<Rightarrow> if j = JNull then Inr (zero_value t) else from_json t j
      | _ \<Rightarrow> Inl (UnmarshalError ''[1]interface {}''))"

text \<open>\<open>ReadRequestBody\<close>; no target is \<open>ReadRequestBody(nil)\<close>.\<close>

definition read_params :: "gotype option \<Rightarrow> json option \<Rightarrow> go_error + goval" where
  "read_params ty params =
     (case ty of
        None \<Rightarrow> Inr VNil
      | Some t \<Rightarrow> (case params of None \<Rightarrow> Inl missing_params | Some p \<Rightarrow> decode_params t p))"

text \<open>The message of a response: \<open>serverResponse\<close>.\<close>

definition response_message :: "json option \<Rightarrow> response \<Rightarrow> goval \<Rightarrow> json" where
  "response_message raw r x =
     JObj [(''id'', case raw of None \<Rightarrow> JNull | Some j \<Rightarrow> j),
           (''result'', if resp_error r = [] then to_json x else JNull),
           (''error'', if resp_error r = [] then JNull else JStr (resp_error r))]"

text \<open>The message of a request: \<open>clientRequest\<close>.\<close>

definition request_message :: "request \<Rightarrow> goval \<Rightarrow> json" where
  "request_message r x =
     JObj [(''method'', JStr (req_method r)), (''params'', JArr [to_json x]),
           (''id'', JNum (uint (req_seq r)))]"

text \<open>
  The error of a response: an \<open>error\<close> that is present, or a \<open>result\<close> that is absent, must be a string;
  \<open>fmt\<close> is how \<open>%v\<close> prints what else it is.
\<close>

definition response_error :: "(json option \<Rightarrow> string) \<Rightarrow> json option \<Rightarrow> json option \<Rightarrow> go_error + string" where
  "response_error fmt err result =
     (if err \<noteq> None \<or> result = None
      then (case err of
              Some (JStr x) \<Rightarrow> Inr (if x = [] then ''unspecified error'' else x)
            | _ \<Rightarrow> Inl (ErrorString (''invalid error '' @ fmt err)))
      else Inr [])"


section \<open>The server's codec\<close>

record json_server =
  js_dec :: json_in
  js_params :: "json option"
  js_ids :: id_table
  js_out :: "json list"
  js_closes :: nat

definition new_json_server :: "json_in \<Rightarrow> json_server" where
  "new_json_server d = \<lparr>js_dec = d, js_params = None, js_ids = new_ids, js_out = [], js_closes = 0\<rparr>"

definition jserver_read_header :: "json_server \<Rightarrow> (go_error + request) \<times> json_server" where
  "jserver_read_header c0 =
     (case dec_next (js_dec c0) of
        (x, d) \<Rightarrow>
          (let c = c0\<lparr>js_dec := d, js_params := None\<rparr>
           in case x of
                Inl e \<Rightarrow> (Inl e, c)
              | Inr j \<Rightarrow>
                  (case members_of j of
                     Inl e \<Rightarrow> (Inl e, c)
                   | Inr ms \<Rightarrow>
                       (case field_string ''method'' [] ms of
                          Inl e \<Rightarrow> (Inl e, c)
                        | Inr m \<Rightarrow>
                            (case ids_new (field_raw ''id'' ms) (js_ids c) of
                               (n, t) \<Rightarrow>
                                 (Inr \<lparr>req_method = m, req_seq = n\<rparr>,
                                  c\<lparr>js_params := field_raw ''params'' ms, js_ids := t\<rparr>))))))"

definition jserver_read_body :: "gotype option \<Rightarrow> json_server \<Rightarrow> (go_error + goval) \<times> json_server" where
  "jserver_read_body ty c = (read_params ty (js_params c), c)"

definition jserver_write_response ::
  "go_error option \<Rightarrow> response \<Rightarrow> goval \<Rightarrow> json_server \<Rightarrow> go_error option \<times> json_server" where
  "jserver_write_response w r x c =
     (case ids_take (resp_seq r) (js_ids c) of
        None \<Rightarrow> (Some bad_number, c)
      | Some (raw, t) \<Rightarrow>
          (w, c\<lparr>js_ids := t,
                js_out := (if w = None then js_out c @ [response_message raw r x] else js_out c)\<rparr>))"

definition jserver_close :: "go_error option \<Rightarrow> json_server \<Rightarrow> go_error option \<times> json_server" where
  "jserver_close r c = (r, c\<lparr>js_closes := Suc (js_closes c)\<rparr>)"


section \<open>The client's codec\<close>

record json_client =
  jc_dec :: json_in
  jc_result :: "json option"
  jc_pending :: "u64 \<rightharpoonup> string"
  jc_out :: "json list"
  jc_closes :: nat

definition new_json_client :: "json_in \<Rightarrow> json_client" where
  "new_json_client d = \<lparr>jc_dec = d, jc_result = None, jc_pending = Map.empty, jc_out = [], jc_closes = 0\<rparr>"

definition jclient_write_request ::
  "go_error option \<Rightarrow> request \<Rightarrow> goval \<Rightarrow> json_client \<Rightarrow> go_error option \<times> json_client" where
  "jclient_write_request w r param c =
     (w, c\<lparr>jc_pending := (jc_pending c)(req_seq r \<mapsto> req_method r),
           jc_out := (if w = None then jc_out c @ [request_message r param] else jc_out c)\<rparr>)"

definition jclient_read_header ::
  "(json option \<Rightarrow> string) \<Rightarrow> json_client \<Rightarrow> (go_error + response) \<times> json_client" where
  "jclient_read_header fmt c0 =
     (case dec_next (jc_dec c0) of
        (x, d) \<Rightarrow>
          (let c = c0\<lparr>jc_dec := d, jc_result := None\<rparr>
           in case x of
                Inl e \<Rightarrow> (Inl e, c)
              | Inr j \<Rightarrow>
                  (case members_of j of
                     Inl e \<Rightarrow> (Inl e, c)
                   | Inr ms \<Rightarrow>
                       (case field_u64 ''id'' 0 ms of
                          Inl e \<Rightarrow> (Inl e, c)
                        | Inr n \<Rightarrow>
                            (let res = field_raw ''result'' ms;
                                 c1 = c\<lparr>jc_result := res, jc_pending := (jc_pending c)(n := None)\<rparr>
                             in (map_sum (\<lambda>s. \<lparr>resp_seq = n, resp_error = s\<rparr>)
                                   (response_error fmt (field_raw ''error'' ms) res), c1))))))"

text \<open>\<open>ReadResponseBody\<close>: without a result the dereference of a nil pointer panics.\<close>

definition read_result :: "gotype option \<Rightarrow> json option \<Rightarrow> goval outcome" where
  "read_result ty result =
     (case ty of
        None \<Rightarrow> Ok VNil
      | Some t \<Rightarrow>
          (case result of
             None \<Rightarrow> Panic
           | Some j \<Rightarrow> (case from_json t j of Inl e \<Rightarrow> Fail e | Inr v \<Rightarrow> Ok v)))"

definition jclient_read_body :: "gotype option \<Rightarrow> json_client \<Rightarrow> goval outcome" where
  "jclient_read_body ty c = read_result ty (jc_result c)"

definition jclient_close :: "go_error option \<Rightarrow> json_client \<Rightarrow> go_error option \<times> json_client" where
  "jclient_close r c = (r, c\<lparr>jc_closes := Suc (jc_closes c)\<rparr>)"


section \<open>The bidirectional codec\<close>

record json_birpc =
  jb_dec :: json_in
  jb_params :: "json option"
  jb_result :: "json option"
  jb_ids :: id_table
  jb_out :: "json list"
  jb_closes :: nat

definition new_json_birpc :: "json_in \<Rightarrow> json_birpc" where
  "new_json_birpc d = \<lparr>jb_dec = d, jb_params = None, jb_result = None, jb_ids = new_ids, jb_out = [], jb_closes = 0\<rparr>"

text \<open>
  \<open>ReadHeader\<close> into a cleared request and response: a message with a method is a request, numbered
  when it has an id and left with number 0 when it is a notification; any other message is a response,
  whose id is dereferenced.
\<close>

definition jbirpc_read_header ::
  "(json option \<Rightarrow> string) \<Rightarrow> json_birpc \<Rightarrow> (request \<times> response) outcome \<times> json_birpc" where
  "jbirpc_read_header fmt c0 =
     (case dec_next (jb_dec c0) of
        (x, d) \<Rightarrow>
          (let c = c0\<lparr>jb_dec := d\<rparr>
           in case x of
                Inl e \<Rightarrow> (Fail e, c)
              | Inr j \<Rightarrow>
                  (case members_of j of
                     Inl e \<Rightarrow> (Fail e, c)
                   | Inr ms \<Rightarrow>
                       (case field_string ''method'' [] ms of
                          Inl e \<Rightarrow> (Fail e, c)
                        | Inr m \<Rightarrow>
                            if m \<noteq> []
                            then
                              (let c1 = c\<lparr>jb_params := field_raw ''params'' ms\<rparr>
                               in case field_raw ''id'' ms of
                                    None \<Rightarrow> (Ok (\<lparr>req_method = m, req_seq = 0\<rparr>, zero_response), c1)
                                  | Some raw \<Rightarrow>
                                      (case ids_new (Some raw) (jb_ids c1) of
                                         (n, t) \<Rightarrow> (Ok (\<lparr>req_method = m, req_seq = n\<rparr>, zero_response),
                                                    c1\<lparr>jb_ids := t\<rparr>)))
                            else
                              (case field_raw ''id'' ms of
                                 None \<Rightarrow> (Panic, c)
                               | Some raw \<Rightarrow>
                                   (case to_u64 raw of
                                      None \<Rightarrow> (Fail (UnmarshalError ''uint64''), c)
                                    | Some n \<Rightarrow>
                                        (let res = field_raw ''result'' ms
                                         in (case response_error fmt (field_raw ''error'' ms) res of
                                               Inl e \<Rightarrow> Fail e
                                             | Inr s \<Rightarrow> Ok (zero_request, \<lparr>resp_seq = n, resp_error = s\<rparr>),
                                             c\<lparr>jb_result := res\<rparr>))))))))"

definition jbirpc_read_request_body :: "gotype option \<Rightarrow> json_birpc \<Rightarrow> go_error + goval" where
  "jbirpc_read_request_body ty c = read_params ty (jb_params c)"

definition jbirpc_read_response_body :: "gotype option \<Rightarrow> json_birpc \<Rightarrow> goval outcome" where
  "jbirpc_read_response_body ty c = read_result ty (jb_result c)"

definition jbirpc_write_request ::
  "go_error option \<Rightarrow> request \<Rightarrow> goval \<Rightarrow> json_birpc \<Rightarrow> go_error option \<times> json_birpc" where
  "jbirpc_write_request w r param c =
     (w, c\<lparr>jb_out := (if w = None then jb_out c @ [request_message r param] else jb_out c)\<rparr>)"

definition jbirpc_write_response ::
  "go_error option \<Rightarrow> response \<Rightarrow> goval \<Rightarrow> json_birpc \<Rightarrow> go_error option \<times> json_birpc" where
  "jbirpc_write_response w r x c =
     (case ids_take (resp_seq r) (jb_ids c) of
        None \<Rightarrow> (Some bad_number, c)
      | Some (raw, t) \<Rightarrow>
          (w, c\<lparr>jb_ids := t,
                jb_out := (if w = None then jb_out c @ [response_message raw r x] else jb_out c)\<rparr>))"

definition jbirpc_close :: "go_error option \<Rightarrow> json_birpc \<Rightarrow> go_error option \<times> json_birpc" where
  "jbirpc_close r c = (r, c\<lparr>jb_closes := Suc (jb_closes c)\<rparr>)"

end
