(* ===== verification/BirpcProps.thy ===== *)
theory BirpcProps
  imports BirpcInv
begin

text \<open>
  What a bidirectional connection guarantees: its two halves behave like a client and like a server, one
  message is written at a time, and its end is reported once, after everything is over.
\<close>

section \<open>Concrete runs\<close>

datatype bact =
    BAGet
  | BAHeader "go_error + (request \<times> response)"
  | BARequest "go_error + goval"
  | BAReplied
  | BAFree
  | BALookup
  | BAReply "go_error + goval"
  | BATerminate "u64 list"
  | BAWait
  | BAShut
  | BACancel
  | BAClose
  | BACall string goval "goval option"
  | BAEnter nat
  | BAWrite "go_error option" nat
  | BAJob cact

fun bact_step :: "bact \<Rightarrow> birpc \<Rightarrow> birpc option" where
  "bact_step BAGet s = birpc_get s"
| "bact_step (BAHeader h) s = birpc_header h s"
| "bact_step (BARequest b) s = birpc_request b s"
| "bact_step BAReplied s = birpc_replied s"
| "bact_step BAFree s = birpc_free s"
| "bact_step BALookup s = birpc_lookup s"
| "bact_step (BAReply b) s = birpc_reply b s"
| "bact_step (BATerminate ks) s = birpc_terminate ks s"
| "bact_step BAWait s = birpc_wait s"
| "bact_step BAShut s = birpc_shut s"
| "bact_step BACancel s = birpc_cancel s"
| "bact_step BAClose s = Some (snd (birpc_user_close None s))"
| "bact_step (BACall m a r) s = map_option (\<lambda>x. s\<lparr>bp_client := snd x\<rparr>) (client_call m a r (bp_client s))"
| "bact_step (BAEnter c) s =
     (if cn_sending (bp_conn s) = None then map_option (\<lambda>t. s\<lparr>bp_client := t\<rparr>) (send_enter c (bp_client s)) else None)"
| "bact_step (BAWrite w c) s = map_option (\<lambda>t. s\<lparr>bp_client := t\<rparr>) (send_write w c (bp_client s))"
| "bact_step (BAJob a) s =
     (if job_act a \<and> cl_reqmu (bp_client s) = None
      then map_option (\<lambda>c. s\<lparr>bp_conn := c\<rparr>) (cact_step a (bp_conn s)) else None)"

fun bact_run :: "bact list \<Rightarrow> birpc \<Rightarrow> birpc option" where
  "bact_run [] s = Some s"
| "bact_run (a # as) s = (case bact_step a s of None \<Rightarrow> None | Some t \<Rightarrow> bact_run as t)"

lemma bact_step_sound: "bact_step a s = Some t \<Longrightarrow> birpc_step s t"
  by (cases a)
     (auto intro: birpc_step.intros caller_step.intros dest: cact_step_job split: if_splits
       intro!: bs_close [of None, OF surjective_pairing])

lemma bact_run_reach: "birpc_reach s \<Longrightarrow> bact_run as s = Some t \<Longrightarrow> birpc_reach t"
  by (induction as arbitrary: s)
     (auto split: option.splits dest: bact_step_sound intro: br_step)

lemma arith_birpc_reach: "birpc_reach (birpc_start 0 arith_server {} {} fresh_store)"
  by (rule br_start [OF ready_arith]) (simp add: fresh_store_def root_ctxs_def ctx_err_def background_def)

lemmas birpc_eval [run_eval] =
  birpc_get_def birpc_header_def birpc_request_def birpc_replied_def birpc_free_def birpc_lookup_def
  birpc_reply_def birpc_terminate_def birpc_wait_def birpc_shut_def birpc_cancel_def birpc_user_close_def
  birpc_read_body_def birpc_start_def conn_free_def unknown_method_def

text \<open>
  A call of its own and one of the peer's cross on the wire; the peer hangs up while its call is running.
\<close>

definition crossed_run :: "bact list" where
  "crossed_run =
     [BACall ''Peer.Ping'' (VInt 1) (Some (VInt 0)), BAEnter 0, BAWrite None 0,
      BAGet, BAHeader (Inr (\<lparr>req_method = ''Arith.Add'', req_seq = 1\<rparr>, zero_response)), BARequest (Inr (VInt 7)),
      BAJob (CStart 0), BAGet, BAHeader (Inr (zero_request, \<lparr>resp_seq = 1, resp_error = []\<rparr>)), BAFree, BALookup,
      BAReply (Inr (VInt 2)), BAGet, BAHeader (Inl EOF), BATerminate []]"

definition ended_run :: "bact list" where
  "ended_run = crossed_run @
     map BAJob [CReturn (VPtr (VInt 15)) None 0, CPrepare 0, CLock 0, CWrite 0, CFreeResponse 0, CFreeRequest 0,
       CFinish 0] @ [BAWait, BAShut, BACancel, BAClose]"

lemma ended_run_ends:
  "\<exists>s. bact_run ended_run (birpc_start 0 arith_server {} {} fresh_store) = Some s \<and>
     bp_loop s = BEnded \<and> bp_notified s = 1 \<and> bp_closes s = 2 \<and> cl_ncalls (bp_client s) = 1 \<and>
     cl_sender (bp_client s) 0 = Some SDone \<and> map req_seq (bp_requests s) = [1] \<and>
     c_reply (cl_calls (bp_client s) 0) = Some (VInt 2)"
  by (simp add: ended_run_def crossed_run_def run_eval cancel_func_def)

lemma ended_run_reach:
  obtains s where "birpc_reach s" "bp_loop s = BEnded" "bp_notified s = 1" "bp_closes s = 2"
    "cl_ncalls (bp_client s) = 1" "cl_sender (bp_client s) 0 = Some SDone" "map req_seq (bp_requests s) = [1]"
  using ended_run_ends by (elim exE conjE) (rule that [OF bact_run_reach [OF arith_birpc_reach]])

lemma crossed_run_reach:
  obtains s where "birpc_reach s" "bp_loop s = BWait False" "cl_ncalls (bp_client s) = 1"
proof -
  have "\<exists>s. bact_run crossed_run (birpc_start 0 arith_server {} {} fresh_store) = Some s \<and>
      bp_loop s = BWait False \<and> cl_ncalls (bp_client s) = 1"
    by (simp add: crossed_run_def run_eval cancel_func_def)
  then show ?thesis by (elim exE conjE) (rule that [OF bact_run_reach [OF arith_birpc_reach]])
qed


section \<open>The two halves\<close>

text \<open>
  C27: a bidirectional connection refines a client and a server at once: each of its steps is a step of the
  client's model or leaves it alone, and a step of the handlers' model or leaves it alone, from their
  initial states on, although one loop reads for both and both write under the same mutex. So what holds
  of every reachable client and of every reachable set of handlers holds of its halves.
\<close>

theorem birpc_refines_client_and_server:
  assumes "birpc_reach s" and "birpc_step s t"
  shows "(bp_client t = bp_client s \<or> client_step (bp_client s) (bp_client t)) \<and>
    (bp_conn t = bp_conn s \<or> conn_step (bp_conn s) (bp_conn t)) \<and>
    client_reach (bp_client t) \<and> conn_reach (bp_conn t)"
  using birpc_step_client [OF assms(2)] birpc_step_conn [OF assms(2)]
    birpc_invD(1,2) [OF br_step [OF assms]] by blast

theorem birpc_refines_client_and_server_witness:
  "\<exists>s t. bp_loop s = BWait False \<and> birpc_step s t \<and> client_reach (bp_client t) \<and> conn_reach (bp_conn t)"
proof -
  obtain s where s: "birpc_reach s" "bp_loop s = BWait False" by (rule crossed_run_reach)
  have "birpc_step s (snd (birpc_user_close None s))" by (rule bs_close [of None, OF surjective_pairing])
  from birpc_refines_client_and_server [OF s(1) this] this s(2) show ?thesis by blast
qed


section \<open>Writing\<close>

text \<open>
  The halves never write at the same time: while \<open>send\<close> is in \<open>WriteRequest\<close>, no handler is in
  \<open>WriteResponse\<close>, so a request and a response do not mix on the connection.
\<close>

theorem requests_and_responses_do_not_mix:
  assumes "birpc_reach s" and "cl_ncalls (bp_client s) < 2 ^ 64"
    and "cl_sender (bp_client s) c = Some (SWriting n)" and "j < cn_njobs (bp_conn s)"
  shows "\<not> is_writing (j_pc (cn_jobs (bp_conn s) j))"
proof
  note I = birpc_invD [OF assms(1)]
  assume "is_writing (j_pc (cn_jobs (bp_conn s) j))"
  then have "cn_sending (bp_conn s) = Some j"
    using inv_wire_sending [OF conn_invD(4) [OF conn_reach_inv [OF I(2)]], of j] assms(4) by blast
  moreover have "cl_reqmu (bp_client s) = Some c"
    using reach_lock [OF I(1) assms(2)] assms(3) by (auto simp: inv_lock_def)
  ultimately show False using inv_ends_mutex [OF I(4)] by simp
qed

theorem requests_and_responses_do_not_mix_witness:
  "\<exists>s. birpc_reach s \<and> cl_sender (bp_client s) 0 = Some (SWriting 1) \<and>
     resp_of (j_pc (cn_jobs (bp_conn s) 0)) \<noteq> None \<and> \<not> is_writing (j_pc (cn_jobs (bp_conn s) 0))"
proof -
  have "\<exists>s. bact_run [BAGet, BAHeader (Inr (\<lparr>req_method = ''Arith.Add'', req_seq = 1\<rparr>, zero_response)),
      BARequest (Inr (VInt 7)), BAJob (CStart 0), BAJob (CReturn (VPtr (VInt 15)) None 0), BAJob (CPrepare 0),
      BACall ''Peer.Ping'' (VInt 1) (Some (VInt 0)), BAEnter 0]
      (birpc_start 0 arith_server {} {} fresh_store) = Some s \<and> cl_ncalls (bp_client s) = 1 \<and>
      cl_sender (bp_client s) 0 = Some (SWriting 1) \<and> cn_njobs (bp_conn s) = 1 \<and>
      resp_of (j_pc (cn_jobs (bp_conn s) 0)) \<noteq> None"
    by (simp add: run_eval cancel_func_def)
  then obtain s where s: "bact_run [BAGet, BAHeader (Inr (\<lparr>req_method = ''Arith.Add'', req_seq = 1\<rparr>, zero_response)),
      BARequest (Inr (VInt 7)), BAJob (CStart 0), BAJob (CReturn (VPtr (VInt 15)) None 0), BAJob (CPrepare 0),
      BACall ''Peer.Ping'' (VInt 1) (Some (VInt 0)), BAEnter 0]
      (birpc_start 0 arith_server {} {} fresh_store) = Some s" "cl_ncalls (bp_client s) = 1"
      "cl_sender (bp_client s) 0 = Some (SWriting 1)" "cn_njobs (bp_conn s) = 1"
      "resp_of (j_pc (cn_jobs (bp_conn s) 0)) \<noteq> None" by (elim exE conjE)
  have r: "birpc_reach s" by (rule bact_run_reach [OF arith_birpc_reach s(1)])
  show ?thesis using requests_and_responses_do_not_mix [OF r _ s(3), of 0] r s(2-5) by (intro exI [of _ s]) simp
qed


section \<open>The end\<close>

lemma late_answered:
  assumes "birpc_reach s" "bp_late (bp_loop s)"
  shows "mset (map (\<lambda>x. resp_seq (fst (snd x))) (cn_wire (bp_conn s))) = mset (map req_seq (bp_requests s))"
proof -
  note I = birpc_invD [OF assms(1)]
  obtain hs where hs: "jobs_inv (bp_conn s) hs (bp_handling (bp_loop s))" "bp_requests s = hs"
    using inv_jobs_at [OF I(3) refl] assms(2) by (cases "bp_loop s") auto
  then have "bp_requests s = map (\<lambda>j. j_head (cn_jobs (bp_conn s) j)) [0..<cn_njobs (bp_conn s)]"
    using jobs_invD(1) by simp
  then show ?thesis
    using answered_all [OF conn_invD(4) [OF conn_reach_inv [OF I(2)]] inv_late [OF I(3) assms(2)]]
    by (simp add: comp_def)
qed

text \<open>
  C28: \<open>DisconnectNotify\<close> reports the end once, and last: the channel is closed at most once (a second
  \<open>close\<close> would panic), and when it is, every request read has been answered exactly once, every handler
  has ended, later calls are refused, and every call that was sent has completed unless its \<open>Call\<close> left
  through the context.
\<close>

theorem disconnect_is_notified_once_and_last:
  assumes "birpc_reach s" and "cl_ncalls (bp_client s) < 2 ^ 64"
  shows "bp_notified s \<le> 1 \<and>
    (disconnect_notify s \<longrightarrow>
       (\<forall>j < cn_njobs (bp_conn s). j_pc (cn_jobs (bp_conn s) j) = JDone) \<and>
       mset (map (\<lambda>x. resp_seq (fst (snd x))) (cn_wire (bp_conn s))) = mset (map req_seq (bp_requests s)) \<and>
       cl_shutdown (bp_client s) \<and>
       (\<forall>c. cl_sender (bp_client s) c = Some SDone \<longrightarrow>
          c \<in> set (cl_signalled (bp_client s)) \<or> by_ctx (cl_caller (bp_client s) c)))"
proof (intro conjI impI)
  note I = birpc_invD [OF assms(1)]
  show "bp_notified s \<le> 1" using inv_notified [OF I(3)] by simp
  assume "disconnect_notify s"
  then have late: "bp_late (bp_loop s)" using inv_notified [OF I(3)] by (simp add: disconnect_notify_def split: if_splits)
  have r: "bp_reader (bp_loop s) (cl_reader (bp_client s))" by (rule inv_ends_reader [OF I(4)])
  have e: "cl_reader (bp_client s) = REnded" using late r by (cases "bp_loop s") auto
  have fin: "j_pc (cn_jobs (bp_conn s) j) = JDone" if "j < cn_njobs (bp_conn s)" for j
    by (rule inv_late [OF I(3) late that])
  then show "\<forall>j < cn_njobs (bp_conn s). j_pc (cn_jobs (bp_conn s) j) = JDone" by blast
  show "mset (map (\<lambda>x. resp_seq (fst (snd x))) (cn_wire (bp_conn s))) = mset (map req_seq (bp_requests s))"
    by (rule late_answered [OF assms(1) late])
  have once: "cl_shutdown (bp_client s)"
    using inv_once_ended [OF reach_once [OF I(1) assms(2)]] e by simp
  then show "cl_shutdown (bp_client s)" .
  show "\<forall>c. cl_sender (bp_client s) c = Some SDone \<longrightarrow>
      c \<in> set (cl_signalled (bp_client s)) \<or> by_ctx (cl_caller (bp_client s) c)"
  proof (intro allI impI)
    fix c assume c: "cl_sender (bp_client s) c = Some SDone"
    have "c < cl_ncalls (bp_client s)" by (rule inv_alloc_fresh(3) [OF reach_alloc [OF I(1) assms(2)] c])
    with reach_track [OF I(1) assms(2)] e c have "settled (bp_client s) c \<or> c \<in> ran (cl_pending (bp_client s))"
      by (auto simp: inv_track_def)
    then show "c \<in> set (cl_signalled (bp_client s)) \<or> by_ctx (cl_caller (bp_client s) c)"
      using inv_once_pending [OF reach_once [OF I(1) assms(2)]] once by (auto simp: settled_def ran_def)
  qed
qed

theorem disconnect_is_notified_once_and_last_witness:
  "\<exists>s. birpc_reach s \<and> disconnect_notify s \<and> 0 \<in> set (cl_signalled (bp_client s)) \<union> {c. by_ctx (cl_caller (bp_client s) c)} \<and>
     mset (map (\<lambda>x. resp_seq (fst (snd x))) (cn_wire (bp_conn s))) = {#1#}"
proof -
  obtain s where s: "birpc_reach s" "bp_notified s = 1" "cl_ncalls (bp_client s) = 1"
    "cl_sender (bp_client s) 0 = Some SDone" "map req_seq (bp_requests s) = [1]" by (rule ended_run_reach)
  show ?thesis
    using disconnect_is_notified_once_and_last [OF s(1)] s by (intro exI [of _ s]) (auto simp: disconnect_notify_def)
qed

text \<open>
  When \<open>input\<close> has returned, the codec has been closed: once, unless \<open>Close\<close> was called after the loop
  had decided to close it, and then twice.
\<close>

theorem ended_connection_has_closed_its_codec:
  assumes "birpc_reach s" and "bp_loop s = BEnded"
  shows "1 \<le> bp_closes s \<and> bp_closes s \<le> 2 \<and> (\<not> cl_closing (bp_client s) \<longrightarrow> bp_closes s = 1)"
  using inv_ends_closed [OF birpc_invD(4) [OF assms(1)]] inv_ends_bound [OF birpc_invD(4) [OF assms(1)]] assms(2)
  by (auto split: if_splits)

theorem ended_connection_has_closed_its_codec_witness:
  "\<exists>s. birpc_reach s \<and> bp_loop s = BEnded \<and> 1 \<le> bp_closes s \<and> bp_closes s \<le> 2 \<and> bp_closes s = 2"
proof -
  obtain s where s: "birpc_reach s" "bp_loop s = BEnded" "bp_closes s = 2" by (rule ended_run_reach)
  show ?thesis using ended_connection_has_closed_its_codec [OF s(1,2)] s by blast
qed


section \<open>Shutdown\<close>

text \<open>The moves that bring a connection whose loop has ended closer to its end, or release a mutex.\<close>

definition winding_down :: "birpc \<Rightarrow> bool" where
  "winding_down s \<longleftrightarrow>
     (\<exists>ks. birpc_terminate ks s \<noteq> None) \<or> birpc_wait s \<noteq> None \<or> birpc_shut s \<noteq> None \<or> birpc_cancel s \<noteq> None \<or>
     (\<exists>c. send_write None c (bp_client s) \<noteq> None) \<or> (\<exists>c. send_unregister c (bp_client s) \<noteq> None) \<or>
     (\<exists>t. job_step (bp_conn s) t \<and>
        (cn_sending (bp_conn s) = None \<and> cn_sending t \<noteq> None \<longrightarrow> cl_reqmu (bp_client s) = None))"

fun loop_over :: "birpc_pc \<Rightarrow> bool" where
  "loop_over BTerm = True"
| "loop_over (BWait cl) = True"
| "loop_over (BClose cl) = True"
| "loop_over BCancel = True"
| "loop_over _ = False"

text \<open>
  C29: shutdown does not deadlock: from the end of the loop to the return of \<open>input\<close>, with the mutex shared
  by both halves, something can always move: the loop itself, the \<open>send\<close> that holds the mutex, or a handler.
\<close>

theorem birpc_shutdown_does_not_deadlock:
  assumes "birpc_reach s" and "cl_ncalls (bp_client s) < 2 ^ 64" and "loop_over (bp_loop s)"
  shows "winding_down s"
proof -
  note I = birpc_invD [OF assms(1)]
  note C = conn_reach_inv [OF I(2)]
  have held: "winding_down s" if "cl_reqmu (bp_client s) = Some c" for c
    using write_holder_can_move [OF reach_lock [OF I(1) assms(2)] that] unfolding winding_down_def by blast
  have job: "winding_down s" if j: "j < cn_njobs (bp_conn s)" "j_pc (cn_jobs (bp_conn s) j) \<noteq> JDone" for j
    using job_can_step [OF C j] held by (cases "cl_reqmu (bp_client s)") (auto simp: winding_down_def)
  show ?thesis
  proof (cases "bp_loop s")
    case BTerm
    then obtain e where e: "cl_reader (bp_client s) = RTerm e" using inv_ends_reader [OF I(4)] by auto
    show ?thesis
    proof (cases "cl_reqmu (bp_client s)")
      case None
      obtain ks t where ks: "input_terminate ks (bp_client s) = Some t" by (rule reader_can_end [OF e None])
      show ?thesis
      proof (cases "cn_sending (bp_conn s)")
        case None
        with BTerm ks have "birpc_terminate ks s \<noteq> None" by (simp add: birpc_terminate_def)
        then show ?thesis unfolding winding_down_def by blast
      next
        case (Some j)
        then have "j < cn_njobs (bp_conn s)" "is_writing (j_pc (cn_jobs (bp_conn s) j))"
          using inv_wire_sending [OF conn_invD(4) [OF C], of j] by simp_all
        then show ?thesis using job [of j] by (cases "j_pc (cn_jobs (bp_conn s) j)") simp_all
      qed
    qed (rule held)
  next
    case (BWait cl)
    show ?thesis
    proof (cases "all_calls_done (bp_conn s)")
      case True
      then show ?thesis using BWait by (simp add: winding_down_def birpc_wait_def)
    next
      case False
      then show ?thesis using job by (auto simp: all_calls_done_def job_done_def)
    qed
  qed (use assms(3) in \<open>simp_all add: winding_down_def birpc_shut_def birpc_cancel_def Let_def\<close>)
qed

theorem birpc_shutdown_does_not_deadlock_witness:
  "\<exists>s. birpc_reach s \<and> bp_loop s = BWait False \<and> winding_down s"
proof -
  obtain s where s: "birpc_reach s" "bp_loop s = BWait False" "cl_ncalls (bp_client s) = 1" by (rule crossed_run_reach)
  show ?thesis using birpc_shutdown_does_not_deadlock [OF s(1)] s by (intro exI [of _ s]) simp
qed

end
