(* ===== verification/BirpcServer.thy ===== *)
theory BirpcServer
  imports BirpcProps
begin

text \<open>
  birpc_server.go: \<open>BirpcServer\<close> serves a connection with a bidirectional client that uses the server's
  registry and free lists, and publishes its beginning and its end. The event hub, a library of its own,
  is the functions subscribed to each event; publishing starts each of them, which \<open>bv_started\<close> logs.
\<close>

section \<open>The server and its events\<close>

datatype conn_event = Connected | Disconnected

type_synonym hub = "conn_event \<Rightarrow> nat list"

record birpc_server =
  bv_basic :: basic_server
  bv_hub :: hub

definition new_birpc_server :: birpc_server where
  "new_birpc_server = \<lparr>bv_basic = new_basic_server, bv_hub = (\<lambda>_. [])\<rparr>"

definition on_connect :: "nat \<Rightarrow> birpc_server \<Rightarrow> birpc_server" where
  "on_connect f s = s\<lparr>bv_hub := (bv_hub s)(Connected := bv_hub s Connected @ [f])\<rparr>"

definition on_disconnect :: "nat \<Rightarrow> birpc_server \<Rightarrow> birpc_server" where
  "on_disconnect f s = s\<lparr>bv_hub := (bv_hub s)(Disconnected := bv_hub s Disconnected @ [f])\<rparr>"


section \<open>Serving a connection\<close>

text \<open>\<open>ServeCodec\<close>: before the first event; in \<open>input\<close>; before the deferred \<open>Close\<close>; returned.\<close>

datatype bserve_pc = VConnect | VInput | VClose | VOver

record bserve =
  bv_birpc :: birpc
  bv_pc :: bserve_pc
  bv_subs :: hub
  bv_started :: "(conn_event \<times> nat) list"
  bv_events :: "conn_event list"

definition publish :: "conn_event \<Rightarrow> bserve \<Rightarrow> bserve" where
  "publish e s =
     s\<lparr>bv_events := bv_events s @ [e], bv_started := bv_started s @ map (Pair e) (bv_subs s e)\<rparr>"

definition birpc_serve_codec ::
  "nat \<Rightarrow> birpc_server \<Rightarrow> nat set \<Rightarrow> nat set \<Rightarrow> svc_store \<Rightarrow> bserve" where
  "birpc_serve_codec me s oreqs oresps st =
     \<lparr>bv_birpc = birpc_start me (bv_basic s) oreqs oresps st, bv_pc = VConnect, bv_subs = bv_hub s,
      bv_started = [], bv_events = []\<rparr>"

definition bserve_connect :: "bserve \<Rightarrow> bserve option" where
  "bserve_connect s =
     (if bv_pc s = VConnect then Some ((publish Connected s)\<lparr>bv_pc := VInput\<rparr>) else None)"

definition bserve_disconnect :: "bserve \<Rightarrow> bserve option" where
  "bserve_disconnect s =
     (if bv_pc s = VInput \<and> bp_loop (bv_birpc s) = BEnded
      then Some ((publish Disconnected s)\<lparr>bv_pc := VClose\<rparr>) else None)"

definition bserve_close :: "bserve \<Rightarrow> bserve option" where
  "bserve_close s =
     (if bv_pc s = VClose
      then Some (s\<lparr>bv_pc := VOver, bv_birpc := (bv_birpc s)\<lparr>bp_closes := Suc (bp_closes (bv_birpc s))\<rparr>\<rparr>)
      else None)"

text \<open>From the first event on, \<open>input\<close>, the handlers and whoever was given the client are at work; until
  the deferred \<open>Close\<close> the others may subscribe more functions.\<close>

inductive bserve_step :: "bserve \<Rightarrow> bserve \<Rightarrow> bool" where
  vs_connect: "bserve_connect s = Some t \<Longrightarrow> bserve_step s t"
| vs_birpc: "bv_pc s = VInput \<or> bv_pc s = VClose \<Longrightarrow> birpc_step (bv_birpc s) b \<Longrightarrow>
    bserve_step s (s\<lparr>bv_birpc := b\<rparr>)"
| vs_disconnect: "bserve_disconnect s = Some t \<Longrightarrow> bserve_step s t"
| vs_close: "bserve_close s = Some t \<Longrightarrow> bserve_step s t"
| vs_subscribe: "bserve_step s (s\<lparr>bv_subs := h\<rparr>)"

inductive bserve_reach :: "bserve \<Rightarrow> bool" where
  vr_start: "ready_server (bv_basic s) oreqs oresps background st \<Longrightarrow>
    ctx_err (ss_ctxs st) (g_std background) = None \<Longrightarrow> bserve_reach (birpc_serve_codec me s oreqs oresps st)"
| vr_step: "bserve_reach s \<Longrightarrow> bserve_step s t \<Longrightarrow> bserve_reach t"

lemma bserve_connectE:
  assumes "bserve_connect s = Some t"
  obtains "bv_pc s = VConnect" "t = (publish Connected s)\<lparr>bv_pc := VInput\<rparr>"
  using assms by (auto simp: bserve_connect_def split: if_splits)

lemma bserve_disconnectE:
  assumes "bserve_disconnect s = Some t"
  obtains "bv_pc s = VInput" "bp_loop (bv_birpc s) = BEnded" "t = (publish Disconnected s)\<lparr>bv_pc := VClose\<rparr>"
  using assms by (auto simp: bserve_disconnect_def split: if_splits)

lemma bserve_closeE:
  assumes "bserve_close s = Some t"
  obtains "bv_pc s = VClose"
    "t = s\<lparr>bv_pc := VOver, bv_birpc := (bv_birpc s)\<lparr>bp_closes := Suc (bp_closes (bv_birpc s))\<rparr>\<rparr>"
  using assms by (auto simp: bserve_close_def split: if_splits)


section \<open>Invariant\<close>

lemma ended_stays: "birpc_step s t \<Longrightarrow> bp_loop s = BEnded \<Longrightarrow> bp_loop t = BEnded \<and> bp_requests t = bp_requests s"
  by (induction rule: birpc_step.induct) (auto elim!: birpc_elims)

definition inv_bserve :: "bserve \<Rightarrow> bool" where
  "inv_bserve s \<longleftrightarrow>
     (case bv_pc s of
        VConnect \<Rightarrow> bv_events s = [] \<and> bp_requests (bv_birpc s) = [] \<and> birpc_reach (bv_birpc s)
      | VInput \<Rightarrow> bv_events s = [Connected] \<and> birpc_reach (bv_birpc s)
      | VClose \<Rightarrow> bv_events s = [Connected, Disconnected] \<and> birpc_reach (bv_birpc s) \<and>
          bp_loop (bv_birpc s) = BEnded
      | VOver \<Rightarrow> bv_events s = [Connected, Disconnected] \<and> bp_loop (bv_birpc s) = BEnded \<and>
          (\<exists>b. birpc_reach b \<and> bp_loop b = BEnded \<and> bv_birpc s = b\<lparr>bp_closes := Suc (bp_closes b)\<rparr>))"

lemma inv_bserve_step: "bserve_step s t \<Longrightarrow> inv_bserve s \<Longrightarrow> inv_bserve t"
proof (induction rule: bserve_step.induct)
  case (vs_birpc s b)
  then show ?case
    using ended_stays [OF vs_birpc(2)] by (auto simp: inv_bserve_def intro: br_step split: bserve_pc.splits)
next
  case (vs_close s t)
  then show ?case by (elim bserve_closeE) (auto simp: inv_bserve_def)
qed (auto simp: inv_bserve_def publish_def elim!: bserve_connectE bserve_disconnectE split: bserve_pc.splits)

lemma bserve_reach_inv: "bserve_reach s \<Longrightarrow> inv_bserve s"
proof (induction rule: bserve_reach.induct)
  case (vr_start s q r st me)
  then show ?case
    by (auto simp: inv_bserve_def birpc_serve_codec_def birpc_start_def intro: br_start split: prod.splits)
       (metis (no_types, lifting) birpc_start_def br_start case_prod_conv)
qed (blast intro: inv_bserve_step)


section \<open>Properties\<close>

text \<open>
  C30: a connection served by \<open>BirpcServer\<close> is announced before a request is read from it, and its end is
  published when \<open>input\<close> has returned: by then \<open>DisconnectNotify\<close> has fired and every request has been
  answered. Each event is published once; and when \<open>ServeCodec\<close> has returned, the codec has been closed
  at least twice, by \<open>input\<close> or \<open>Close\<close> and by the deferred call.
\<close>

theorem served_connection_is_announced_and_closed:
  assumes "bserve_reach s"
  shows "(bp_requests (bv_birpc s) \<noteq> [] \<longrightarrow> Connected \<in> set (bv_events s)) \<and>
    distinct (bv_events s) \<and>
    (Disconnected \<in> set (bv_events s) \<longrightarrow> bp_notified (bv_birpc s) = 1 \<and>
       mset (map (\<lambda>x. resp_seq (fst (snd x))) (cn_wire (bp_conn (bv_birpc s)))) =
         mset (map req_seq (bp_requests (bv_birpc s)))) \<and>
    (bv_pc s = VOver \<longrightarrow> 2 \<le> bp_closes (bv_birpc s))"
proof -
  have ended: "bp_notified b = 1 \<and> 1 \<le> bp_closes b \<and>
      mset (map (\<lambda>x. resp_seq (fst (snd x))) (cn_wire (bp_conn b))) = mset (map req_seq (bp_requests b))"
    if "birpc_reach b" "bp_loop b = BEnded" for b
  proof -
    note I = birpc_invD [OF that(1)]
    have "bp_late (bp_loop b)" "bp_shut (bp_loop b)" using that(2) by simp_all
    then show ?thesis
      using late_answered [OF that(1)] inv_notified [OF I(3)] inv_ends_closed [OF I(4)] by presburger
  qed
  show ?thesis
    using bserve_reach_inv [OF assms] ended
    by (fastforce simp: inv_bserve_def split: bserve_pc.splits)
qed

lemma bact_run_bserve:
  "bact_run as (bv_birpc s) = Some b \<Longrightarrow> bserve_reach s \<Longrightarrow> bv_pc s = VInput \<Longrightarrow> bserve_reach (s\<lparr>bv_birpc := b\<rparr>)"
proof (induction as arbitrary: s)
  case (Cons a as)
  then obtain t where t: "bact_step a (bv_birpc s) = Some t" "bact_run as t = Some b"
    by (auto split: option.splits)
  have "bserve_reach (s\<lparr>bv_birpc := t\<rparr>)"
    using vr_step [OF Cons.prems(2) vs_birpc [OF _ bact_step_sound [OF t(1)]]] Cons.prems(3) by simp
  then show ?case using Cons.IH [of "s\<lparr>bv_birpc := t\<rparr>"] t(2) Cons.prems(3) by simp
qed auto

theorem served_connection_is_announced_and_closed_witness:
  "\<exists>s. bserve_reach s \<and> bv_pc s = VOver \<and> bp_requests (bv_birpc s) \<noteq> [] \<and> 2 \<le> bp_closes (bv_birpc s) \<and>
     bv_started s = [(Connected, 5), (Disconnected, 6)]"
proof -
  let ?v = "on_disconnect 6 (on_connect 5 (new_birpc_server\<lparr>bv_basic := arith_server\<rparr>))"
  let ?s0 = "birpc_serve_codec 0 ?v {} {} fresh_store"
  have "bserve_reach ?s0"
    by (rule vr_start; (simp add: on_connect_def on_disconnect_def ready_arith; fail)?)
       (simp add: fresh_store_def root_ctxs_def ctx_err_def background_def)
  moreover obtain s1 where s1: "bserve_connect ?s0 = Some s1" "bv_pc s1 = VInput" "bv_birpc s1 = bv_birpc ?s0"
      "bv_started s1 = [(Connected, 5)]" "bv_subs s1 = bv_hub ?v"
    by (simp add: bserve_connect_def birpc_serve_codec_def publish_def on_connect_def on_disconnect_def new_birpc_server_def)
  ultimately have r1: "bserve_reach s1" by (blast intro: vr_step vs_connect)
  obtain b where b: "bact_run ended_run (birpc_start 0 arith_server {} {} fresh_store) = Some b" "bp_loop b = BEnded"
    "map req_seq (bp_requests b) = [1]" using ended_run_ends by (elim exE conjE)
  have r2: "bserve_reach (s1\<lparr>bv_birpc := b\<rparr>)"
    by (rule bact_run_bserve [OF _ r1 s1(2), of ended_run]) (simp add: s1(3) b(1) birpc_serve_codec_def on_connect_def on_disconnect_def)
  obtain s3 where s3: "bserve_disconnect (s1\<lparr>bv_birpc := b\<rparr>) = Some s3" "bv_pc s3 = VClose" "bv_birpc s3 = b"
      "bv_started s3 = [(Connected, 5), (Disconnected, 6)]"
    using s1 b(2) by (simp add: bserve_disconnect_def publish_def on_disconnect_def on_connect_def new_birpc_server_def)
  have r3: "bserve_reach s3" by (rule vr_step [OF r2 vs_disconnect [OF s3(1)]])
  obtain s4 where s4: "bserve_close s3 = Some s4" "bv_pc s4 = VOver" "bp_requests (bv_birpc s4) = bp_requests b"
      "bv_started s4 = bv_started s3"
    using s3(2,3) by (simp add: bserve_close_def)
  have r4: "bserve_reach s4" by (rule vr_step [OF r3 vs_close [OF s4(1)]])
  show ?thesis
    using served_connection_is_announced_and_closed [OF r4] r4 s4 s3(4) b(3) by (intro exI [of _ s4]) auto
qed

end
