(* ===== verification/Package.thy ===== *)
theory Package
  imports Dial GobCodec JsonCodec BirpcServer
begin

text \<open>
  The package-level functions and the constructors: \<open>NewServer\<close>, \<open>DefaultServer\<close> and the functions that
  pass their arguments on to it (server.go), the registration with net/http, and what \<open>NewClient\<close>, \<open>Dial\<close>
  and \<open>ServeConn\<close> of the packages birpc and jsonrpc put together: a codec and a client or a server.

  A \<open>*Server\<close> is an address, since \<open>http.Handle\<close> keeps it. net/http's \<open>DefaultServeMux\<close> is the list of
  what was registered with it, for patterns that are paths without wildcards, methods and hosts.
\<close>

section \<open>Servers\<close>

record rpc_package =
  pk_servers :: "nat \<Rightarrow> basic_server"
  pk_nservers :: nat
  pk_default :: nat
  pk_mux :: "(string \<times> nat) list"

definition new_server :: "rpc_package \<Rightarrow> nat \<times> rpc_package" where
  "new_server p =
     (pk_nservers p,
      p\<lparr>pk_servers := (pk_servers p)(pk_nservers p := new_basic_server), pk_nservers := Suc (pk_nservers p)\<rparr>)"

text \<open>The package's variables when the program starts.\<close>

definition init_package :: rpc_package where
  "init_package =
     (case new_server \<lparr>pk_servers = (\<lambda>_. new_basic_server), pk_nservers = 0, pk_default = 0, pk_mux = []\<rparr> of
        (d, p) \<Rightarrow> p\<lparr>pk_default := d\<rparr>)"

definition default_server :: "rpc_package \<Rightarrow> basic_server" where
  "default_server p = pk_servers p (pk_default p)"

definition on_default :: "(basic_server \<Rightarrow> basic_server outcome) \<Rightarrow> rpc_package \<Rightarrow> rpc_package outcome" where
  "on_default f p =
     (case f (default_server p) of
        Panic \<Rightarrow> Panic
      | Fail e \<Rightarrow> Fail e
      | Ok s \<Rightarrow> Ok (p\<lparr>pk_servers := (pk_servers p)(pk_default p := s)\<rparr>))"

definition pkg_register :: "(gotype \<Rightarrow> gomethod list) \<Rightarrow> receiver \<Rightarrow> rpc_package \<Rightarrow> rpc_package outcome" where
  "pkg_register msets rcvr = on_default (register_type msets rcvr)"

definition pkg_register_name ::
  "(gotype \<Rightarrow> gomethod list) \<Rightarrow> string \<Rightarrow> receiver \<Rightarrow> rpc_package \<Rightarrow> rpc_package outcome" where
  "pkg_register_name msets name rcvr = on_default (register_name msets name rcvr)"

text \<open>\<open>Server.ServeConn\<close>, and the functions on \<open>DefaultServer\<close>.\<close>

definition serve_conn ::
  "gob_in \<Rightarrow> basic_server \<Rightarrow> nat set \<Rightarrow> nat set \<Rightarrow> svc_store \<Rightarrow> gob_server \<times> serve" where
  "serve_conn d s oreqs oresps st = (new_gob_server d, serve_codec s oreqs oresps st)"

definition pkg_serve_conn ::
  "gob_in \<Rightarrow> rpc_package \<Rightarrow> nat set \<Rightarrow> nat set \<Rightarrow> svc_store \<Rightarrow> gob_server \<times> serve" where
  "pkg_serve_conn d p = serve_conn d (default_server p)"

definition pkg_serve_codec ::
  "'c \<Rightarrow> rpc_package \<Rightarrow> nat set \<Rightarrow> nat set \<Rightarrow> svc_store \<Rightarrow> 'c \<times> serve" where
  "pkg_serve_codec codec p oreqs oresps st = (codec, serve_codec (default_server p) oreqs oresps st)"

definition pkg_serve_request_context ::
  "gctx \<Rightarrow> 'c \<Rightarrow> rpc_package \<Rightarrow> nat set \<Rightarrow> nat set \<Rightarrow> svc_store \<Rightarrow> 'c \<times> serve" where
  "pkg_serve_request_context ctx codec p oreqs oresps st =
     (codec, serve_request_context (default_server p) oreqs oresps ctx st)"

definition pkg_serve_request ::
  "'c \<Rightarrow> rpc_package \<Rightarrow> nat set \<Rightarrow> nat set \<Rightarrow> svc_store \<Rightarrow> 'c \<times> serve" where
  "pkg_serve_request = pkg_serve_request_context background"

text \<open>\<open>Accept\<close>: each connection with the server whose \<open>ServeConn\<close> it was given to.\<close>

definition pkg_accept :: "(go_error + 'c) list \<Rightarrow> rpc_package \<Rightarrow> (nat \<times> 'c) list" where
  "pkg_accept rs p = map (Pair (pk_default p)) (fst (accept_loop rs))"

definition birpc_accept :: "(go_error + 'c) list \<Rightarrow> 'c list \<times> go_error option" where
  "birpc_accept = accept_loop"

definition json_serve_conn ::
  "json_in \<Rightarrow> rpc_package \<Rightarrow> nat set \<Rightarrow> nat set \<Rightarrow> svc_store \<Rightarrow> json_server \<times> serve" where
  "json_serve_conn d = pkg_serve_codec (new_json_server d)"

definition birpc_serve_conn ::
  "nat \<Rightarrow> gob_in \<Rightarrow> birpc_server \<Rightarrow> nat set \<Rightarrow> nat set \<Rightarrow> svc_store \<Rightarrow> gob_birpc \<times> bserve" where
  "birpc_serve_conn me d s oreqs oresps st = (new_gob_birpc d, birpc_serve_codec me s oreqs oresps st)"


section \<open>Clients\<close>

definition new_client_with_codec :: "'c \<Rightarrow> 'c \<times> client" where
  "new_client_with_codec codec = (codec, new_basic_client)"

definition new_client :: "gob_in \<Rightarrow> gob_client \<times> client" where
  "new_client d = new_client_with_codec (new_gob_client d)"

definition json_new_client :: "json_in \<Rightarrow> json_client \<times> client" where
  "json_new_client d = new_client_with_codec (new_json_client d)"

text \<open>\<open>r\<close> is what \<open>net.Dial\<close> returns.\<close>

definition dial :: "go_error + gob_in \<Rightarrow> go_error + gob_client \<times> client" where
  "dial r = (case r of Inl e \<Rightarrow> Inl e | Inr d \<Rightarrow> Inr (new_client d))"

definition json_dial :: "go_error + json_in \<Rightarrow> go_error + json_client \<times> client" where
  "json_dial r = (case r of Inl e \<Rightarrow> Inl e | Inr d \<Rightarrow> Inr (json_new_client d))"

text \<open>A bidirectional client that dialled has a registry of its own.\<close>

definition new_birpc_client_with_codec :: "nat \<Rightarrow> 'c \<Rightarrow> svc_store \<Rightarrow> 'c \<times> birpc" where
  "new_birpc_client_with_codec me codec st = (codec, birpc_start me new_basic_server {} {} st)"

definition new_birpc_client :: "nat \<Rightarrow> gob_in \<Rightarrow> svc_store \<Rightarrow> gob_birpc \<times> birpc" where
  "new_birpc_client me d = new_birpc_client_with_codec me (new_gob_birpc d)"


section \<open>Registration with net/http\<close>

text \<open>Registering the empty pattern or one that is there already panics.\<close>

definition handle_http :: "string \<Rightarrow> nat \<Rightarrow> rpc_package \<Rightarrow> rpc_package outcome" where
  "handle_http path s p =
     (if path = [] \<or> path \<in> fst ` set (pk_mux p) then Panic else Ok (p\<lparr>pk_mux := pk_mux p @ [(path, s)]\<rparr>))"

definition pkg_handle_http :: "rpc_package \<Rightarrow> rpc_package outcome" where
  "pkg_handle_http p = handle_http default_rpc_path (pk_default p) p"

fun handle_all :: "(string \<times> nat) list \<Rightarrow> rpc_package \<Rightarrow> rpc_package outcome" where
  "handle_all [] p = Ok p"
| "handle_all ((path, s) # rs) p =
     (case handle_http path s p of Panic \<Rightarrow> Panic | Fail e \<Rightarrow> Fail e | Ok p' \<Rightarrow> handle_all rs p')"

text \<open>
  What net/http makes of a CONNECT: the path is the second word of the line, and the handler is the one
  registered for it; without one the answer is 404. (A pattern that ends in a slash would match longer
  paths too.)
\<close>

definition request_path_of :: "string \<Rightarrow> string" where
  "request_path_of s =
     takeWhile (\<lambda>c. c \<noteq> CHR '' '') (drop 1 (dropWhile (\<lambda>c. c \<noteq> CHR '' '') (first_line s)))"

definition http_serve :: "(string \<times> nat) list \<Rightarrow> go_error option \<Rightarrow> string \<Rightarrow> nat option \<times> http_effect list" where
  "http_serve mux hijack line =
     (case map_of mux (request_path_of line) of
        None \<Rightarrow> (None, [WriteHeader 404])
      | Some s \<Rightarrow> (Some s, serve_http (request_method_of line) hijack))"

text \<open>The \<open>Status\<close> the client's \<open>http.ReadResponse\<close> finds.\<close>

fun status_seen :: "http_effect list \<Rightarrow> go_error + string" where
  "status_seen [] = Inl ErrUnexpectedEOF"
| "status_seen (ConnWrite s # es) = Inr (response_status_of s)"
| "status_seen (WriteHeader n # es) =
     Inr (if n = 404 then ''404 Not Found'' else ''405 Method Not Allowed'')"
| "status_seen (e # es) = status_seen es"

text \<open>A path that is sent as it is and a pattern that matches nothing else.\<close>

definition plain_path :: "string \<Rightarrow> bool" where
  "plain_path path \<longleftrightarrow> path \<noteq> [] \<and> hd path = CHR ''/'' \<and> last path \<noteq> CHR ''/'' \<and>
     set path \<inter> {CHR '' '', CHR 0x0A, CHR 0x0D, CHR ''%'', CHR ''?'', CHR ''{'', CHR ''}''} = {}"

definition dial_http_over ::
  "(string \<times> nat) list \<Rightarrow> string \<Rightarrow> string \<Rightarrow> string \<Rightarrow> (dial_error + unit) \<times> http_effect list" where
  "dial_http_over mux network address path =
     dial_http_path_timeout network address path (Inr ())
       (status_seen (snd (http_serve mux None (connect_line path))))"


section \<open>Properties\<close>

lemma request_path_of_connect:
  assumes "plain_path path"
  shows "request_path_of (connect_line path) = path"
proof -
  have c: "CHR '' '' \<notin> set path" "CHR 0x0A \<notin> set path" using assms by (auto simp: plain_path_def)
  have "takeWhile (\<lambda>c. c \<noteq> CHR 0x0A) ((''CONNECT '' @ path @ '' HTTP/1.0'') @ newline @ newline) =
      (''CONNECT '' @ path @ '' HTTP/1.0'') @ takeWhile (\<lambda>c. c \<noteq> CHR 0x0A) (newline @ newline)"
    by (rule takeWhile_append2) (use c in auto)
  then have l: "first_line (connect_line path) = ''CONNECT '' @ path @ '' HTTP/1.0''"
    by (simp add: first_line_def connect_line_def newline_def)
  have "takeWhile (\<lambda>c. c \<noteq> CHR '' '') (path @ '' HTTP/1.0'') = path @ takeWhile (\<lambda>c. c \<noteq> CHR '' '') '' HTTP/1.0''"
    by (rule takeWhile_append2) (use c in auto)
  then show ?thesis unfolding request_path_of_def l by simp
qed

lemma handle_allE:
  assumes "handle_all rs p = Ok p'"
  shows "pk_mux p' = pk_mux p @ rs \<and> pk_servers p' = pk_servers p \<and> pk_default p' = pk_default p \<and>
    distinct (map fst rs) \<and> fst ` set (pk_mux p) \<inter> fst ` set rs = {}"
  using assms
proof (induction rs p rule: handle_all.induct)
  case (2 path s rs p)
  from 2(2) have h: "path \<notin> fst ` set (pk_mux p)" "handle_all rs (p\<lparr>pk_mux := pk_mux p @ [(path, s)]\<rparr>) = Ok p'"
    by (auto simp: handle_http_def split: if_splits)
  have "handle_http path s p = Ok (p\<lparr>pk_mux := pk_mux p @ [(path, s)]\<rparr>)"
    using 2(2) by (auto simp: handle_http_def split: if_splits)
  from 2(1) [OF this h(2)] h(1) show ?case by auto
qed simp



end
