(* ===== verification/GobNetwork.thy ===== *)
theory GobNetwork
  imports NetworkProps GobProps Package
begin

text \<open>
  A client made by \<open>NewClient\<close> and a server in \<open>ServeConn\<close>, on the two ends of one connection: the client
  and the server of Network with the gob codecs of codec.go between them. A codec's decoder holds the
  messages that have reached it (\<open>gi_msgs\<close>); what the other codec's writer puts on the connection is
  appended there. The connection may fail in either direction at any time: what has not arrived by then
  never does (\<open>gn_up_ended\<close>, \<open>gn_down_ended\<close>), and writes may fail with any part of a message delivered.
  \<open>rty c\<close> is the type of the \<open>Reply\<close> of call \<open>c\<close> (\<open>None\<close>: a nil \<open>Reply\<close>). The arguments of requests are taken
  to be values that gob encodes, since one it refuses leaves its header behind; responses it may refuse.

  GobNetworkProps shows that this is the network of Network with gob's decoding.
\<close>

section \<open>State and steps\<close>

record gob_net =
  gn_client :: client
  gn_serve :: serve
  gn_cc :: gob_client
  gn_sc :: gob_server
  gn_up_ended :: bool
  gn_down_ended :: bool

definition new_gob_net :: "basic_server \<Rightarrow> nat set \<Rightarrow> nat set \<Rightarrow> svc_store \<Rightarrow> go_error \<Rightarrow> go_error \<Rightarrow> gob_net" where
  "new_gob_net srv oreqs oresps st eu ed =
     (case (new_client \<lparr>gi_msgs = [], gi_end = ed\<rparr>, serve_conn \<lparr>gi_msgs = [], gi_end = eu\<rparr> srv oreqs oresps st) of
        ((cc, c), (sc, v)) \<Rightarrow>
          \<lparr>gn_client = c, gn_serve = v, gn_cc = cc, gn_sc = sc, gn_up_ended = False, gn_down_ended = False\<rparr>)"

definition put_since :: "gob_writer \<Rightarrow> gob_writer \<Rightarrow> gob list" where
  "put_since b b' = drop (length (gw_out b)) (gw_out b')"

definition feed :: "bool \<Rightarrow> gob list \<Rightarrow> gob_in \<Rightarrow> gob_in" where
  "feed ended gs d = (if ended then d else d\<lparr>gi_msgs := gi_msgs d @ gs\<rparr>)"

text \<open>A decoder waits for a message unless the connection has ended.\<close>

definition readable :: "bool \<Rightarrow> gob_in \<Rightarrow> bool" where
  "readable ended d \<longleftrightarrow> gi_msgs d \<noteq> [] \<or> ended"

definition on_client_codec :: "gob_client \<Rightarrow> gob_net \<Rightarrow> gob_net" where
  "on_client_codec cc s =
     s\<lparr>gn_cc := cc,
       gn_sc := (gn_sc s)\<lparr>gs_dec := feed (gn_up_ended s) (put_since (gc_writer (gn_cc s)) (gc_writer cc)) (gs_dec (gn_sc s))\<rparr>\<rparr>"

definition on_server_codec :: "gob_server \<Rightarrow> gob_net \<Rightarrow> gob_net" where
  "on_server_codec sc s =
     s\<lparr>gn_sc := sc,
       gn_cc := (gn_cc s)\<lparr>gc_dec := feed (gn_down_ended s) (put_since (gs_writer (gn_sc s)) (gs_writer sc)) (gc_dec (gn_cc s))\<rparr>\<rparr>"

text \<open>Nothing goes out on a connection that this side has closed.\<close>

definition refused_by :: "bool \<Rightarrow> conn_write \<Rightarrow> bool" where
  "refused_by closed w \<longleftrightarrow> (closed \<longrightarrow> (\<exists>e. w = Failed e 0))"

inductive gob_client_side :: "(nat \<Rightarrow> gotype option) \<Rightarrow> gob_net \<Rightarrow> gob_net \<Rightarrow> bool" for rty where
  gnc_caller: "caller_step True (gn_client s) c \<Longrightarrow> cl_tried c = cl_tried (gn_client s) \<Longrightarrow>
    gob_client_side rty s (s\<lparr>gn_client := c\<rparr>)"
| gnc_close: "gclient_close k (gn_cc s) = (w, cc) \<Longrightarrow> client_close w (gn_client s) = (r, b, c) \<Longrightarrow>
    gob_client_side rty s (s\<lparr>gn_client := c, gn_cc := (if b then cc else gn_cc s)\<rparr>)"
| gnc_send: "gclient_write_request (Encoded h) (Encoded b) w1 w2 w3 (cl_request (gn_client s))
      (c_args (cl_calls (gn_client s) k)) (gn_cc s) = (r, cc) \<Longrightarrow>
    send_write r k (gn_client s) = Some c \<Longrightarrow>
    gob_client_side rty s ((on_client_codec cc s)\<lparr>gn_client := c\<rparr>)"
| gnc_header: "readable (gn_down_ended s) (gc_dec (gn_cc s)) \<Longrightarrow> gclient_read_header (gn_cc s) = (h, cc) \<Longrightarrow>
    input_header h (gn_client s) = Some c \<Longrightarrow> gob_client_side rty s (s\<lparr>gn_client := c, gn_cc := cc\<rparr>)"
| gnc_body: "readable (gn_down_ended s) (gc_dec (gn_cc s)) \<Longrightarrow>
    gclient_read_body (reply_target rty (cl_reader (gn_client s))) (gn_cc s) = (b, cc) \<Longrightarrow>
    input_body b (gn_client s) = Some c \<Longrightarrow> gob_client_side rty s (s\<lparr>gn_client := c, gn_cc := cc\<rparr>)"
| gnc_terminate: "input_terminate ks (gn_client s) = Some c \<Longrightarrow> gob_client_side rty s (s\<lparr>gn_client := c\<rparr>)"
| gnc_ended: "gob_client_side rty s (s\<lparr>gn_cc := (gn_cc s)\<lparr>gc_dec := (gc_dec (gn_cc s))
      \<lparr>gi_msgs := take n (gi_msgs (gc_dec (gn_cc s)))\<rparr>\<rparr>, gn_down_ended := True\<rparr>)"

definition on_gob_conn :: "conn \<Rightarrow> gob_net \<Rightarrow> gob_net" where
  "on_gob_conn c s = s\<lparr>gn_serve := (gn_serve s)\<lparr>so_conn := c\<rparr>\<rparr>"

inductive gob_server_side :: "gob_net \<Rightarrow> gob_net \<Rightarrow> bool" where
  gns_get: "serve_get (gn_serve s) = Some t \<Longrightarrow> gob_server_side s (s\<lparr>gn_serve := t\<rparr>)"
| gns_header: "readable (gn_up_ended s) (gs_dec (gn_sc s)) \<Longrightarrow> gserver_read_header (gn_sc s) = (h, sc) \<Longrightarrow>
    serve_header h (gn_serve s) = Some t \<Longrightarrow> gob_server_side s (s\<lparr>gn_serve := t, gn_sc := sc\<rparr>)"
| gns_body: "readable (gn_up_ended s) (gs_dec (gn_sc s)) \<Longrightarrow> so_loop (gn_serve s) = LBody found \<Longrightarrow>
    gserver_read_body (body_target found) (gn_sc s) = (b, sc) \<Longrightarrow> serve_body b (gn_serve s) = Some t \<Longrightarrow>
    gob_server_side s (s\<lparr>gn_serve := t, gn_sc := sc\<rparr>)"
| gns_replied: "serve_replied (gn_serve s) = Some t \<Longrightarrow> gob_server_side s (s\<lparr>gn_serve := t\<rparr>)"
| gns_close: "serve_close (gn_serve s) = Some t \<Longrightarrow> gserver_close k (gn_sc s) = (r, sc) \<Longrightarrow>
    gob_server_side s (s\<lparr>gn_serve := t, gn_sc := sc\<rparr>)"
| gns_cancel: "serve_cancel (gn_serve s) = Some t \<Longrightarrow> gob_server_side s (s\<lparr>gn_serve := t\<rparr>)"
| gns_job: "job_step (so_conn (gn_serve s)) c \<Longrightarrow> cn_wire c = cn_wire (so_conn (gn_serve s)) \<Longrightarrow>
    gob_server_side s (on_gob_conn c s)"
| gns_write: "j_pc (cn_jobs (so_conn (gn_serve s)) j) = JWriting a body \<Longrightarrow>
    gserver_write_response h b w1 w2 w3 k (resp_obj (cn_server (so_conn (gn_serve s))) a) body (gn_sc s) = (r, sc) \<Longrightarrow>
    list_all (refused_by (gs_closed (gn_sc s))) [w1, w2, w3] \<Longrightarrow> job_write j (so_conn (gn_serve s)) = Some c \<Longrightarrow>
    gob_server_side s (on_gob_conn c (on_server_codec sc s))"
| gns_env: "env_step (so_conn (gn_serve s)) c \<Longrightarrow>
    bs_services (cn_server c) = bs_services (cn_server (so_conn (gn_serve s))) \<Longrightarrow> gob_server_side s (on_gob_conn c s)"
| gns_ended: "gob_server_side s (s\<lparr>gn_sc := (gn_sc s)\<lparr>gs_dec := (gs_dec (gn_sc s))
      \<lparr>gi_msgs := take n (gi_msgs (gs_dec (gn_sc s)))\<rparr>\<rparr>, gn_up_ended := True\<rparr>)"

inductive gob_reach :: "(nat \<Rightarrow> gotype option) \<Rightarrow> basic_server \<Rightarrow> gob_net \<Rightarrow> bool" for rty srv where
  gr_new: "ready_server srv oreqs oresps background st \<Longrightarrow> ctx_err (ss_ctxs st) (g_std background) = None \<Longrightarrow>
    error_text eu \<noteq> [] \<Longrightarrow> gob_reach rty srv (new_gob_net srv oreqs oresps st eu ed)"
| gr_client: "gob_reach rty srv s \<Longrightarrow> gob_client_side rty s t \<Longrightarrow> gob_reach rty srv t"
| gr_server: "gob_reach rty srv s \<Longrightarrow> gob_server_side s t \<Longrightarrow> gob_reach rty srv t"


section \<open>What a codec's writer has put on the connection\<close>

text \<open>Some of the messages \<open>gs\<close> have gone out behind \<open>out\<close>, and the buffer holds the others.\<close>

definition wrote :: "gob list \<Rightarrow> gob list \<Rightarrow> gob_writer \<Rightarrow> bool" where
  "wrote gs out b \<longleftrightarrow>
     (\<exists>i \<le> length gs. gw_out b = out @ take i gs \<and> (gw_err b = None \<longrightarrow> gw_buf b = drop i gs))"

lemma wroteI: "i \<le> length gs \<Longrightarrow> gw_out b = out @ take i gs \<Longrightarrow>
    (gw_err b = None \<Longrightarrow> gw_buf b = drop i gs) \<Longrightarrow> wrote gs out b"
  unfolding wrote_def by (intro exI [of _ i]) simp

lemma wroteE:
  assumes "wrote gs out b"
  obtains i where "i \<le> length gs" "gw_out b = out @ take i gs" "gw_err b = None \<longrightarrow> gw_buf b = drop i gs"
  using assms unfolding wrote_def by (elim exE conjE) (rule that)

lemma wrote_more: "wrote gs out b \<Longrightarrow> gw_err b \<noteq> None \<Longrightarrow> wrote (gs @ gs') out b"
  unfolding wrote_def by (elim exE conjE, rule_tac x = i in exI) auto

lemma wrote_write:
  assumes "wrote gs out b" "buf_write w g n b = (r, b')"
  shows "wrote (gs @ [g]) out b'"
proof (cases "gw_err b")
  case (Some e)
  then have "b' = b" using assms(2) by (simp add: buf_write_def)
  then show ?thesis using Some wrote_more [OF assms(1)] by simp
next
  case None
  with assms(1) obtain i where i: "i \<le> length gs" "gw_out b = out @ take i gs" "gw_buf b = drop i gs"
    by (auto simp: wrote_def)
  show ?thesis
  proof (cases "n \<le> buf_size - gw_bytes b")
    case True
    then show ?thesis
      using assms(2) None i by (intro wroteI [of i]) (auto simp: buf_write_def)
  next
    case large: False
    show ?thesis
    proof (cases w)
      case (Failed e k)
      then have "b' = b\<lparr>gw_out := gw_out b @ take k (gw_buf b @ [g]), gw_err := Some e\<rparr>"
        using assms(2) None large by (auto simp: buf_write_def)
      then have "gw_out b' = out @ take i (gs @ [g]) @ take k (drop i (gs @ [g]))" "gw_err b' = Some e"
        using i by simp_all
      then have "gw_out b' = out @ take (i + k) (gs @ [g])" "gw_err b' = Some e" by (simp_all only: take_add)
      then show ?thesis by (intro wroteI [of "min (i + k) (length (gs @ [g]))"]) (simp_all add: min_def)
    next
      case Wrote
      have out: "gw_out b @ gw_buf b = out @ gs" using i by simp
      have "gw_out b' @ gw_buf b' = out @ gs @ [g] \<and> length (gw_buf b') \<le> 1 \<and> (gw_buf b' = [] \<or> gw_buf b' = [g])"
        using assms(2) None large Wrote out by (auto simp: buf_write_def Let_def split: if_splits)
      then show ?thesis
        by (elim conjE disjE) (intro wroteI [of "length (gs @ [g]) - length (gw_buf b')"]; simp)+
    qed
  qed
qed

lemma wrote_flush:
  assumes "wrote gs out b" "buf_flush w b = (r, b')"
  shows "wrote gs out b'"
proof (cases "gw_err b")
  case None
  with assms(1) obtain i where i: "i \<le> length gs" "gw_out b = out @ take i gs" "gw_buf b = drop i gs"
    by (auto simp: wrote_def)
  show ?thesis
  proof (cases w)
    case (Failed e k)
    then show ?thesis
      using assms None i
      by (auto simp: buf_flush_def split: if_splits intro!: wroteI [of "min (i + k) (length gs)"])
         (auto simp: take_add min_def)
  next
    case Wrote
    then show ?thesis
      using assms None i by (auto simp: buf_flush_def split: if_splits intro!: wroteI [of "length gs"])
  qed
qed (use assms in \<open>simp add: buf_flush_def\<close>)

definition writer_idle :: "gob_writer \<Rightarrow> bool" where
  "writer_idle b \<longleftrightarrow> (gw_err b = None \<longrightarrow> gw_buf b = [] \<and> writer_ok b)"

lemma wrote_idle: "writer_idle b \<Longrightarrow> wrote [] (gw_out b) b"
  by (simp add: writer_idle_def wrote_def)

text \<open>A request is on the connection, or a part of it and an error that stays.\<close>

lemma gclient_write_out:
  assumes "gclient_write_request (Encoded h) (Encoded b) w1 w2 w3 q x c = (r, c')"
    and "writer_idle (gc_writer c)"
  shows "\<exists>k. gw_out (gc_writer c') = gw_out (gc_writer c) @ take k [gob_request q, to_gob x] \<and>
    (gw_err (gc_writer c) \<noteq> None \<longrightarrow> k = 0) \<and>
    (r = None \<longrightarrow> k = 2) \<and> (r = None \<longleftrightarrow> gw_err (gc_writer c') = None) \<and>
    writer_idle (gc_writer c') \<and> gc_dec c' = gc_dec c"
proof (cases "gw_err (gc_writer c)")
  case (Some e)
  then have "r = Some e" "c' = c"
    using assms(1) by (simp_all add: gclient_write_request_def gob_encode_def buf_write_def)
  with Some assms(2) show ?thesis by (intro exI [of _ 0]) simp
next
  case None
  let ?out = "gw_out (gc_writer c)"
  note 0 = wrote_idle [OF assms(2)]
  obtain r1 b1 where 1: "buf_write w1 (gob_request q) (Suc h) (gc_writer c) = (r1, b1)" by fastforce
  note W1 = wrote_write [OF 0 1]
  show ?thesis
  proof (cases r1)
    case (Some e)
    then have c: "r = Some e" "c' = c\<lparr>gc_writer := b1\<rparr>"
      using assms(1) 1 by (simp_all add: gclient_write_request_def gob_encode_def)
    have e: "gw_err b1 \<noteq> None" using buf_write_Some 1 Some by blast
    obtain i where "i \<le> 1" "gw_out b1 = ?out @ take i [gob_request q]" using W1 by (auto simp: wrote_def)
    then show ?thesis using c e None by (intro exI [of _ i]) (cases i, auto simp: writer_idle_def)
  next
    case r1: None
    obtain r2 b2 where 2: "buf_write w2 (to_gob x) (Suc b) b1 = (r2, b2)" by fastforce
    note W2 = wrote_write [OF W1 2]
    show ?thesis
    proof (cases r2)
      case (Some e)
      then have c: "r = Some e" "c' = c\<lparr>gc_writer := b2\<rparr>"
        using assms(1) 1 2 r1 by (simp_all add: gclient_write_request_def gob_encode_def)
      have e: "gw_err b2 \<noteq> None" using buf_write_Some 2 Some by blast
      obtain i where "gw_out b2 = ?out @ take i [gob_request q, to_gob x]" using W2 by (auto simp: wrote_def)
      then show ?thesis using c e None by (intro exI [of _ i]) (auto simp: writer_idle_def)
    next
      case r2: None
      have ok: "writer_ok b2" using 2 r2 buf_write_None(2) by blast
      obtain b3 where 3: "buf_flush w3 b2 = (r, b3)" "c' = c\<lparr>gc_writer := b3\<rparr>"
        using assms(1) 1 2 r1 r2 by (auto simp: gclient_write_request_def gob_encode_def split: prod.splits)
      obtain i where i: "i \<le> 2" "gw_out b3 = ?out @ take i [gob_request q, to_gob x]"
          "gw_err b3 = None \<longrightarrow> gw_buf b3 = drop i [gob_request q, to_gob x]"
        by (rule wroteE [OF wrote_flush [OF W2 3(1)]]) (simp add: numeral_2_eq_2)
      show ?thesis
      proof (cases r)
        case None
        then have "gw_buf b3 = []" "gw_err b3 = None" "writer_ok b3" using buf_flush_None [OF _ ok] 3(1) by blast+
        then have "i = 2" using i(1,3) by (cases "i = 2") auto
        then show ?thesis
          using i(2) 3(2) None \<open>gw_buf b3 = []\<close> \<open>gw_err b3 = None\<close> \<open>writer_ok b3\<close>
            \<open>gw_err (gc_writer c) = None\<close>
          by (intro exI [of _ 2]) (simp add: writer_idle_def)
      next
        case (Some e)
        then show ?thesis
          using i(2) 3 buf_flush_Some [of w3 b2 e b3] None by (intro exI [of _ i]) (auto simp: writer_idle_def)
      qed
    qed
  qed
qed

text \<open>
  A response is on the connection, or a part of it and the stream is at its end: after an error that stays,
  or because the codec has closed the connection.
\<close>

lemma gob_encode_wrote:
  "gob_encode x w g b = (r, b') \<Longrightarrow> wrote gs out b \<Longrightarrow> r = None \<Longrightarrow> wrote (gs @ [g]) out b' \<and> writer_ok b'"
  "gob_encode x w g b = (r, b') \<Longrightarrow> wrote gs out b \<Longrightarrow> writer_ok b \<or> gw_err b \<noteq> None \<Longrightarrow> r = Some e \<Longrightarrow>
     \<exists>gs' \<in> {gs, gs @ [g]}. wrote gs' out b' \<and> (writer_ok b' \<or> gw_err b' \<noteq> None)"
  by (auto simp: gob_encode_def dest: wrote_write buf_write_None(2) buf_write_Some split: encoding.splits)

text \<open>Flushing after a refused header or body either leaves an error or ends in the codec's closing.\<close>

lemma gserver_abandon_out:
  assumes "wrote gs out (gs_writer c)" "writer_ok (gs_writer c) \<or> gw_err (gs_writer c) \<noteq> None"
  shows "wrote gs out (gs_writer (gserver_abandon w k c)) \<and> gs_dec (gserver_abandon w k c) = gs_dec c \<and>
    writer_idle (gs_writer (gserver_abandon w k c)) \<and>
    (gs_closed c \<longrightarrow> gs_closed (gserver_abandon w k c))"
proof -
  obtain r b where f: "buf_flush w (gs_writer c) = (r, b)" by fastforce
  note W = wrote_flush [OF assms(1) f]
  show ?thesis
  proof (cases r)
    case None
    have "gw_err (gs_writer c) = None" using f None by (auto simp: buf_flush_def split: option.splits)
    then have "gw_buf b = []" "writer_ok b" using buf_flush_None(2,3) [of w "gs_writer c" b] f None assms(2) by auto
    then show ?thesis
      using None f W by (simp add: gserver_abandon_def gserver_close_def writer_idle_def)
  next
    case (Some e)
    then show ?thesis
      using f W buf_flush_Some [of w "gs_writer c" e b] by (auto simp: gserver_abandon_def writer_idle_def)
  qed
qed

text \<open>The stream of responses is over.\<close>

definition stream_over :: "gob_server \<Rightarrow> bool" where
  "stream_over c \<longleftrightarrow> gw_err (gs_writer c) \<noteq> None \<or> gs_closed c"

lemma wrote_take:
  assumes "wrote gs out b"
  shows "\<exists>i. gw_out b = out @ take i (gs @ gs')"
proof -
  from assms obtain i where "i \<le> length gs" "gw_out b = out @ take i gs" by (rule wroteE)
  then show ?thesis by (intro exI [of _ i]) simp
qed

lemma gserver_write_parts:
  assumes "gserver_write_response h b w1 w2 w3 k r x c = (e, c')" "writer_idle (gs_writer c)"
  shows "(\<exists>i. gw_out (gs_writer c') = gw_out (gs_writer c) @ take i [gob_response r, to_gob x]) \<and>
    writer_idle (gs_writer c') \<and> gs_dec c' = gs_dec c \<and> (gs_closed c \<longrightarrow> gs_closed c')"
proof -
  let ?gs = "[gob_response r, to_gob x]"
  note 0 = wrote_idle [OF assms(2)]
  have ok0: "writer_ok (gs_writer c) \<or> gw_err (gs_writer c) \<noteq> None" using assms(2) by (auto simp: writer_idle_def)
  have over: ?thesis if "wrote gs (gw_out (gs_writer c)) b'" "writer_ok b' \<or> gw_err b' \<noteq> None"
    "c' = gserver_abandon w3 k (c\<lparr>gs_writer := b'\<rparr>)" "gs \<in> {[], [gob_response r], ?gs}" for gs b'
  proof -
    have c: "wrote gs (gw_out (gs_writer c)) (gs_writer (c\<lparr>gs_writer := b'\<rparr>))"
      "writer_ok (gs_writer (c\<lparr>gs_writer := b'\<rparr>)) \<or> gw_err (gs_writer (c\<lparr>gs_writer := b'\<rparr>)) \<noteq> None"
      using that(1,2) by simp_all
    from that(4) obtain gs' where "gs @ gs' = ?gs" by auto
    then show ?thesis
      using gserver_abandon_out [OF c, of w3 k] wrote_take [of gs _ _ gs'] that(3) by auto
  qed
  obtain r1 b1 where 1: "gob_encode h w1 (gob_response r) (gs_writer c) = (r1, b1)" by fastforce
  show ?thesis
  proof (cases r1)
    case (Some e1)
    have c: "c' = gserver_abandon w3 k (c\<lparr>gs_writer := b1\<rparr>)"
      using assms(1) 1 Some by (simp add: gserver_write_response_def)
    from gob_encode_wrote(2) [OF 1 0 ok0 Some] show ?thesis
      by (elim bexE conjE) (rule over [OF _ _ c]; auto)
  next
    case r1: None
    note W1 = gob_encode_wrote(1) [OF 1 0 r1]
    obtain r2 b2 where 2: "gob_encode b w2 (to_gob x) b1 = (r2, b2)" by fastforce
    show ?thesis
    proof (cases r2)
      case (Some e2)
      have c: "c' = gserver_abandon w3 k (c\<lparr>gs_writer := b2\<rparr>)"
        using assms(1) 1 2 r1 Some by (simp add: gserver_write_response_def)
      obtain gs where "gs \<in> {[gob_response r], ?gs}" "wrote gs (gw_out (gs_writer c)) b2"
          "writer_ok b2 \<or> gw_err b2 \<noteq> None"
        using gob_encode_wrote(2) [OF 2 conjunct1 [OF W1] disjI1 [OF conjunct2 [OF W1]] Some] by auto
      then show ?thesis using over [OF _ _ c, of gs] by blast
    next
      case r2: None
      note W2 = gob_encode_wrote(1) [OF 2 conjunct1 [OF W1] r2]
      obtain b3 where 3: "buf_flush w3 b2 = (e, b3)" "c' = c\<lparr>gs_writer := b3\<rparr>"
        using assms(1) 1 2 r1 r2 by (auto simp: gserver_write_response_def split: prod.splits)
      have "writer_idle b3"
        using buf_flush_None(2,3) [of w3 b2 b3] buf_flush_Some [of w3 b2 _ b3] 3(1) W2
        by (cases e) (auto simp: writer_idle_def)
      then show ?thesis
        using wrote_take [OF wrote_flush [OF conjunct1 [OF W2] 3(1)], of "[]"] 3(2) by simp
    qed
  qed
qed

text \<open>On a connection that failed or was closed nothing more goes out; otherwise a response goes out whole or
  is the last.\<close>

lemma refused_encode: "gob_encode x (Failed e 0) g b = (r, b') \<Longrightarrow> gw_out b' = gw_out b"
  by (auto simp: gob_encode_def buf_write_def split: encoding.splits option.splits if_splits)

lemma refused_flush: "buf_flush (Failed e 0) b = (r, b') \<Longrightarrow> gw_out b' = gw_out b"
  by (auto simp: buf_flush_def split: option.splits if_splits)

lemma stuck_encode: "gob_encode x w g b = (r, b') \<Longrightarrow> gw_err b = Some e \<Longrightarrow>
    b' = b \<and> r = (case x of Refused e' \<Rightarrow> Some e' | Encoded n \<Rightarrow> Some e)"
  by (auto simp: gob_encode_def buf_write_def split: encoding.splits)

lemma stuck_flush: "buf_flush w b = (r, b') \<Longrightarrow> gw_err b = Some e \<Longrightarrow> b' = b \<and> r = Some e"
  by (auto simp: buf_flush_def)

lemma gserver_write_over:
  assumes "gserver_write_response h b w1 w2 w3 k r x c = (e, c')" "stream_over c"
    and "list_all (refused_by (gs_closed c)) [w1, w2, w3]"
  shows "gw_out (gs_writer c') = gw_out (gs_writer c) \<and> stream_over c'"
proof (cases "gs_closed c")
  case True
  then obtain e1 e2 e3 where w: "w1 = Failed e1 0" "w2 = Failed e2 0" "w3 = Failed e3 0"
    using assms(3) by (auto simp: refused_by_def)
  show ?thesis
    using assms(1) True unfolding w
    by (auto simp: gserver_write_response_def gserver_abandon_def gserver_close_def stream_over_def
        dest!: refused_encode refused_flush split: prod.splits option.splits)
next
  case False
  then obtain e' where "gw_err (gs_writer c) = Some e'" using assms(2) by (auto simp: stream_over_def)
  then show ?thesis
    using assms(1)
    by (auto simp: gserver_write_response_def gserver_abandon_def stream_over_def
        dest!: stuck_encode stuck_flush split: prod.splits option.splits encoding.splits)
qed

lemma gserver_write_whole:
  assumes "gserver_write_response h b w1 w2 w3 k r x c = (e, c')" "\<not> stream_over c'" "writer_idle (gs_writer c)"
  shows "gw_out (gs_writer c') = gw_out (gs_writer c) @ [gob_response r, to_gob x]"
proof -
  have f: "gs_fine (snd (gserver_write_response h b w1 w2 w3 k r x c))"
    using assms(1,2) by (simp add: stream_over_def gs_fine_def)
  from gserver_write_fineE [OF f] have "gs_fine c" by blast
  then show ?thesis
    using gserver_write_fine(1) [OF f] assms(1,3) by (simp add: emitted_def writer_idle_def gs_fine_def)
qed

end
