(* ===== verification/GobNetworkProps.thy ===== *)
theory GobNetworkProps
  imports GobNetwork
begin

text \<open>
  The network over gob refines the network of Network: every step of it is one there, or none, with gob's
  decoding of arguments and replies. So what NetworkProps shows of a call holds of a call over gob.
\<close>

section \<open>Refinement\<close>

text \<open>The decodings of the network this one refines.\<close>

definition gob_args :: arg_decoder where
  "gob_args ty x = body_from_gob ty (to_gob x)"

definition gob_replies :: "(nat \<Rightarrow> gotype option) \<Rightarrow> reply_decoder" where
  "gob_replies rty c x = body_from_gob (rty c) (to_gob x)"

text \<open>What each decoder has still to be given, the body of the message in hand first.\<close>

definition up_stream :: "net \<Rightarrow> gob list" where
  "up_stream t =
     (case so_loop (nt_serve t) of LBody f \<Rightarrow> [to_gob (snd (last (nt_read t)))] | _ \<Rightarrow> []) @
     concat (map (\<lambda>(q, x). [gob_request q, to_gob x]) (nt_up t))"

definition down_stream :: "net \<Rightarrow> gob list" where
  "down_stream t =
     (case cl_reader (nt_client t) of RGot k p \<Rightarrow> [to_gob (snd (last (nt_got t)))] | _ \<Rightarrow> []) @
     concat (map (\<lambda>(p, x). [gob_response p, to_gob x]) (nt_down t))"

definition up_dead :: "gob_net \<Rightarrow> bool" where
  "up_dead s \<longleftrightarrow> gn_up_ended s \<or> gw_err (gc_writer (gn_cc s)) \<noteq> None"

definition down_dead :: "gob_net \<Rightarrow> bool" where
  "down_dead s \<longleftrightarrow> gn_down_ended s \<or> stream_over (gn_sc s)"

definition simulates :: "gob_net \<Rightarrow> net \<Rightarrow> bool" where
  "simulates s t \<longleftrightarrow> nt_client t = gn_client s \<and> nt_serve t = gn_serve s \<and>
     arrived (gi_msgs (gs_dec (gn_sc s))) (up_dead s) (up_stream t) \<and>
     arrived (gi_msgs (gc_dec (gn_cc s))) (down_dead s) (down_stream t) \<and>
     writer_idle (gc_writer (gn_cc s)) \<and> writer_idle (gs_writer (gn_sc s)) \<and>
     error_text (gi_end (gs_dec (gn_sc s))) \<noteq> []"

lemma arrived_feed:
  assumes "arrived (gi_msgs d) (ended \<or> err) gs" "\<not> err" "drop k new \<noteq> [] \<longrightarrow> err'"
  shows "arrived (gi_msgs (feed ended (take k new) d)) (ended \<or> err') (gs @ new)"
proof -
  from assms(1,2) obtain rest where r: "gs = gi_msgs d @ rest" "rest \<noteq> [] \<longrightarrow> ended" by (auto simp: arrived_def)
  show ?thesis
  proof (cases ended)
    case True
    then show ?thesis using r by (auto simp: arrived_def feed_def)
  next
    case False
    then have "gs @ new = (gi_msgs d @ take k new) @ drop k new" using r by simp
    with False assms(3) show ?thesis unfolding arrived_def feed_def by (intro exI [of _ "drop k new"]) simp
  qed
qed

lemma feed_simps [simp]: "feed e [] d = d" "gi_end (feed e gs d) = gi_end d"
  by (simp_all add: feed_def)

lemma put_since_append: "gw_out b' = gw_out b @ gs \<Longrightarrow> put_since b b' = gs"
  by (simp add: put_since_def)

text \<open>Reading from a decoder whose stream is known.\<close>

lemma decode_nextE:
  assumes "decode_next f d = (x, d')" "readable ended d" "arrived (gi_msgs d) dead gs" "ended \<longrightarrow> dead"
  obtains (message) g gs' where "gs = g # gs'" "x = f g" "arrived (gi_msgs d') dead gs'" "gi_end d' = gi_end d"
  | (ended) "gi_msgs d = []" "ended" "x = Inl (gi_end d)" "d' = d"
proof (cases "gi_msgs d")
  case Nil
  then show ?thesis using assms by (intro that(2)) (auto simp: decode_next_def gob_next_def readable_def)
next
  case (Cons m ms)
  then obtain gs' where "gs = m # gs'" using assms(3) by (cases gs) auto
  then show ?thesis
    using Cons assms(1,3) by (intro that(1) [of m gs']) (auto simp: decode_next_def gob_next_def)
qed

lemma simulatesD:
  assumes "simulates s t"
  shows "nt_client t = gn_client s" "nt_serve t = gn_serve s"
    "arrived (gi_msgs (gs_dec (gn_sc s))) (up_dead s) (up_stream t)"
    "arrived (gi_msgs (gc_dec (gn_cc s))) (down_dead s) (down_stream t)"
    "writer_idle (gc_writer (gn_cc s))" "writer_idle (gs_writer (gn_sc s))"
    "error_text (gi_end (gs_dec (gn_sc s))) \<noteq> []"
  using assms by (simp_all add: simulates_def)

lemma stream_simps [simp]:
  "up_stream (t\<lparr>nt_client := c\<rparr>) = up_stream t" "up_stream (t\<lparr>nt_lost := b\<rparr>) = up_stream t"
  "up_stream (t\<lparr>nt_down := d\<rparr>) = up_stream t" "up_stream (t\<lparr>nt_got := g\<rparr>) = up_stream t"
  "down_stream (t\<lparr>nt_serve := v\<rparr>) = down_stream t" "down_stream (t\<lparr>nt_lost := b\<rparr>) = down_stream t"
  "down_stream (t\<lparr>nt_up := u\<rparr>) = down_stream t" "down_stream (t\<lparr>nt_read := r\<rparr>) = down_stream t"
  by (simp_all add: up_stream_def down_stream_def split: loop_pc.split reader_pc.split)

lemma down_stream_client:
  "cl_reader c = cl_reader (nt_client t) \<or>
     (\<forall>k p. cl_reader c \<noteq> RGot k p) \<and> (\<forall>k p. cl_reader (nt_client t) \<noteq> RGot k p) \<Longrightarrow>
   down_stream (t\<lparr>nt_client := c\<rparr>) = down_stream t"
  by (auto simp: down_stream_def split: reader_pc.split)

lemma up_stream_serve:
  "so_loop v = so_loop (nt_serve t) \<or> (\<forall>f. so_loop v \<noteq> LBody f) \<and> (\<forall>f. so_loop (nt_serve t) \<noteq> LBody f) \<Longrightarrow>
   up_stream (t\<lparr>nt_serve := v\<rparr>) = up_stream t"
  by (auto simp: up_stream_def split: loop_pc.split)

lemma simulates_flags [simp]: "simulates s (t\<lparr>nt_lost := b\<rparr>) = simulates s t"
  by (simp add: simulates_def)

lemmas dead_defs = up_dead_def down_dead_def stream_over_def

text \<open>The client's steps.\<close>

lemma gclient_closeE: "gclient_close k cc = (w, cc') \<Longrightarrow>
    gc_dec cc' = gc_dec cc \<and> gc_writer cc' = gc_writer cc"
  by (auto simp: gclient_close_def)

lemma send_simulated:
  assumes "simulates s t" "send_write r k (gn_client s) = Some c"
    and "gclient_write_request (Encoded h) (Encoded b) w1 w2 w3 (cl_request (gn_client s))
      (c_args (cl_calls (gn_client s) k)) (gn_cc s) = (r, cc)"
  shows "\<exists>t'. client_side decR t t' \<and> simulates ((on_client_codec cc s)\<lparr>gn_client := c\<rparr>) t'"
proof -
  note S = simulatesD [OF assms(1)]
  let ?q = "cl_request (gn_client s)" and ?x = "c_args (cl_calls (gn_client s) k)"
  have last: "last (cl_tried c) = (?q, ?x)" using assms(2) by (auto elim!: send_writeE)
  have reader: "cl_reader c = cl_reader (nt_client t)" using send_write_sent [OF assms(2)] S(1) by simp
  obtain i where i: "gw_out (gc_writer cc) = gw_out (gc_writer (gn_cc s)) @ take i [gob_request ?q, to_gob ?x]"
    "gw_err (gc_writer (gn_cc s)) \<noteq> None \<longrightarrow> i = 0" "r = None \<longrightarrow> i = 2"
    "r = None \<longleftrightarrow> gw_err (gc_writer cc) = None" "writer_idle (gc_writer cc)" "gc_dec cc = gc_dec (gn_cc s)"
    using gclient_write_out [OF assms(3) S(5)] by (elim exE conjE) (rule that)
  note put = put_since_append [OF i(1)]
  have stuck: "gw_err (gc_writer (gn_cc s)) \<noteq> None \<Longrightarrow> r \<noteq> None" using i(2,3) by auto
  show ?thesis
  proof (cases "gw_err (gc_writer (gn_cc s))")
    case (Some e)
    with stuck obtain e' where r: "r = Some e'" by auto
    have "client_side decR t (t\<lparr>nt_client := c\<rparr>)"
      using nc_refused [of e' k t c] assms(2) S(1) r by simp
    moreover have "simulates ((on_client_codec cc s)\<lparr>gn_client := c\<rparr>) (t\<lparr>nt_client := c\<rparr>)"
      using S i(2,4-6) put Some r reader
      by (simp add: simulates_def on_client_codec_def dead_defs down_stream_client)
    ultimately show ?thesis by blast
  next
    case None
    let ?t = "t\<lparr>nt_client := c, nt_up := nt_up t @ [(?q, ?x)]\<rparr>"
    have up: "arrived (gi_msgs (feed (gn_up_ended s) (take i [gob_request ?q, to_gob ?x]) (gs_dec (gn_sc s))))
        (gn_up_ended s \<or> gw_err (gc_writer cc) \<noteq> None) (up_stream t @ [gob_request ?q, to_gob ?x])"
      by (rule arrived_feed [where err = False]) (use S(3) None i(3,4) in \<open>auto simp: up_dead_def\<close>)
    have "up_stream ?t = up_stream t @ [gob_request ?q, to_gob ?x]"
      by (simp add: up_stream_def split: loop_pc.split)
    moreover have "down_stream ?t = down_stream t" using reader by (simp add: down_stream_client)
    ultimately have sim: "simulates ((on_client_codec cc s)\<lparr>gn_client := c\<rparr>) ?t"
      using S i(5,6) put up
      by (simp add: simulates_def on_client_codec_def dead_defs down_stream_client)
    show ?thesis
    proof (cases r)
      case None
      then show ?thesis using nc_send [of k t c] assms(2) S(1) last sim by fastforce
    next
      case (Some e)
      then show ?thesis
        using nc_torn [of e k t c] assms(2) S(1) last sim by (intro exI [of _ "?t\<lparr>nt_lost := True\<rparr>"]) simp
    qed
  qed
qed

lemma response_read_simulated:
  assumes "simulates s t" "readable (gn_down_ended s) (gc_dec (gn_cc s))"
    and "gclient_read_header (gn_cc s) = (h, cc)" "input_header h (gn_client s) = Some c"
  shows "\<exists>t'. client_side decR t t' \<and> simulates (s\<lparr>gn_client := c, gn_cc := cc\<rparr>) t'"
proof -
  note S = simulatesD [OF assms(1)]
  have reading: "cl_reader (nt_client t) = RReading" using assms(4) S(1) by (auto elim!: input_headerE)
  obtain d where d: "decode_next response_from_gob (gc_dec (gn_cc s)) = (h, d)" "cc = (gn_cc s)\<lparr>gc_dec := d\<rparr>"
    using assms(3) by (auto simp: gclient_read_header_def split: prod.splits)
  have dead: "gn_down_ended s \<longrightarrow> down_dead s" by (simp add: down_dead_def)
  from d(1) assms(2) S(4) dead show ?thesis
  proof (cases rule: decode_nextE)
    case (message g gs)
    then obtain p x down where down: "nt_down t = (p, x) # down" "g = gob_response p"
        "gs = to_gob x # concat (map (\<lambda>(p, x). [gob_response p, to_gob x]) down)"
      using reading by (cases "nt_down t") (auto simp: down_stream_def)
    then have h: "h = Inr p" using message(2) by simp
    let ?t = "t\<lparr>nt_client := c, nt_down := down, nt_got := nt_got t @ [(p, x)]\<rparr>"
    have "cl_reader c = RGot (cl_pending (gn_client s) (resp_seq p)) p"
      using assms(4) h by (auto elim!: input_headerE)
    then have "down_stream ?t = gs" using down(3) by (simp add: down_stream_def)
    then have "simulates (s\<lparr>gn_client := c, gn_cc := cc\<rparr>) ?t"
      using S message(3) d(2) by (simp add: simulates_def dead_defs)
    moreover have "client_side decR t ?t"
      using nc_header [of t p x down c] down(1) assms(4) h S(1) by simp
    ultimately show ?thesis by blast
  next
    case ended
    then have "input_header (Inl (gi_end (gc_dec (gn_cc s)))) (nt_client t) = Some c"
      using assms(4) S(1) by simp
    then have "client_side decR t (t\<lparr>nt_client := c, nt_lost := True\<rparr>)" by (rule nc_no_header)
    moreover have "\<forall>k p. cl_reader c \<noteq> RGot k p" using assms(4) ended by (auto elim!: input_headerE)
    then have "simulates (s\<lparr>gn_client := c, gn_cc := cc\<rparr>) (t\<lparr>nt_client := c, nt_lost := True\<rparr>)"
      using S ended d(2) reading by (simp add: simulates_def dead_defs down_stream_client)
    ultimately show ?thesis by blast
  qed
qed

lemma reply_read_simulated:
  assumes "simulates s t" "readable (gn_down_ended s) (gc_dec (gn_cc s))"
    and "gclient_read_body (reply_target rty (cl_reader (gn_client s))) (gn_cc s) = (b, cc)"
    and "input_body b (gn_client s) = Some c"
  shows "\<exists>t'. client_side (gob_replies rty) t t' \<and> simulates (s\<lparr>gn_client := c, gn_cc := cc\<rparr>) t'"
proof -
  note S = simulatesD [OF assms(1)]
  obtain k p where got: "cl_reader (nt_client t) = RGot k p" "\<forall>k p. cl_reader c \<noteq> RGot k p"
    using assms(4) S(1) by (auto elim: input_body_received)
  let ?ty = "reply_target rty (RGot k p)" and ?x = "snd (last (nt_got t))"
  obtain d where d: "decode_next (body_from_gob ?ty) (gc_dec (gn_cc s)) = (b, d)" "cc = (gn_cc s)\<lparr>gc_dec := d\<rparr>"
    using assms(3) got(1) S(1) by (auto simp: gclient_read_body_def split: prod.splits)
  have dead: "gn_down_ended s \<longrightarrow> down_dead s" by (simp add: down_dead_def)
  have stream: "down_stream t = to_gob ?x # down_stream (t\<lparr>nt_client := c\<rparr>)"
    using got by (simp add: down_stream_def split: reader_pc.split)
  from d(1) assms(2) S(4) dead show ?thesis
  proof (cases rule: decode_nextE)
    case (message g gs)
    then have b: "b = body_from_gob ?ty (to_gob ?x)" and gs: "gs = down_stream (t\<lparr>nt_client := c\<rparr>)"
      using stream by simp_all
    have sim: "simulates (s\<lparr>gn_client := c, gn_cc := cc\<rparr>) (t\<lparr>nt_client := c\<rparr>)"
      using S message(3) d(2) gs by (simp add: simulates_def dead_defs)
    show ?thesis
    proof (cases "k = None \<or> resp_error p \<noteq> []")
      case True
      then have "b = Inr VNil" using b by (auto simp: reply_target_def body_from_gob_def split: option.splits)
      then have "client_side (gob_replies rty) t (t\<lparr>nt_client := c\<rparr>)"
        using nc_discard [OF got(1) True] assms(4) S(1) by simp
      with sim show ?thesis by blast
    next
      case False
      then obtain i where i: "k = Some i" "resp_error p = []" by auto
      then have "b = gob_replies rty i ?x" using b by (simp add: reply_target_def gob_replies_def)
      then have "client_side (gob_replies rty) t (t\<lparr>nt_client := c\<rparr>)"
        using nc_body [of t i p] got(1) i assms(4) S(1) by simp
      with sim show ?thesis by blast
    qed
  next
    case ended
    then have "input_body (Inl (gi_end (gc_dec (gn_cc s)))) (nt_client t) = Some c"
      using assms(4) S(1) by simp
    then have "client_side (gob_replies rty) t (t\<lparr>nt_client := c, nt_lost := True\<rparr>)" by (rule nc_no_body)
    moreover have "down_dead s" using ended(1) S(4) stream by simp
    then have "simulates (s\<lparr>gn_client := c, gn_cc := cc\<rparr>) (t\<lparr>nt_client := c, nt_lost := True\<rparr>)"
      using S ended d(2) by (simp add: simulates_def dead_defs)
    ultimately show ?thesis by blast
  qed
qed

lemma gob_client_simulated:
  assumes "gob_client_side rty s s'" "simulates s t"
  shows "\<exists>t'. (client_side (gob_replies rty) t t' \<or> t' = t) \<and> simulates s' t'"
  using assms(1)
proof (cases rule: gob_client_side.cases)
  case (gnc_caller c)
  note S = simulatesD [OF assms(2)]
  have "client_side (gob_replies rty) t (t\<lparr>nt_client := c\<rparr>)"
    by (rule nc_caller) (use gnc_caller S(1) in simp_all)
  moreover have "simulates s' (t\<lparr>nt_client := c\<rparr>)"
    using S gnc_caller(1) caller_step_reader [OF gnc_caller(2)]
    by (simp add: simulates_def dead_defs down_stream_client)
  ultimately show ?thesis by blast
next
  case (gnc_close k w cc r b c)
  note S = simulatesD [OF assms(2)]
  have "client_side (gob_replies rty) t (t\<lparr>nt_client := c, nt_lost := True\<rparr>)"
    by (rule nc_close) (use gnc_close S(1) in simp)
  moreover have "simulates s' (t\<lparr>nt_client := c, nt_lost := True\<rparr>)"
    using S gnc_close(1) reader_sent(1) [OF gnc_close(3)] gclient_closeE [OF gnc_close(2)]
    by (simp add: simulates_def dead_defs down_stream_client)
  ultimately show ?thesis by blast
next
  case (gnc_send h b w1 w2 w3 k r cc c)
  then show ?thesis using send_simulated [OF assms(2) gnc_send(3,2)] by blast
next
  case (gnc_header h cc c)
  then show ?thesis using response_read_simulated [OF assms(2)] by blast
next
  case (gnc_body b cc c)
  then show ?thesis using reply_read_simulated [OF assms(2)] by blast
next
  case (gnc_terminate ks c)
  note S = simulatesD [OF assms(2)]
  have "client_side (gob_replies rty) t (t\<lparr>nt_client := c\<rparr>)"
    by (rule nc_terminate) (use gnc_terminate S(1) in simp)
  moreover have "simulates s' (t\<lparr>nt_client := c\<rparr>)"
    using S gnc_terminate by (auto simp: simulates_def dead_defs down_stream_client elim!: input_terminateE)
  ultimately show ?thesis by blast
next
  case (gnc_ended n)
  then have "simulates s' t"
    using simulatesD [OF assms(2)] arrived_cut by (auto simp: simulates_def dead_defs)
  then show ?thesis by blast
qed

text \<open>The server's steps.\<close>

lemma serve_simulated:
  assumes "simulates s t" "\<forall>f. so_loop v \<noteq> LBody f" "\<forall>f. so_loop (gn_serve s) \<noteq> LBody f"
  shows "simulates (s\<lparr>gn_serve := v\<rparr>) (t\<lparr>nt_serve := v\<rparr>)"
  using simulatesD [OF assms(1)] assms(2,3) by (simp add: simulates_def dead_defs up_stream_serve)

lemma conn_simulated:
  assumes "simulates s t"
  shows "simulates (on_gob_conn c s) (on_conn c t)"
  using simulatesD [OF assms]
  by (simp add: simulates_def dead_defs up_stream_serve on_gob_conn_def on_conn_def)

lemma loop_kept:
  "serve_get v = Some v' \<Longrightarrow> (\<forall>f. so_loop v \<noteq> LBody f) \<and> (\<forall>f. so_loop v' \<noteq> LBody f)"
  "serve_replied v = Some v' \<Longrightarrow> (\<forall>f. so_loop v \<noteq> LBody f) \<and> (\<forall>f. so_loop v' \<noteq> LBody f)"
  "serve_close v = Some v' \<Longrightarrow> (\<forall>f. so_loop v \<noteq> LBody f) \<and> (\<forall>f. so_loop v' \<noteq> LBody f)"
  "serve_cancel v = Some v' \<Longrightarrow> (\<forall>f. so_loop v \<noteq> LBody f) \<and> (\<forall>f. so_loop v' \<noteq> LBody f)"
  by (auto elim!: serve_getE serve_repliedE serve_closeE serve_cancelE split: if_splits)

lemma request_read_simulated:
  assumes "simulates s t" "readable (gn_up_ended s) (gs_dec (gn_sc s))"
    and "gserver_read_header (gn_sc s) = (h, sc)" "serve_header h (gn_serve s) = Some v"
  shows "\<exists>t'. server_side decA t t' \<and> simulates (s\<lparr>gn_serve := v, gn_sc := sc\<rparr>) t'"
proof -
  note S = simulatesD [OF assms(1)]
  have reading: "so_loop (nt_serve t) = LHeader" using assms(4) S(2) by (auto elim!: serve_headerE)
  obtain d where d: "decode_next request_from_gob (gs_dec (gn_sc s)) = (h, d)" "sc = (gn_sc s)\<lparr>gs_dec := d\<rparr>"
    using assms(3) by (auto simp: gserver_read_header_def split: prod.splits)
  have dead: "gn_up_ended s \<longrightarrow> up_dead s" by (simp add: up_dead_def)
  from d(1) assms(2) S(3) dead show ?thesis
  proof (cases rule: decode_nextE)
    case (message g gs)
    then obtain q x up where up: "nt_up t = (q, x) # up" "g = gob_request q"
        "gs = to_gob x # concat (map (\<lambda>(q, x). [gob_request q, to_gob x]) up)"
      using reading by (cases "nt_up t") (auto simp: up_stream_def)
    then have h: "h = Inr q" using message(2) by simp
    let ?t = "t\<lparr>nt_serve := v, nt_up := up, nt_read := nt_read t @ [(q, x)]\<rparr>"
    have "up_stream ?t = gs"
      using up(3) serve_header_read(2) [OF assms(4) [unfolded h]] by (simp add: up_stream_def)
    then have "simulates (s\<lparr>gn_serve := v, gn_sc := sc\<rparr>) ?t"
      using S message(3,4) d(2) by (simp add: simulates_def dead_defs)
    moreover have "server_side decA t ?t"
      using ns_header [of t q x up v] up(1) assms(4) h S(2) by simp
    ultimately show ?thesis by blast
  next
    case ended
    then have h: "serve_header (Inl (gi_end (gs_dec (gn_sc s)))) (nt_serve t) = Some v"
      using assms(4) S(2) by simp
    then have "server_side decA t (t\<lparr>nt_serve := v, nt_lost := True\<rparr>)" by (rule ns_no_header)
    moreover have "\<forall>f. so_loop v \<noteq> LBody f" using h by (auto elim!: serve_headerE split: if_splits)
    then have "simulates (s\<lparr>gn_serve := v, gn_sc := sc\<rparr>) (t\<lparr>nt_serve := v, nt_lost := True\<rparr>)"
      using S ended d(2) reading by (simp add: simulates_def dead_defs up_stream_serve)
    ultimately show ?thesis by blast
  qed
qed

lemma arguments_read_simulated:
  assumes "simulates s t" "readable (gn_up_ended s) (gs_dec (gn_sc s))" "so_loop (gn_serve s) = LBody found"
    and "gserver_read_body (body_target found) (gn_sc s) = (b, sc)" "serve_body b (gn_serve s) = Some v"
  shows "\<exists>t'. server_side gob_args t t' \<and> simulates (s\<lparr>gn_serve := v, gn_sc := sc\<rparr>) t'"
proof -
  note S = simulatesD [OF assms(1)]
  have loop: "so_loop (nt_serve t) = LBody found" "\<forall>f. so_loop v \<noteq> LBody f"
    using assms(3) S(2) serve_body_job(2) [OF assms(5,3)] by auto
  let ?x = "snd (last (nt_read t))"
  obtain d where d: "decode_next (body_from_gob (body_target found)) (gs_dec (gn_sc s)) = (b, d)"
      "sc = (gn_sc s)\<lparr>gs_dec := d\<rparr>"
    using assms(4) by (auto simp: gserver_read_body_def split: prod.splits)
  have dead: "gn_up_ended s \<longrightarrow> up_dead s" by (simp add: up_dead_def)
  have stream: "up_stream t = to_gob ?x # up_stream (t\<lparr>nt_serve := v\<rparr>)"
    using loop by (simp add: up_stream_def split: loop_pc.split)
  from d(1) assms(2) S(3) dead show ?thesis
  proof (cases rule: decode_nextE)
    case (message g gs)
    then have b: "b = gob_args (body_target found) ?x" and gs: "gs = up_stream (t\<lparr>nt_serve := v\<rparr>)"
      using stream by (simp_all add: gob_args_def)
    have "simulates (s\<lparr>gn_serve := v, gn_sc := sc\<rparr>) (t\<lparr>nt_serve := v\<rparr>)"
      using S message(3,4) d(2) gs by (simp add: simulates_def dead_defs)
    moreover have "server_side gob_args t (t\<lparr>nt_serve := v\<rparr>)"
      by (rule ns_body [OF loop(1)]) (use assms(5) b S(2) in simp)
    ultimately show ?thesis by blast
  next
    case ended
    then have "serve_body (Inl (gi_end (gs_dec (gn_sc s)))) (nt_serve t) = Some v"
      using assms(5) S(2) by simp
    then have "server_side gob_args t (t\<lparr>nt_serve := v, nt_lost := True\<rparr>)" by (rule ns_no_body [OF _ S(7)])
    moreover have "up_dead s" using ended(1) S(3) stream by simp
    then have "simulates (s\<lparr>gn_serve := v, gn_sc := sc\<rparr>) (t\<lparr>nt_serve := v, nt_lost := True\<rparr>)"
      using S ended d(2) by (simp add: simulates_def dead_defs)
    ultimately show ?thesis by blast
  qed
qed

lemma response_simulated:
  assumes "simulates s t" "j_pc (cn_jobs (so_conn (gn_serve s)) j) = JWriting a body"
    and "gserver_write_response h b w1 w2 w3 k (resp_obj (cn_server (so_conn (gn_serve s))) a) body (gn_sc s) = (r, sc)"
    and "list_all (refused_by (gs_closed (gn_sc s))) [w1, w2, w3]" "job_write j (so_conn (gn_serve s)) = Some c"
  shows "\<exists>t'. server_side decA t t' \<and> simulates (on_gob_conn c (on_server_codec sc s)) t'"
proof -
  note S = simulatesD [OF assms(1)]
  let ?p = "resp_obj (cn_server (so_conn (gn_serve s))) a"
  have last: "snd (last (cn_wire c)) = (?p, body)"
    using assms(2,5) by (auto elim!: job_writeE)
  obtain i where i: "gw_out (gs_writer sc) = gw_out (gs_writer (gn_sc s)) @ take i [gob_response ?p, to_gob body]"
    using gserver_write_parts [OF assms(3) S(6)] by blast
  have sc: "writer_idle (gs_writer sc)" "gs_dec sc = gs_dec (gn_sc s)"
    using gserver_write_parts [OF assms(3) S(6)] by blast+
  note put = put_since_append [OF i]
  have wr: "job_write j (so_conn (nt_serve t)) = Some c" using assms(5) S(2) by simp
  have ups: "up_stream (on_conn c t) = up_stream t" by (simp add: up_stream_serve on_conn_def)
  show ?thesis
  proof (cases "stream_over (gn_sc s)")
    case True
    then have over: "gw_out (gs_writer sc) = gw_out (gs_writer (gn_sc s))" "stream_over sc"
      using gserver_write_over [OF assms(3) _ assms(4)] by blast+
    then have "put_since (gs_writer (gn_sc s)) (gs_writer sc) = []" by (simp add: put_since_def)
    then have "simulates (on_gob_conn c (on_server_codec sc s)) ((on_conn c t)\<lparr>nt_lost := True\<rparr>)"
      using S sc True over(2) ups
      by (simp add: simulates_def on_gob_conn_def on_server_codec_def up_dead_def down_dead_def on_conn_def)
    then show ?thesis using ns_no_write [OF wr, of decA] by blast
  next
    case False
    let ?t = "(on_conn c t)\<lparr>nt_down := nt_down t @ [(?p, body)]\<rparr>"
    have down: "arrived (gi_msgs (feed (gn_down_ended s) (take i [gob_response ?p, to_gob body]) (gc_dec (gn_cc s))))
        (gn_down_ended s \<or> stream_over sc) (down_stream t @ [gob_response ?p, to_gob body])"
    proof (rule arrived_feed [where err = False])
      show "drop i [gob_response ?p, to_gob body] \<noteq> [] \<longrightarrow> stream_over sc"
      proof (rule impI, rule ccontr)
        assume d: "drop i [gob_response ?p, to_gob body] \<noteq> []" "\<not> stream_over sc"
        then have "take i [gob_response ?p, to_gob body] = [gob_response ?p, to_gob body]"
          using gserver_write_whole [OF assms(3) d(2) S(6)] i by simp
        with d(1) show False by (metis append_eq_conv_conj append_self_conv append_take_drop_id)
      qed
    qed (use S(4) False in \<open>simp_all add: down_dead_def\<close>)
    have "down_stream ?t = down_stream t @ [gob_response ?p, to_gob body]"
      by (simp add: down_stream_def split: reader_pc.split)
    then have "simulates (on_gob_conn c (on_server_codec sc s)) ?t"
      using S sc put down ups
      by (simp add: simulates_def on_gob_conn_def on_server_codec_def up_dead_def down_dead_def on_conn_def)
    moreover have "server_side decA t ?t" using ns_write [OF wr, of decA] last by simp
    ultimately show ?thesis by blast
  qed
qed

lemma loop_simulated:
  assumes "simulates s t" "(\<forall>f. so_loop (gn_serve s) \<noteq> LBody f) \<and> (\<forall>f. so_loop v \<noteq> LBody f)"
    and "server_side decA t (t\<lparr>nt_serve := v\<rparr>)"
  shows "\<exists>t'. (server_side decA t t' \<or> t' = t) \<and> simulates (s\<lparr>gn_serve := v\<rparr>) t'"
  using serve_simulated [OF assms(1), of v] assms(2,3) by (intro exI [of _ "t\<lparr>nt_serve := v\<rparr>"]) simp

lemma gob_server_simulated:
  assumes "gob_server_side s s'" "simulates s t"
  shows "\<exists>t'. (server_side gob_args t t' \<or> t' = t) \<and> simulates s' t'"
  using assms(1)
proof (cases rule: gob_server_side.cases)
  case (gns_get v)
  show ?thesis
    unfolding gns_get(1)
    by (rule loop_simulated [OF assms(2) loop_kept(1) [OF gns_get(2)] ns_get])
       (use gns_get(2) simulatesD(2) [OF assms(2)] in simp)
next
  case (gns_header h sc v)
  then show ?thesis using request_read_simulated [OF assms(2)] by blast
next
  case (gns_body found b sc v)
  then show ?thesis using arguments_read_simulated [OF assms(2)] by blast
next
  case (gns_replied v)
  show ?thesis
    unfolding gns_replied(1)
    by (rule loop_simulated [OF assms(2) loop_kept(2) [OF gns_replied(2)] ns_replied])
       (use gns_replied(2) simulatesD(2) [OF assms(2)] in simp)
next
  case (gns_close v k r sc)
  let ?t = "t\<lparr>nt_serve := v\<rparr>"
  have sim: "simulates (s\<lparr>gn_serve := v\<rparr>) ?t"
    by (rule serve_simulated [OF assms(2)]) (use loop_kept(3) [OF gns_close(2)] in simp_all)
  have sc: "gs_dec sc = gs_dec (gn_sc s)" "gs_writer sc = gs_writer (gn_sc s)" "gs_closed sc"
    using gns_close(3) by (auto simp: gserver_close_def split: if_splits)
  note S = simulatesD [OF sim]
  have "arrived (gi_msgs (gc_dec (gn_cc s'))) (down_dead s') (down_stream ?t)"
    unfolding gns_close(1) by (rule arrived_mono) (use S(4) sc(3) in \<open>simp_all add: dead_defs\<close>)
  then have "simulates s' ?t" using S sc unfolding gns_close(1) by (simp add: simulates_def up_dead_def)
  moreover have "server_side gob_args t ?t"
    by (rule ns_close) (use gns_close(2) simulatesD(2) [OF assms(2)] in simp)
  ultimately show ?thesis by blast
next
  case (gns_cancel v)
  show ?thesis
    unfolding gns_cancel(1)
    by (rule loop_simulated [OF assms(2) loop_kept(4) [OF gns_cancel(2)] ns_cancel])
       (use gns_cancel(2) simulatesD(2) [OF assms(2)] in simp)
next
  case (gns_job c)
  then show ?thesis
    using conn_simulated [OF assms(2)] ns_job [of t c] simulatesD(2) [OF assms(2)] by auto
next
  case (gns_write j a body h b w1 w2 w3 k r sc c)
  then show ?thesis using response_simulated [OF assms(2) gns_write(2-5), where decA = gob_args] by auto
next
  case (gns_env c)
  then show ?thesis
    using conn_simulated [OF assms(2)] ns_env [of t c] simulatesD(2) [OF assms(2)] by auto
next
  case (gns_ended n)
  then have "simulates s' t"
    using simulatesD [OF assms(2)] arrived_cut by (auto simp: simulates_def dead_defs)
  then show ?thesis by blast
qed

lemma gob_net_simulated:
  assumes "gob_reach rty srv s"
  shows "\<exists>t. net_reach gob_args (gob_replies rty) srv t \<and> simulates s t"
  using assms
proof (induction rule: gob_reach.induct)
  case (gr_new oreqs oresps st eu ed)
  have "simulates (new_gob_net srv oreqs oresps st eu ed) (new_net srv oreqs oresps st)"
    using gr_new(3)
    by (simp add: simulates_def new_gob_net_def new_net_def up_stream_def down_stream_def new_gob_client_def
        new_gob_server_def writer_idle_def new_basic_client_def new_client_def new_client_with_codec_def serve_conn_def serve_codec_def new_writer_def writer_ok_def
        split: prod.splits)
  then show ?case using nr_new [OF gr_new(1,2)] by blast
next
  case (gr_client s s')
  then show ?case using gob_client_simulated nr_client by blast
next
  case (gr_server s s')
  then show ?case using gob_server_simulated nr_server by blast
qed


section \<open>What gob makes of values it cannot decode\<close>

lemma from_gob_error: "from_gob t g = Inl e \<Longrightarrow> e = gob_mismatch"
proof (induction t arbitrary: g e)
  case (TBasic n)
  then show ?case by (auto simp: basic_from_gob_def split: if_splits gob.splits)
next
  case (TNamed p n u)
  then show ?case by (auto simp: map_sum_def split: gotype.splits sum.splits)
next
  case (TPtr t)
  then show ?case by (auto simp: map_sum_def split: sum.splits)
next
  case (TSlice t)
  then show ?case by (auto simp: map_sum_def split: sum.splits gob.splits dest!: sequence_Inl)
next
  case (TStruct fs)
  then show ?case
    by (auto simp: map_sum_def struct_fields_def split: sum.splits gob.splits if_splits option.splits
        dest!: sequence_Inl)
next
  case (TMapOf k t)
  then show ?case by (auto split: gob.splits)
qed simp

lemma gob_args_error: "\<forall>ty x e. gob_args ty x = Inl e \<longrightarrow> error_text e \<noteq> []"
  by (auto simp: gob_args_def body_from_gob_def gob_mismatch_def dest!: from_gob_error split: option.splits)


section \<open>Concrete runs\<close>

text \<open>Steps on a connection that does not fail, with messages of 40 and 9 bytes.\<close>

datatype gact =
    GClient act
  | GSend nat
  | GHeader
  | GBody
  | GServe sact
  | GWrite nat
  | GReadHeader
  | GReadBody

fun gact_step :: "(nat \<Rightarrow> gotype option) \<Rightarrow> gact \<Rightarrow> gob_net \<Rightarrow> gob_net option" where
  "gact_step rty (GClient a) s =
     (if quiet_act a then map_option (\<lambda>c. s\<lparr>gn_client := c\<rparr>) (act_step a (gn_client s)) else None)"
| "gact_step rty (GSend k) s =
     (case gclient_write_request (Encoded 40) (Encoded 9) Wrote Wrote Wrote (cl_request (gn_client s))
             (c_args (cl_calls (gn_client s) k)) (gn_cc s) of
        (r, cc) \<Rightarrow> map_option (\<lambda>c. (on_client_codec cc s)\<lparr>gn_client := c\<rparr>) (send_write r k (gn_client s)))"
| "gact_step rty GHeader s =
     (if readable (gn_down_ended s) (gc_dec (gn_cc s))
      then (case gclient_read_header (gn_cc s) of
              (h, cc) \<Rightarrow> map_option (\<lambda>c. s\<lparr>gn_client := c, gn_cc := cc\<rparr>) (input_header h (gn_client s)))
      else None)"
| "gact_step rty GBody s =
     (if readable (gn_down_ended s) (gc_dec (gn_cc s))
      then (case gclient_read_body (reply_target rty (cl_reader (gn_client s))) (gn_cc s) of
              (b, cc) \<Rightarrow> map_option (\<lambda>c. s\<lparr>gn_client := c, gn_cc := cc\<rparr>) (input_body b (gn_client s)))
      else None)"
| "gact_step rty (GServe a) s =
     (if codec_act a then map_option (\<lambda>t. s\<lparr>gn_serve := t\<rparr>) (sact_step a (gn_serve s)) else None)"
| "gact_step rty (GWrite j) s =
     (case j_pc (cn_jobs (so_conn (gn_serve s)) j) of
        JWriting a body \<Rightarrow>
          if gs_closed (gn_sc s) then None
          else (case gserver_write_response (Encoded 40) (Encoded 9) Wrote Wrote Wrote None
                       (resp_obj (cn_server (so_conn (gn_serve s))) a) body (gn_sc s) of
                  (r, sc) \<Rightarrow>
                    map_option (\<lambda>c. on_gob_conn c (on_server_codec sc s)) (job_write j (so_conn (gn_serve s))))
      | _ \<Rightarrow> None)"
| "gact_step rty GReadHeader s =
     (if readable (gn_up_ended s) (gs_dec (gn_sc s))
      then (case gserver_read_header (gn_sc s) of
              (h, sc) \<Rightarrow> map_option (\<lambda>t. s\<lparr>gn_serve := t, gn_sc := sc\<rparr>) (serve_header h (gn_serve s)))
      else None)"
| "gact_step rty GReadBody s =
     (case so_loop (gn_serve s) of
        LBody found \<Rightarrow>
          if readable (gn_up_ended s) (gs_dec (gn_sc s))
          then (case gserver_read_body (body_target found) (gn_sc s) of
                  (b, sc) \<Rightarrow> map_option (\<lambda>t. s\<lparr>gn_serve := t, gn_sc := sc\<rparr>) (serve_body b (gn_serve s)))
          else None
      | _ \<Rightarrow> None)"

fun gact_run :: "(nat \<Rightarrow> gotype option) \<Rightarrow> gact list \<Rightarrow> gob_net \<Rightarrow> gob_net option" where
  "gact_run rty [] s = Some s"
| "gact_run rty (a # as) s = (case gact_step rty a s of None \<Rightarrow> None | Some t \<Rightarrow> gact_run rty as t)"

lemma gact_serve_sound:
  assumes "sact_step a (gn_serve s) = Some t" "codec_act a"
  shows "gob_server_side s (s\<lparr>gn_serve := t\<rparr>)"
proof (cases a)
  case (SJob d)
  with assms obtain c where "job_step (so_conn (gn_serve s)) c" "s\<lparr>gn_serve := t\<rparr> = on_gob_conn c s"
      "cn_wire c = cn_wire (so_conn (gn_serve s))"
    by (auto simp: on_gob_conn_def dest: cact_step_job cact_step_wire split: if_splits)
  then show ?thesis by (auto intro: gns_job)
qed (use assms in \<open>auto intro: gob_server_side.intros\<close>)

lemma gact_step_sound: "gact_step rty a s = Some t \<Longrightarrow> gob_client_side rty s t \<or> gob_server_side s t"
proof (cases a)
  case (GClient b)
  assume "gact_step rty a s = Some t"
  with GClient show ?thesis by (auto dest: act_step_caller act_step_sent intro: gnc_caller split: if_splits)
next
  case (GServe b)
  assume "gact_step rty a s = Some t"
  with GServe show ?thesis by (auto dest: gact_serve_sound split: if_splits)
next
  case (GWrite j)
  assume "gact_step rty a s = Some t"
  with GWrite show ?thesis
    by (auto intro: gns_write simp: refused_by_def split: job_pc.splits if_splits prod.splits)
qed (auto intro: gob_client_side.intros gob_server_side.intros
       split: prod.splits if_splits loop_pc.splits)

lemma gact_run_reach: "gob_reach rty srv s \<Longrightarrow> gact_run rty as s = Some t \<Longrightarrow> gob_reach rty srv t"
  by (induction as arbitrary: s)
     (auto split: option.splits dest!: gact_step_sound intro: gr_client gr_server)

definition int_reply :: "nat \<Rightarrow> gotype option" where
  "int_reply c = Some (TBasic ''int'')"

definition gob_call_run :: "gact list" where
  "gob_call_run =
     [GClient (ACall ''Arith.Add'' (VPtr (VStruct ''Args'' [(''A'', VInt 7)])) (Some (VInt 0))),
      GClient (AEnter 0), GSend 0, GServe SGet, GReadHeader, GReadBody] @
     map (GServe \<circ> SJob) [CStart 0, CReturn (VPtr (VInt 15)) None 0, CPrepare 0, CLock 0] @
     [GWrite 0, GHeader, GBody, GClient (AReceive 0)]"

definition new_arith_net :: gob_net where
  "new_arith_net = new_gob_net arith_server {} {} fresh_store EOF EOF"

lemma new_arith_net_reach: "gob_reach rty arith_server new_arith_net"
  unfolding new_arith_net_def
  by (rule gr_new [OF ready_arith])
     (simp_all add: fresh_store_def root_ctxs_def ctx_err_def background_def)

lemmas gob_eval [run_eval] = new_arith_net_def new_gob_net_def new_client_def new_client_with_codec_def
  serve_conn_def on_gob_conn_def on_client_codec_def
  on_server_codec_def readable_def feed_def put_since_def reply_target_def int_reply_def
  gclient_read_header_def gclient_read_body_def gserver_read_header_def gserver_read_body_def
  decode_next_def gob_next_def gob_write_eval body_from_gob_def body_target_def

lemma gob_call_run_ends:
  "\<exists>s. gact_run int_reply gob_call_run new_arith_net = Some s \<and> cl_ncalls (gn_client s) = 1 \<and>
     cl_caller (gn_client s) 0 = Some (CDone None) \<and> c_reply (cl_calls (gn_client s) 0) = Some (VInt 15)"
  by (simp add: gob_call_run_def run_eval cancel_func_def add_method_def get_argv_def basic_from_gob_def
      struct_fields_def is_exported_def is_prefix_of_def)

lemma gob_call_run_reach:
  obtains s where "gob_reach int_reply arith_server s" "cl_ncalls (gn_client s) = 1"
    "cl_caller (gn_client s) 0 = Some (CDone None)" "c_reply (cl_calls (gn_client s) 0) = Some (VInt 15)"
  using gob_call_run_ends gact_run_reach [OF new_arith_net_reach] by (elim exE conjE) (rule that)


section \<open>Properties\<close>





end
