(* ===== verification/BirpcNetwork.thy ===== *)
theory BirpcNetwork
  imports NetworkProps BirpcProps
begin

text \<open>
  Two bidirectional clients on the two ends of one connection: the steps of BirpcClient with the messages
  their loops read no longer arbitrary, but those the other peer wrote, requests and responses in one
  stream per direction. The peers are \<open>True\<close> and \<open>False\<close>; \<open>bn_sent p\<close> is what peer \<open>p\<close> has written and the
  other has not read, \<open>bn_read p\<close> what \<open>p\<close> has read. As in Network the connection may fail, either side may
  close, a request may arrive although its writing failed, the codec's decoding is the arguments \<open>decA\<close>
  and \<open>decR\<close>, and each peer's registry is the one it had in the beginning.

  A connection is a pair of networks, one for each direction: \<open>link p s\<close> is the state of Network with the
  client half of \<open>p\<close> and the serving half of the other peer. It is a view, not a reachable state of Network
  (the loops differ); BirpcNetworkProps shows that it has Network's invariants.
\<close>

section \<open>Messages\<close>

datatype message = MRequest request goval | MResponse response goval

text \<open>\<open>ReadHeader\<close>: a message that names no method is taken for a response.\<close>

fun header_of :: "message \<Rightarrow> request \<times> response" where
  "header_of (MRequest q x) =
     (if req_method q \<noteq> [] then (q, zero_response) else (zero_request, \<lparr>resp_seq = req_seq q, resp_error = []\<rparr>))"
| "header_of (MResponse p x) = (zero_request, p)"

fun body_of :: "message \<Rightarrow> goval" where
  "body_of (MRequest q x) = x"
| "body_of (MResponse p x) = x"

fun as_request :: "message \<Rightarrow> (request \<times> goval) list" where
  "as_request (MRequest q x) = [(q, x)]"
| "as_request (MResponse p x) = []"

fun as_response :: "message \<Rightarrow> (response \<times> goval) list" where
  "as_response (MRequest q x) = []"
| "as_response (MResponse p x) = [(p, x)]"

definition requests :: "message list \<Rightarrow> (request \<times> goval) list" where
  "requests ms = concat (map as_request ms)"

definition responses :: "message list \<Rightarrow> (response \<times> goval) list" where
  "responses ms = concat (map as_response ms)"

lemma requests_simps [simp]:
  "requests [] = []" "requests (m # ms) = as_request m @ requests ms" "requests (ms @ ms') = requests ms @ requests ms'"
  by (simp_all add: requests_def)

lemma responses_simps [simp]:
  "responses [] = []" "responses (m # ms) = as_response m @ responses ms"
  "responses (ms @ ms') = responses ms @ responses ms'"
  by (simp_all add: responses_def)


section \<open>State and steps\<close>

record birpc_net =
  bn_peer :: "bool \<Rightarrow> birpc"
  bn_sent :: "bool \<Rightarrow> message list"
  bn_read :: "bool \<Rightarrow> message list"

definition at_peer :: "bool \<Rightarrow> birpc \<Rightarrow> birpc_net \<Rightarrow> birpc_net" where
  "at_peer p b s = s\<lparr>bn_peer := (bn_peer s)(p := b)\<rparr>"

definition transmit :: "bool \<Rightarrow> message \<Rightarrow> birpc_net \<Rightarrow> birpc_net" where
  "transmit p m s = s\<lparr>bn_sent := (bn_sent s)(p := bn_sent s p @ [m])\<rparr>"

definition receive :: "bool \<Rightarrow> birpc_net \<Rightarrow> birpc_net" where
  "receive p s =
     s\<lparr>bn_sent := (bn_sent s)(\<not> p := tl (bn_sent s (\<not> p))), bn_read := (bn_read s)(p := bn_read s p @ [hd (bn_sent s (\<not> p))])\<rparr>"

text \<open>Steps of a peer that neither read nor write.\<close>

inductive own_step :: "birpc \<Rightarrow> birpc \<Rightarrow> bool" where
  os_get: "birpc_get b = Some t \<Longrightarrow> own_step b t"
| os_replied: "birpc_replied b = Some t \<Longrightarrow> own_step b t"
| os_free: "birpc_free b = Some t \<Longrightarrow> own_step b t"
| os_lookup: "birpc_lookup b = Some t \<Longrightarrow> own_step b t"
| os_terminate: "birpc_terminate ks b = Some t \<Longrightarrow> own_step b t"
| os_wait: "birpc_wait b = Some t \<Longrightarrow> own_step b t"
| os_shut: "birpc_shut b = Some t \<Longrightarrow> own_step b t"
| os_cancel: "birpc_cancel b = Some t \<Longrightarrow> own_step b t"
| os_caller: "caller_step (cn_sending (bp_conn b) = None) (bp_client b) c \<Longrightarrow>
    cl_tried c = cl_tried (bp_client b) \<Longrightarrow> own_step b (b\<lparr>bp_client := c\<rparr>)"
| os_close: "birpc_user_close w b = (r, t) \<Longrightarrow> own_step b t"
| os_job: "job_step (bp_conn b) c \<Longrightarrow> cn_wire c = cn_wire (bp_conn b) \<Longrightarrow>
    (cn_sending (bp_conn b) = None \<Longrightarrow> cn_sending c \<noteq> None \<Longrightarrow> cl_reqmu (bp_client b) = None) \<Longrightarrow>
    own_step b (b\<lparr>bp_conn := c\<rparr>)"
| os_env: "env_step (bp_conn b) c \<Longrightarrow> bs_services (cn_server c) = bs_services (cn_server (bp_conn b)) \<Longrightarrow>
    own_step b (b\<lparr>bp_conn := c\<rparr>)"

text \<open>The steps of peer \<open>p\<close>.\<close>

inductive peer_step :: "arg_decoder \<Rightarrow> (bool \<Rightarrow> reply_decoder) \<Rightarrow> bool \<Rightarrow> birpc_net \<Rightarrow> birpc_net \<Rightarrow> bool" for decA decR p where
  ps_own: "own_step (bn_peer s p) b \<Longrightarrow> peer_step decA decR p s (at_peer p b s)"
| ps_send: "send_write None k (bp_client (bn_peer s p)) = Some c \<Longrightarrow> last (cl_tried c) = (q, x) \<Longrightarrow>
    peer_step decA decR p s (transmit p (MRequest q x) (at_peer p ((bn_peer s p)\<lparr>bp_client := c\<rparr>) s))"
| ps_refused: "send_write (Some e) k (bp_client (bn_peer s p)) = Some c \<Longrightarrow>
    peer_step decA decR p s (at_peer p ((bn_peer s p)\<lparr>bp_client := c\<rparr>) s)"
| ps_torn: "send_write (Some e) k (bp_client (bn_peer s p)) = Some c \<Longrightarrow> last (cl_tried c) = (q, x) \<Longrightarrow>
    peer_step decA decR p s (transmit p (MRequest q x) (at_peer p ((bn_peer s p)\<lparr>bp_client := c\<rparr>) s))"
| ps_header: "bn_sent s (\<not> p) = m # ms \<Longrightarrow> birpc_header (Inr (header_of m)) (bn_peer s p) = Some b \<Longrightarrow>
    peer_step decA decR p s (receive p (at_peer p b s))"
| ps_no_header: "birpc_header (Inl e) (bn_peer s p) = Some b \<Longrightarrow> peer_step decA decR p s (at_peer p b s)"
| ps_request: "bp_loop (bn_peer s p) = BBody found \<Longrightarrow>
    birpc_request (decA (body_target found) (body_of (last (bn_read s p)))) (bn_peer s p) = Some b \<Longrightarrow>
    peer_step decA decR p s (at_peer p b s)"
| ps_no_request: "birpc_request (Inl e) (bn_peer s p) = Some b \<Longrightarrow> error_text e \<noteq> [] \<Longrightarrow>
    peer_step decA decR p s (at_peer p b s)"
| ps_reply: "cl_reader (bp_client (bn_peer s p)) = RGot (Some k) r \<Longrightarrow> resp_error r = [] \<Longrightarrow>
    birpc_reply (decR p k (body_of (last (bn_read s p)))) (bn_peer s p) = Some b \<Longrightarrow> peer_step decA decR p s (at_peer p b s)"
| ps_discard: "cl_reader (bp_client (bn_peer s p)) = RGot k r \<Longrightarrow> k = None \<or> resp_error r \<noteq> [] \<Longrightarrow>
    birpc_reply (Inr v) (bn_peer s p) = Some b \<Longrightarrow> peer_step decA decR p s (at_peer p b s)"
| ps_no_reply: "birpc_reply (Inl e) (bn_peer s p) = Some b \<Longrightarrow> peer_step decA decR p s (at_peer p b s)"
| ps_write: "job_write j (bp_conn (bn_peer s p)) = Some c \<Longrightarrow> snd (last (cn_wire c)) = (r, x) \<Longrightarrow>
    peer_step decA decR p s (transmit p (MResponse r x) (at_peer p ((bn_peer s p)\<lparr>bp_conn := c\<rparr>) s))"
| ps_no_write: "job_write j (bp_conn (bn_peer s p)) = Some c \<Longrightarrow>
    peer_step decA decR p s (at_peer p ((bn_peer s p)\<lparr>bp_conn := c\<rparr>) s)"

text \<open>
  Peer \<open>p\<close> starts as the client object \<open>me p\<close> on the registry \<open>srv p\<close>, with its own free lists and contexts.
\<close>

definition new_birpc_net ::
  "(bool \<Rightarrow> nat) \<Rightarrow> (bool \<Rightarrow> basic_server) \<Rightarrow> (bool \<Rightarrow> nat set) \<Rightarrow> (bool \<Rightarrow> nat set) \<Rightarrow> (bool \<Rightarrow> svc_store) \<Rightarrow> birpc_net" where
  "new_birpc_net me srv oreqs oresps st =
     \<lparr>bn_peer = (\<lambda>p. birpc_start (me p) (srv p) (oreqs p) (oresps p) (st p)),
      bn_sent = (\<lambda>p. []), bn_read = (\<lambda>p. [])\<rparr>"

inductive birpc_net_reach ::
  "arg_decoder \<Rightarrow> (bool \<Rightarrow> reply_decoder) \<Rightarrow> (bool \<Rightarrow> basic_server) \<Rightarrow> birpc_net \<Rightarrow> bool" for decA decR srv where
  bnr_new: "(\<And>p. ready_server (srv p) (oreqs p) (oresps p) background (st p)) \<Longrightarrow>
    (\<And>p. ctx_err (ss_ctxs (st p)) (g_std background) = None) \<Longrightarrow>
    birpc_net_reach decA decR srv (new_birpc_net me srv oreqs oresps st)"
| bnr_step: "birpc_net_reach decA decR srv s \<Longrightarrow> peer_step decA decR p s t \<Longrightarrow> birpc_net_reach decA decR srv t"

lemma at_peer_simps [simp]:
  "bn_peer (at_peer p b s) q = (if q = p then b else bn_peer s q)"
  "bn_sent (at_peer p b s) = bn_sent s" "bn_read (at_peer p b s) = bn_read s"
  by (simp_all add: at_peer_def)

lemma transmit_simps [simp]:
  "bn_peer (transmit p m s) = bn_peer s" "bn_read (transmit p m s) = bn_read s"
  "bn_sent (transmit p m s) q = (if q = p then bn_sent s p @ [m] else bn_sent s q)"
  by (simp_all add: transmit_def)

lemma receive_simps [simp]:
  "bn_peer (receive p s) = bn_peer s"
  "bn_read (receive p s) q = (if q = p then bn_read s p @ [hd (bn_sent s (\<not> p))] else bn_read s q)"
  "bn_sent (receive p s) q = (if q = p then bn_sent s q else tl (bn_sent s (\<not> p)))"
  by (auto simp: receive_def)


section \<open>One direction\<close>

text \<open>Between \<open>ReadHeader\<close> and the lookup of its call a response has been read, but not yet by the client half.\<close>

fun looking :: "birpc_pc \<Rightarrow> bool" where
  "looking (BFree r) = True"
| "looking (BLookup r) = True"
| "looking l = False"

fun as_loop :: "birpc_pc \<Rightarrow> loop_pc" where
  "as_loop (BBody found) = LBody found"
| "as_loop l = LRead"

definition serving :: "birpc \<Rightarrow> serve" where
  "serving b = \<lparr>so_conn = bp_conn b, so_loop = as_loop (bp_loop b), so_once = False, so_headers = bp_requests b, so_closed = 0\<rparr>"

definition link :: "bool \<Rightarrow> birpc_net \<Rightarrow> net" where
  "link p s =
     (let b = bn_peer s p; ms = bn_read s p
      in \<lparr>nt_client = bp_client b, nt_serve = serving (bn_peer s (\<not> p)),
          nt_up = requests (bn_sent s p), nt_read = requests (bn_read s (\<not> p)),
          nt_down = responses ((if looking (bp_loop b) then [last ms] else []) @ bn_sent s (\<not> p)),
          nt_got = responses (if looking (bp_loop b) then butlast ms else ms), nt_lost = False\<rparr>)"

lemma serving_simps [simp]:
  "so_conn (serving b) = bp_conn b" "so_loop (serving b) = as_loop (bp_loop b)"
  "so_headers (serving b) = bp_requests b"
  by (simp_all add: serving_def)

lemma link_simps [simp]:
  "nt_client (link p s) = bp_client (bn_peer s p)" "nt_serve (link p s) = serving (bn_peer s (\<not> p))"
  "nt_up (link p s) = requests (bn_sent s p)" "nt_read (link p s) = requests (bn_read s (\<not> p))"
  by (simp_all add: link_def Let_def)

text \<open>What the loop of a peer is about to handle is the message it read last.\<close>

fun handles :: "birpc_pc \<Rightarrow> message list \<Rightarrow> bool" where
  "handles (BBody found) ms \<longleftrightarrow> (\<exists>q x. ms \<noteq> [] \<and> last ms = MRequest q x)"
| "handles (BFree r) ms \<longleftrightarrow> (\<exists>x. ms \<noteq> [] \<and> last ms = MResponse r x)"
| "handles (BLookup r) ms \<longleftrightarrow> (\<exists>x. ms \<noteq> [] \<and> last ms = MResponse r x)"
| "handles BReply ms \<longleftrightarrow> (\<exists>r x. ms \<noteq> [] \<and> last ms = MResponse r x)"
| "handles l ms \<longleftrightarrow> True"


section \<open>The peers are bidirectional clients\<close>

lemma own_step_birpc: "own_step b t \<Longrightarrow> birpc_step b t"
proof (induction rule: own_step.induct)
  case (os_job b c)
  then show ?case by (intro bs_job) simp_all
next
  case (os_caller b c)
  then show ?case by (intro bs_caller)
next
  case (os_env b c)
  then show ?case by (intro bs_env)
next
  case (os_close w b r t)
  then show ?case by (rule bs_close)
qed (rule birpc_step.intros, assumption)+

lemma peer_step_birpc:
  assumes "peer_step decA decR p s t"
  shows "birpc_step (bn_peer s p) (bn_peer t p) \<and> (\<forall>q. q \<noteq> p \<longrightarrow> bn_peer t q = bn_peer s q)"
  using assms
proof (cases rule: peer_step.cases)
  case (ps_own b)
  then show ?thesis using own_step_birpc by simp
next
  case (ps_send k c q x)
  then show ?thesis by (auto intro!: bs_caller ca_write)
next
  case (ps_refused e k c)
  then show ?thesis by (auto intro!: bs_caller ca_write)
next
  case (ps_torn e k c q x)
  then show ?thesis by (auto intro!: bs_caller ca_write)
next
  case (ps_write j c r x)
  then show ?thesis by (auto elim: job_writeE intro!: bs_job js_write)
next
  case (ps_no_write j c)
  then show ?thesis by (auto elim: job_writeE intro!: bs_job js_write)
qed (auto intro: birpc_step.intros)

lemma birpc_net_reach_peers: "birpc_net_reach decA decR srv s \<Longrightarrow> birpc_reach (bn_peer s p)"
proof (induction arbitrary: p rule: birpc_net_reach.induct)
  case (bnr_new oreqs oresps st me)
  then show ?case by (auto simp: new_birpc_net_def intro: br_start)
next
  case (bnr_step s q t)
  then show ?case using peer_step_birpc [OF bnr_step(2)] br_step by (cases "p = q") auto
qed

end
