(* ===== verification/BirpcNetworkProps.thy ===== *)
theory BirpcNetworkProps
  imports BirpcNetwork
begin

text \<open>
  Each direction of a connection between two bidirectional clients has the invariants of Network: a step
  of a peer is a step of the client in one direction and of the server in the other. So a call of either
  peer gets from the other what a client gets from a server.
\<close>

section \<open>The client half\<close>

lemma link_client:
  assumes "bp_client b = c" "looking (bp_loop b) = looking (bp_loop (bn_peer s p))"
  shows "link p (at_peer p b s) = (link p s)\<lparr>nt_client := c\<rparr>"
  using assms by (simp add: link_def Let_def)

lemma link_client_same:
  assumes "bp_client b = bp_client (bn_peer s p)" "looking (bp_loop b) = looking (bp_loop (bn_peer s p))"
  shows "link p (at_peer p b s) = link p s"
  using assms by (simp add: link_def Let_def)

lemma caller_step_free: "caller_step f s t \<Longrightarrow> caller_step True s t"
  by (induction rule: caller_step.induct) (auto intro: caller_step.intros)

text \<open>The last response is the last of the responses.\<close>

lemma last_response:
  assumes "ms \<noteq> []" "last ms = MResponse r x"
  shows "responses ms = responses (butlast ms) @ [(r, x)]"
proof -
  have "ms = butlast ms @ [MResponse r x]" using assms by (metis append_butlast_last_id)
  then have "responses ms = responses (butlast ms @ [MResponse r x])" by simp
  then show ?thesis by simp
qed

lemma link_client_lookup:
  assumes "bp_loop (bn_peer s p) = BLookup r" "handles (BLookup r) (bn_read s p)"
    and "input_header (Inr r) (bp_client (bn_peer s p)) = Some c"
    and "bp_client b = c" "bp_loop b = BReply"
  shows "client_moves decR (link p s) (link p (at_peer p b s))"
proof -
  obtain x where x: "bn_read s p \<noteq> []" "last (bn_read s p) = MResponse r x" using assms(2) by auto
  note l = last_response [OF x]
  have "nt_down (link p s) = (r, x) # responses (bn_sent s (\<not> p))"
    using assms(1) x(2) by (simp add: link_def Let_def)
  from nc_header [OF this, of c decR] assms(3)
  have "client_side decR (link p s) ((link p s)\<lparr>nt_client := c, nt_down := responses (bn_sent s (\<not> p)),
      nt_got := nt_got (link p s) @ [(r, x)]\<rparr>)" by simp
  also have "(link p s)\<lparr>nt_client := c, nt_down := responses (bn_sent s (\<not> p)), nt_got := nt_got (link p s) @ [(r, x)]\<rparr> =
      link p (at_peer p b s)"
    using assms(1,4,5) l by (simp add: link_def Let_def)
  finally show ?thesis by (rule client_moves_step) (rule refl)
qed

lemma link_client_own:
  assumes "own_step (bn_peer s p) b" "handles (bp_loop (bn_peer s p)) (bn_read s p)"
  shows "client_moves decR (link p s) (link p (at_peer p b s))"
  using assms(1)
proof (cases rule: own_step.cases)
  case os_lookup
  then show ?thesis
  proof (rule birpc_lookupE)
    fix r c assume *: "bp_loop (bn_peer s p) = BLookup r" "input_header (Inr r) (bp_client (bn_peer s p)) = Some c"
      "b = (bn_peer s p)\<lparr>bp_client := c, bp_loop := BReply\<rparr>"
    show ?thesis by (rule link_client_lookup [OF *(1) _ *(2)]) (use assms(2) * in simp_all)
  qed
next
  case (os_terminate ks)
  then show ?thesis
  proof (rule birpc_terminateE)
    fix c assume *: "bp_loop (bn_peer s p) = BTerm" "input_terminate ks (bp_client (bn_peer s p)) = Some c"
      "b = (bn_peer s p)\<lparr>bp_client := c, bp_loop := BWait (cl_closing (bp_client (bn_peer s p)))\<rparr>"
    have e: "link p (at_peer p b s) = (link p s)\<lparr>nt_client := c\<rparr>" by (rule link_client) (simp_all add: *(1,3))
    show ?thesis
      unfolding e by (rule client_moves_step [OF nc_terminate [where ks = ks] refl]) (simp add: *(2))
  qed
next
  case (os_caller c)
  have e: "link p (at_peer p b s) = (link p s)\<lparr>nt_client := c\<rparr>" by (rule link_client) (simp_all add: os_caller(1))
  show ?thesis
    unfolding e by (rule client_moves_step [OF nc_caller refl]) (use os_caller caller_step_free in simp_all)
next
  case (os_close w r)
  obtain r' called c where c: "client_close w (bp_client (bn_peer s p)) = (r', called, c)" by (metis prod_cases3)
  with os_close have b: "bp_client b = c" "bp_loop b = bp_loop (bn_peer s p)" by (auto simp: birpc_user_close_def)
  have e: "link p (at_peer p b s) = (link p s)\<lparr>nt_client := c\<rparr>" by (rule link_client) (simp_all add: b)
  have "client_side decR (link p s) ((link p s)\<lparr>nt_client := c, nt_lost := True\<rparr>)" by (rule nc_close [where w = w]) (simp add: c)
  then show ?thesis unfolding e by (auto intro: client_moves_lost [where l = True])
qed (auto simp: client_moves_def intro!: link_client_same
    elim!: birpc_getE birpc_repliedE birpc_freeE birpc_waitE birpc_shutE birpc_cancelE)

text \<open>What the loop does with a message it has read.\<close>

definition named :: "message \<Rightarrow> bool" where
  "named m \<longleftrightarrow> (\<forall>q x. m = MRequest q x \<longrightarrow> req_method q \<noteq> [])"

lemma conn_fill_request: "conn_fill q c = Some t \<Longrightarrow> current_request t = q"
  by (auto elim!: conn_fillE simp: current_request_def)

lemma birpc_header_named:
  assumes "birpc_header (Inr (header_of m)) b = Some t" "named m"
  obtains (request) q x c where "m = MRequest q x" "bp_loop b = BHeader" "conn_fill q (bp_conn b) = Some c"
      "t = b\<lparr>bp_conn := c, bp_requests := bp_requests b @ [q], bp_loop := BBody (get_service q (cn_server c))\<rparr>"
  | (response) r x c where "m = MResponse r x" "bp_loop b = BHeader" "conn_fill zero_request (bp_conn b) = Some c"
      "t = b\<lparr>bp_conn := c, bp_loop := BFree r\<rparr>"
proof (cases m)
  case (MRequest q x)
  then have q: "header_of m = (q, zero_response)" "req_method q \<noteq> []" using assms(2) by (simp_all add: named_def)
  with assms(1) obtain c where c: "bp_loop b = BHeader" "conn_fill q (bp_conn b) = Some c"
      "t = (if req_method (current_request c) \<noteq> []
            then b\<lparr>bp_conn := c, bp_requests := bp_requests b @ [q], bp_loop := BBody (get_service (current_request c) (cn_server c))\<rparr>
            else b\<lparr>bp_conn := c, bp_loop := BFree zero_response\<rparr>)"
    by (auto simp: birpc_header_def split: if_splits)
  then show thesis using request [OF MRequest c(1,2)] conn_fill_request [OF c(2)] q(2) by simp
next
  case (MResponse r x)
  with assms(1) obtain c where c: "bp_loop b = BHeader" "conn_fill zero_request (bp_conn b) = Some c"
      "t = (if req_method (current_request c) \<noteq> []
            then b\<lparr>bp_conn := c, bp_requests := bp_requests b @ [zero_request],
              bp_loop := BBody (get_service (current_request c) (cn_server c))\<rparr>
            else b\<lparr>bp_conn := c, bp_loop := BFree r\<rparr>)"
    by (auto simp: birpc_header_def split: if_splits)
  then show thesis using response [OF MResponse c(1,2)] conn_fill_request [OF c(2)] by (simp add: zero_request_def)
qed

lemma link_client_header:
  assumes "bn_sent s (\<not> p) = m # ms" "birpc_header (Inr (header_of m)) (bn_peer s p) = Some b" "named m"
  shows "link p (receive p (at_peer p b s)) = link p s"
  using assms(2,3) by (cases rule: birpc_header_named) (use assms(1) in \<open>simp_all add: link_def Let_def\<close>)

lemma link_client_reply:
  assumes "birpc_reply x (bn_peer s p) = Some b"
  obtains c where "input_body x (bp_client (bn_peer s p)) = Some c"
    "link p (at_peer p b s) = (link p s)\<lparr>nt_client := c\<rparr>" "bp_loop (bn_peer s p) = BReply"
  using assms
proof (rule birpc_replyE)
  fix c assume *: "bp_loop (bn_peer s p) = BReply" "input_body x (bp_client (bn_peer s p)) = Some c"
    "b = (bn_peer s p)\<lparr>bp_client := c, bp_loop := if cl_reader c = RReading then BRead else BTerm\<rparr>"
  show thesis by (rule that [OF *(2) link_client *(1)]) (simp_all add: *(1,3))
qed

lemma link_client_transmit:
  "link p (transmit p (MRequest q x) s) = (link p s)\<lparr>nt_up := nt_up (link p s) @ [(q, x)]\<rparr>"
  "link p (transmit p (MResponse r x) s) = link p s"
  by (simp_all add: link_def Let_def)

lemma last_reply:
  assumes "bp_loop (bn_peer s p) = BReply" "handles BReply (bn_read s p)"
  shows "snd (last (nt_got (link p s))) = body_of (last (bn_read s p))"
proof -
  obtain r x where x: "bn_read s p \<noteq> []" "last (bn_read s p) = MResponse r x" using assms(2) by auto
  show ?thesis using last_response [OF x] x(2) by (simp add: link_def Let_def assms(1))
qed

lemma link_client_torn:
  assumes "handles (bp_loop (bn_peer s p)) (bn_read s p)" "list_all named (bn_sent s (\<not> p))"
    and ps_torn: "t = transmit p (MRequest q x) (at_peer p ((bn_peer s p)\<lparr>bp_client := c\<rparr>) s)"
      "send_write (Some e) k (bp_client (bn_peer s p)) = Some c" "last (cl_tried c) = (q, x)"
  shows "client_moves (decR p) (link p s) (link p t)"
proof -
  have l: "link p t = (link p s)\<lparr>nt_client := c, nt_up := nt_up (link p s) @ [last (cl_tried c)]\<rparr>"
    unfolding ps_torn(1) link_client_transmit by (simp add: ps_torn(3) link_client)
  have "client_side (decR p) (link p s)
      ((link p s)\<lparr>nt_client := c, nt_up := nt_up (link p s) @ [last (cl_tried c)], nt_lost := True\<rparr>)"
    by (rule nc_torn [where e = e and k = k]) (simp add: ps_torn(2))
  then show ?thesis unfolding l by (auto intro: client_moves_lost [where l = True])
qed

lemma link_client_no_header:
  assumes "handles (bp_loop (bn_peer s p)) (bn_read s p)" "list_all named (bn_sent s (\<not> p))"
    and ps_no_header: "t = at_peer p b s" "birpc_header (Inl e) (bn_peer s p) = Some b"
  shows "client_moves (decR p) (link p s) (link p t)"
proof -
  from ps_no_header(2) show ?thesis
  proof (cases rule: birpc_headerE)
    case (stop e' c)
    have l: "link p t = (link p s)\<lparr>nt_client := c\<rparr>" unfolding ps_no_header(1) by (rule link_client) (simp_all add: stop)
    have "client_side (decR p) (link p s) ((link p s)\<lparr>nt_client := c, nt_lost := True\<rparr>)"
      by (rule nc_no_header [where e = e']) (use stop in simp)
    then show ?thesis unfolding l by (auto intro: client_moves_lost [where l = True])
  qed simp_all
qed

lemma link_client_replied:
  assumes "handles (bp_loop (bn_peer s p)) (bn_read s p)" "list_all named (bn_sent s (\<not> p))"
    and ps_reply: "t = at_peer p b s" "cl_reader (bp_client (bn_peer s p)) = RGot (Some k) r" "resp_error r = []"
      "birpc_reply (decR p k (body_of (last (bn_read s p)))) (bn_peer s p) = Some b"
  shows "client_moves (decR p) (link p s) (link p t)"
proof -
  from ps_reply(4) obtain c where c: "input_body (decR p k (body_of (last (bn_read s p)))) (bp_client (bn_peer s p)) = Some c"
      "link p t = (link p s)\<lparr>nt_client := c\<rparr>" "bp_loop (bn_peer s p) = BReply"
    unfolding ps_reply(1) by (rule link_client_reply)
  have "snd (last (nt_got (link p s))) = body_of (last (bn_read s p))" by (rule last_reply) (use c(3) assms(1) in simp_all)
  with c(1) ps_reply(2,3) show ?thesis
    unfolding c(2) by (intro client_moves_step [OF nc_body [where k = k and p = r] refl]) simp_all
qed

lemma link_client_discard:
  assumes "handles (bp_loop (bn_peer s p)) (bn_read s p)" "list_all named (bn_sent s (\<not> p))"
    and ps_discard: "t = at_peer p b s" "cl_reader (bp_client (bn_peer s p)) = RGot k r"
      "k = None \<or> resp_error r \<noteq> []" "birpc_reply (Inr v) (bn_peer s p) = Some b"
  shows "client_moves (decR p) (link p s) (link p t)"
proof -
  from ps_discard(4) obtain c where c: "input_body (Inr v) (bp_client (bn_peer s p)) = Some c"
      "link p t = (link p s)\<lparr>nt_client := c\<rparr>"
    unfolding ps_discard(1) by (rule link_client_reply)
  with ps_discard(2,3) show ?thesis
    unfolding c(2) by (intro client_moves_step [OF nc_discard [where k = k and p = r and v = v] refl]) simp_all
qed

lemma link_client_no_reply:
  assumes "handles (bp_loop (bn_peer s p)) (bn_read s p)" "list_all named (bn_sent s (\<not> p))"
    and ps_no_reply: "t = at_peer p b s" "birpc_reply (Inl e) (bn_peer s p) = Some b"
  shows "client_moves (decR p) (link p s) (link p t)"
proof -
  from ps_no_reply(2) obtain c where c: "input_body (Inl e) (bp_client (bn_peer s p)) = Some c"
      "link p t = (link p s)\<lparr>nt_client := c\<rparr>"
    unfolding ps_no_reply(1) by (rule link_client_reply)
  have "client_side (decR p) (link p s) ((link p s)\<lparr>nt_client := c, nt_lost := True\<rparr>)"
    by (rule nc_no_body [where e = e]) (simp add: c(1))
  then show ?thesis unfolding c(2) by (auto intro: client_moves_lost [where l = True])
qed

lemma link_client_step:
  assumes "peer_step decA decR p s t" "handles (bp_loop (bn_peer s p)) (bn_read s p)" "list_all named (bn_sent s (\<not> p))"
  shows "client_moves (decR p) (link p s) (link p t)"
  using assms(1)
proof (cases rule: peer_step.cases)
  case (ps_own b)
  then show ?thesis using link_client_own [OF _ assms(2)] by simp
next
  case (ps_send k c q x)
  have e: "link p t = (link p s)\<lparr>nt_client := c, nt_up := nt_up (link p s) @ [last (cl_tried c)]\<rparr>"
    unfolding ps_send(1) link_client_transmit by (simp add: ps_send(3) link_client)
  show ?thesis unfolding e by (rule client_moves_step [OF nc_send [where k = k] refl]) (simp add: ps_send(2))
next
  case (ps_refused e k c)
  have l: "link p t = (link p s)\<lparr>nt_client := c\<rparr>" unfolding ps_refused(1) by (simp add: link_client)
  show ?thesis unfolding l by (rule client_moves_step [OF nc_refused [where e = e and k = k] refl]) (simp add: ps_refused(2))
next
  case (ps_torn e k c q x)
  show ?thesis by (rule link_client_torn [OF assms(2-3) ps_torn])
next
  case (ps_header m ms b)
  have "link p t = link p s"
    unfolding ps_header(1) by (rule link_client_header [OF ps_header(2,3)]) (use assms(3) ps_header(2) in simp)
  then show ?thesis by (simp add: client_moves_def)
next
  case (ps_no_header e b)
  show ?thesis by (rule link_client_no_header [OF assms(2-3) ps_no_header])
next
  case (ps_reply k r b)
  show ?thesis by (rule link_client_replied [where decR = decR, OF assms(2-3) ps_reply])
next
  case (ps_discard k r v b)
  show ?thesis by (rule link_client_discard [OF assms(2-3) ps_discard])
next
  case (ps_no_reply e b)
  show ?thesis by (rule link_client_no_reply [OF assms(2-3) ps_no_reply])
next
  case (ps_request found b)
  have "link p t = link p s"
    unfolding ps_request(1) by (rule link_client_same) (use ps_request(3) in \<open>auto elim!: birpc_requestE\<close>)
  then show ?thesis by (simp add: client_moves_def)
next
  case (ps_no_request e b)
  have "link p t = link p s"
    unfolding ps_no_request(1) by (rule link_client_same) (use ps_no_request(2) in \<open>auto elim!: birpc_requestE\<close>)
  then show ?thesis by (simp add: client_moves_def)
next
  case (ps_write j c r x)
  then show ?thesis by (simp add: client_moves_def link_client_transmit link_client_same)
next
  case (ps_no_write j c)
  then show ?thesis by (simp add: client_moves_def link_client_same)
qed


section \<open>The serving half\<close>

lemma link_server: "link (\<not> p) (at_peer p b s) = (link (\<not> p) s)\<lparr>nt_serve := serving b\<rparr>"
  by (simp add: link_def Let_def)

lemma link_server_transmit:
  "link (\<not> p) (transmit p (MRequest q x) s) = link (\<not> p) s"
  "link (\<not> p) (transmit p (MResponse r x) s) = (link (\<not> p) s)\<lparr>nt_down := nt_down (link (\<not> p) s) @ [(r, x)]\<rparr>"
  by (simp_all add: link_def Let_def)

lemma link_server_same: "serving b = serving (bn_peer s p) \<Longrightarrow> link (\<not> p) (at_peer p b s) = link (\<not> p) s"
  unfolding link_server by (simp add: link_def Let_def)

lemma link_server_conn:
  assumes "bp_conn b = c" "bp_loop b = bp_loop (bn_peer s p)" "bp_requests b = bp_requests (bn_peer s p)"
  shows "link (\<not> p) (at_peer p b s) = on_conn c (link (\<not> p) s)"
  unfolding link_server by (simp add: link_def Let_def on_conn_def serving_def assms)

lemma conn_free_frame:
  "conn_free c = Some t \<Longrightarrow> cn_njobs t = cn_njobs c \<and> cn_jobs t = cn_jobs c \<and> cn_wire t = cn_wire c \<and>
     bs_services (cn_server t) = bs_services (cn_server c)"
  "conn_fill q c = Some t \<Longrightarrow> cn_njobs t = cn_njobs c \<and> cn_jobs t = cn_jobs c \<and> cn_wire t = cn_wire c \<and>
     bs_services (cn_server t) = bs_services (cn_server c)"
  "conn_get c = Some t \<Longrightarrow> cn_njobs t = cn_njobs c \<and> cn_jobs t = cn_jobs c \<and> cn_wire t = cn_wire c \<and>
     bs_services (cn_server t) = bs_services (cn_server c)"
  by (auto elim!: conn_freeE conn_fillE conn_getE dest: get_request_services)

lemma inv_net_link_quiet:
  assumes "inv_net decA decR srv (link (\<not> p) s)" "quiet (serving (bn_peer s p)) (serving b)"
  shows "inv_net decA decR srv (link (\<not> p) (at_peer p b s))"
  unfolding link_server by (rule inv_net_quiet [OF assms(1)]) (use assms(2) in simp)

lemma own_step_serving:
  assumes "own_step b t"
  obtains (same) "serving t = serving b" | (quiet) "quiet (serving b) (serving t)"
  | (job) c where "job_step (bp_conn b) c" "t = b\<lparr>bp_conn := c\<rparr>"
  | (env) c where "env_step (bp_conn b) c" "bs_services (cn_server c) = bs_services (cn_server (bp_conn b))"
      "t = b\<lparr>bp_conn := c\<rparr>"
  using assms
proof (cases rule: own_step.cases)
  case os_get
  then show thesis
    by (elim birpc_getE) (rule quiet, auto simp: quiet_def dest: conn_free_frame)
next
  case os_free
  then show thesis
    by (elim birpc_freeE) (rule quiet, auto simp: quiet_def dest: conn_free_frame)
next
  case os_cancel
  then show thesis by (elim birpc_cancelE) (rule quiet, simp add: quiet_def)
next
  case (os_close w r)
  then show thesis by (elim birpc_user_closeE) (rule same, simp add: serving_def)+
next
  case os_replied
  then show thesis by (elim birpc_repliedE) (rule same, simp add: serving_def)
next
  case os_lookup
  then show thesis by (elim birpc_lookupE) (rule same, simp add: serving_def)
next
  case (os_terminate ks)
  then show thesis by (elim birpc_terminateE) (rule same, simp add: serving_def)
next
  case os_wait
  then show thesis by (elim birpc_waitE) (rule same, simp add: serving_def)
next
  case os_shut
  then show thesis by (elim birpc_shutE) (rule same, simp add: serving_def)
next
  case (os_caller c)
  then show thesis by (intro same) (simp add: serving_def)
next
  case (os_job c)
  then show thesis by (intro job)
next
  case (os_env c)
  then show thesis by (intro env)
qed

lemma inv_net_link_own:
  assumes "inv_net decA decR srv (link (\<not> p) s)" "own_step (bn_peer s p) b"
  shows "inv_net decA decR srv (link (\<not> p) (at_peer p b s))"
  using assms(2)
proof (cases rule: own_step_serving)
  case same
  then show ?thesis using assms(1) by (simp only: link_server_same)
next
  case quiet
  then show ?thesis by (rule inv_net_link_quiet [OF assms(1)])
next
  case (job c)
  have e: "link (\<not> p) (at_peer p b s) = on_conn c (link (\<not> p) s)" by (rule link_server_conn) (simp_all add: job(2))
  show ?thesis unfolding e by (rule inv_net_job [OF assms(1)]) (simp add: job(1))
next
  case (env c)
  have e: "link (\<not> p) (at_peer p b s) = on_conn c (link (\<not> p) s)" by (rule link_server_conn) (simp_all add: env(3))
  show ?thesis
    unfolding e by (rule inv_net_conn [OF assms(1)]) (use env(2) env_step_frame [OF env(1)] in simp_all)
qed

text \<open>Headers read and jobs made.\<close>

lemma jobs_read:
  assumes "inv_jobs (bn_peer s p)" "inv_sent (link (\<not> p) s)"
  shows "map fst (requests (bn_read s p)) =
      map (\<lambda>j. j_head (cn_jobs (bp_conn (bn_peer s p)) j)) [0..<cn_njobs (bp_conn (bn_peer s p))] @
      (if bp_has_request (bp_loop (bn_peer s p)) then [current_request (bp_conn (bn_peer s p))] else [])"
  using inv_jobs_at [OF assms(1) refl] assms(2) by (auto simp: inv_sent_def jobs_inv_def)

lemma jobs_read_length:
  assumes "inv_jobs (bn_peer s p)" "inv_sent (link (\<not> p) s)"
  shows "length (requests (bn_read s p)) =
    cn_njobs (bp_conn (bn_peer s p)) + (if bp_has_request (bp_loop (bn_peer s p)) then 1 else 0)"
  using arg_cong [OF jobs_read [OF assms], of length] by simp

lemma inv_net_link_header:
  assumes "inv_net decA decR srv (link (\<not> p) s)" "inv_jobs (bn_peer s p)" "bn_sent s (\<not> p) = m # ms"
    and "birpc_header (Inr (header_of m)) (bn_peer s p) = Some b" "named m"
  shows "inv_net decA decR srv (link (\<not> p) (receive p (at_peer p b s)))"
  using assms(4,5)
proof (cases rule: birpc_header_named)
  case (request q x c)
  note f = conn_free_frame(2) [OF request(3)]
  have "length (nt_read (link (\<not> p) s)) = cn_njobs (so_conn (nt_serve (link (\<not> p) s)))"
    using jobs_read_length [OF assms(2)] assms(1) request(2) by (simp add: inv_net_def)
  then have "inv_net decA decR srv ((link (\<not> p) s)\<lparr>nt_serve := serving b, nt_up := requests ms,
      nt_read := nt_read (link (\<not> p) s) @ [(q, x)]\<rparr>)"
    by (intro inv_net_headed [OF assms(1)])
       (use f get_service_cong [of "cn_server c" "cn_server (bp_conn (bn_peer s p))" q] in
         \<open>simp_all add: request(1,4) assms(3)\<close>)
  also have "(link (\<not> p) s)\<lparr>nt_serve := serving b, nt_up := requests ms, nt_read := nt_read (link (\<not> p) s) @ [(q, x)]\<rparr> =
      link (\<not> p) (receive p (at_peer p b s))"
    using assms(3) request(1) by (simp add: link_def Let_def)
  finally show ?thesis .
next
  case (response r x c)
  have "link (\<not> p) (receive p (at_peer p b s)) = link (\<not> p) (at_peer p b s)"
    using assms(3) response(1) by (simp add: link_def Let_def)
  moreover have "quiet (serving (bn_peer s p)) (serving b)"
    using conn_free_frame(2) [OF response(3)] by (simp add: quiet_def response(4))
  ultimately show ?thesis using inv_net_link_quiet [OF assms(1)] by simp
qed


text \<open>A body makes the job of the request read last.\<close>

lemma birpc_request_job:
  assumes "birpc_request b s = Some t" "bp_loop s = BBody found"
  shows "bp_requests t = bp_requests s" "as_loop (bp_loop t) = LRead"
    "cn_njobs (bp_conn t) = Suc (cn_njobs (bp_conn s))" "cn_wire (bp_conn t) = cn_wire (bp_conn s)"
    "bs_services (cn_server (bp_conn t)) = bs_services (cn_server (bp_conn s))"
    "\<And>j. j < cn_njobs (bp_conn s) \<Longrightarrow> cn_jobs (bp_conn t) j = cn_jobs (bp_conn s) j"
    "j_head (cn_jobs (bp_conn t) (cn_njobs (bp_conn s))) = current_request (bp_conn s)"
  using assms(1)
  by (cases rule: birpc_requestE; auto elim!: conn_failE conn_spawnE simp: current_request_def)+

lemma birpc_request_called:
  assumes "birpc_request b s = Some t" "bp_loop s = BBody found"
    and "found = get_service (fst qx) srv" "current_request (bp_conn s) = fst qx"
    and "b = decA (body_target found) (snd qx) \<or> (\<exists>e. b = Inl e)" "\<And>e. b = Inl e \<Longrightarrow> error_text e \<noteq> []"
  shows "well_called decA srv qx (cn_jobs (bp_conn t) (cn_njobs (bp_conn s)))"
  using assms(1)
proof (cases rule: birpc_requestE)
  case (failed found' e c)
  then have "error_text e \<noteq> []"
    using assms(6) by (auto simp: birpc_read_body_def unknown_method_def split: sum.splits)
  then show ?thesis using failed assms(4) by (auto elim!: conn_failE simp: well_called_def current_request_def)
next
  case (called found' sv mt v c)
  then have "b = Inr v" "found = Inr (sv, mt)"
    using assms(2) by (auto simp: birpc_read_body_def split: sum.splits)
  then have "decA (body_target (Inr (sv, mt))) (snd qx) = Inr v" "get_service (fst qx) srv = Inr (sv, mt)"
    using assms(3,5) by auto
  then show ?thesis using called assms(4) by (auto elim!: conn_spawnE simp: well_called_def current_request_def)
qed

lemma inv_net_link_body:
  assumes "inv_net decA decR srv (link (\<not> p) s)" "inv_jobs (bn_peer s p)" "bp_loop (bn_peer s p) = BBody found"
    and "birpc_request b (bn_peer s p) = Some t" "handles (BBody found) (bn_read s p)"
    and "b = decA (body_target found) (body_of (last (bn_read s p))) \<or> (\<exists>e. b = Inl e)"
    and "\<And>e. b = Inl e \<Longrightarrow> error_text e \<noteq> []"
  shows "inv_net decA decR srv (link (\<not> p) (at_peer p t s))"
proof -
  let ?rs = "requests (bn_read s p)"
  note B = birpc_request_job [OF assms(4,3)]
  obtain q x where q: "bn_read s p \<noteq> []" "last (bn_read s p) = MRequest q x" using assms(5) by auto
  have "bn_read s p = butlast (bn_read s p) @ [MRequest q x]" using q by (metis append_butlast_last_id)
  then have "?rs = requests (butlast (bn_read s p) @ [MRequest q x])" by simp
  then have l: "last ?rs = (q, x)" by simp
  have "map fst ?rs = map (\<lambda>j. j_head (cn_jobs (bp_conn (bn_peer s p)) j)) [0..<cn_njobs (bp_conn (bn_peer s p))] @
      [current_request (bp_conn (bn_peer s p))]"
    using jobs_read [OF assms(2)] assms(1,3) by (simp add: inv_net_def)
  note r = last_read [OF this]
  have f: "found = get_service (fst (last ?rs)) srv" using assms(1,3) by (auto simp: inv_net_def inv_found_def)
  have w: "well_called decA srv (last ?rs) (cn_jobs (bp_conn t) (cn_njobs (bp_conn (bn_peer s p))))"
    by (rule birpc_request_called [OF assms(4,3) f]) (use assms(6,7) q l r(2) in simp_all)
  show ?thesis
    unfolding link_server
    by (rule inv_net_job_added [OF assms(1)]) (use B w r(1) in simp_all)
qed

lemma link_server_no_request:
  assumes "inv_net decA decR' srv (link (\<not> p) s)" "inv_jobs (bn_peer s p)"
      "handles (bp_loop (bn_peer s p)) (bn_read s p)" "list_all named (bn_sent s (\<not> p))"
      "\<forall>ty x e. decA ty x = Inl e \<longrightarrow> error_text e \<noteq> []"
    and ps_no_request: "t = at_peer p b s" "birpc_request (Inl e) (bn_peer s p) = Some b" "error_text e \<noteq> []"
  shows "inv_net decA decR' srv (link (\<not> p) t)"
proof -
  note ps_no_request
  then obtain found where l: "bp_loop (bn_peer s p) = BBody found" by (auto elim!: birpc_requestE)
  have h: "handles (BBody found) (bn_read s p)" using assms(3) l by simp
  show ?thesis
    unfolding ps_no_request(1)
    by (rule inv_net_link_body [OF assms(1,2) l ps_no_request(2) h]) (use ps_no_request(3) in auto)
qed

lemma link_server_write:
  assumes "inv_net decA decR' srv (link (\<not> p) s)" "inv_jobs (bn_peer s p)"
      "handles (bp_loop (bn_peer s p)) (bn_read s p)" "list_all named (bn_sent s (\<not> p))"
      "\<forall>ty x e. decA ty x = Inl e \<longrightarrow> error_text e \<noteq> []"
    and ps_write: "t = transmit p (MResponse r x) (at_peer p ((bn_peer s p)\<lparr>bp_conn := c\<rparr>) s)"
      "job_write j (bp_conn (bn_peer s p)) = Some c" "snd (last (cn_wire c)) = (r, x)"
  shows "inv_net decA decR' srv (link (\<not> p) t)"
proof -
  let ?u = "at_peer p ((bn_peer s p)\<lparr>bp_conn := c\<rparr>) s"
  have e: "link (\<not> p) ?u = on_conn c (link (\<not> p) s)" by (rule link_server_conn) simp_all
  have i: "inv_net decA decR' srv (link (\<not> p) ?u)"
    unfolding e by (rule inv_net_job [OF assms(1)]) (simp add: js_write [OF ps_write(2)])
  have "(r, x) \<in> snd ` set (cn_wire c)"
    by (rule image_eqI [of _ snd "last (cn_wire c)"]) (use job_write_wire [OF ps_write(2)] ps_write(3) in simp_all)
  then have "(r, x) \<in> written (link (\<not> p) ?u)" by (simp add: written_def)
  then show ?thesis
    using i unfolding ps_write(1) link_server_transmit
    by (auto simp: inv_net_def inv_sent_def inv_found_def inv_called_def inv_down_def)
qed

lemma link_server_step:
  assumes "peer_step decA decR p s t" "inv_net decA decR' srv (link (\<not> p) s)" "inv_jobs (bn_peer s p)"
    and "handles (bp_loop (bn_peer s p)) (bn_read s p)" "list_all named (bn_sent s (\<not> p))"
    and "\<forall>ty x e. decA ty x = Inl e \<longrightarrow> error_text e \<noteq> []"
  shows "inv_net decA decR' srv (link (\<not> p) t)"
  using assms(1)
proof (cases rule: peer_step.cases)
  case (ps_own b)
  then show ?thesis using inv_net_link_own [OF assms(2)] by simp
next
  case (ps_header m ms b)
  have "named m" using assms(5) ps_header(2) by simp
  from inv_net_link_header [OF assms(2,3) ps_header(2,3) this] show ?thesis unfolding ps_header(1) .
next
  case (ps_no_header e b)
  have "quiet (serving (bn_peer s p)) (serving b)"
    using ps_no_header(2) by (auto elim!: birpc_headerE simp: quiet_def conn_drop_def)
  then show ?thesis unfolding ps_no_header(1) by (rule inv_net_link_quiet [OF assms(2)])
next
  case (ps_request found b)
  have h: "handles (BBody found) (bn_read s p)" using assms(4) ps_request(2) by simp
  show ?thesis
    unfolding ps_request(1)
    by (rule inv_net_link_body [OF assms(2,3) ps_request(2,3) h]) (use assms(6) in auto)
next
  case (ps_no_request e b)
  show ?thesis by (rule link_server_no_request [OF assms(2-6) ps_no_request])
next
  case (ps_write j c r x)
  show ?thesis by (rule link_server_write [OF assms(2-6) ps_write])
next
  case (ps_no_write j c)
  have e: "link (\<not> p) t = on_conn c (link (\<not> p) s)" unfolding ps_no_write(1) by (rule link_server_conn) simp_all
  show ?thesis unfolding e by (rule inv_net_job [OF assms(2)]) (simp add: js_write [OF ps_no_write(2)])
next
  case (ps_send k c q x)
  then show ?thesis using assms(2) by (simp add: link_server_transmit link_server_same serving_def)
next
  case (ps_refused e k c)
  then show ?thesis using assms(2) by (simp add: link_server_same serving_def)
next
  case (ps_torn e k c q x)
  then show ?thesis using assms(2) by (simp add: link_server_transmit link_server_same serving_def)
next
  case (ps_reply k r b)
  have "serving b = serving (bn_peer s p)" using ps_reply(4) by (auto elim!: birpc_replyE simp: serving_def)
  then show ?thesis using assms(2) unfolding ps_reply(1) by (simp only: link_server_same)
next
  case (ps_discard k r v b)
  have "serving b = serving (bn_peer s p)" using ps_discard(4) by (auto elim!: birpc_replyE simp: serving_def)
  then show ?thesis using assms(2) unfolding ps_discard(1) by (simp only: link_server_same)
next
  case (ps_no_reply e b)
  have "serving b = serving (bn_peer s p)" using ps_no_reply(2) by (auto elim!: birpc_replyE simp: serving_def)
  then show ?thesis using assms(2) unfolding ps_no_reply(1) by (simp only: link_server_same)
qed


section \<open>Both directions\<close>

text \<open>The loop's place and what it has read.\<close>

lemma own_step_handles: "own_step b t \<Longrightarrow> handles (bp_loop b) ms \<Longrightarrow> handles (bp_loop t) ms"
  by (induction rule: own_step.induct)
     (auto elim!: birpc_getE birpc_repliedE birpc_freeE birpc_lookupE birpc_terminateE birpc_waitE birpc_shutE
       birpc_cancelE birpc_user_closeE)

lemma peer_step_handles:
  assumes "peer_step decA decR p s t" "\<forall>q. handles (bp_loop (bn_peer s q)) (bn_read s q)" "list_all named (bn_sent s (\<not> p))"
  shows "handles (bp_loop (bn_peer t q)) (bn_read t q)"
  using assms(1)
proof (cases rule: peer_step.cases)
  case (ps_own b)
  then show ?thesis using assms(2) own_step_handles by simp
next
  case (ps_header m ms b)
  have "named m" using assms(3) ps_header(2) by simp
  with ps_header(3) have "handles (bp_loop b) (bn_read s p @ [m])" by (cases rule: birpc_header_named) auto
  then show ?thesis using assms(2) ps_header(2) by (simp add: ps_header(1))
next
  case (ps_no_header e b)
  have "handles (bp_loop b) (bn_read s p)" using ps_no_header(2) by (auto elim!: birpc_headerE)
  then show ?thesis using assms(2) by (simp add: ps_no_header(1))
next
  case (ps_request found b)
  have "handles (bp_loop b) (bn_read s p)" using ps_request(3) by (auto elim!: birpc_requestE)
  then show ?thesis using assms(2) by (simp add: ps_request(1))
next
  case (ps_no_request e b)
  have "handles (bp_loop b) (bn_read s p)" using ps_no_request(2) by (auto elim!: birpc_requestE)
  then show ?thesis using assms(2) by (simp add: ps_no_request(1))
next
  case (ps_reply k r b)
  have "handles (bp_loop b) (bn_read s p)" using ps_reply(4) by (auto elim!: birpc_replyE)
  then show ?thesis using assms(2) by (simp add: ps_reply(1))
next
  case (ps_discard k r v b)
  have "handles (bp_loop b) (bn_read s p)" using ps_discard(4) by (auto elim!: birpc_replyE)
  then show ?thesis using assms(2) by (simp add: ps_discard(1))
next
  case (ps_no_reply e b)
  have "handles (bp_loop b) (bn_read s p)" using ps_no_reply(2) by (auto elim!: birpc_replyE)
  then show ?thesis using assms(2) by (simp add: ps_no_reply(1))
qed (use assms(2) in simp_all)

text \<open>Every call names a method.\<close>

definition calls_named :: "birpc_net \<Rightarrow> bool" where
  "calls_named s \<longleftrightarrow> (\<forall>p c. c < cl_ncalls (bp_client (bn_peer s p)) \<longrightarrow> c_method (cl_calls (bp_client (bn_peer s p)) c) \<noteq> [])"

definition calls_bounded :: "birpc_net \<Rightarrow> bool" where
  "calls_bounded s \<longleftrightarrow> (\<forall>p. cl_ncalls (bp_client (bn_peer s p)) < 2 ^ 64)"

lemma client_step_methods:
  assumes "client_step s t"
  shows "cl_ncalls s \<le> cl_ncalls t \<and> (\<forall>c < cl_ncalls s. c_method (cl_calls t c) = c_method (cl_calls s c))"
  using assms by (induction rule: client_step.induct) (auto elim!: op_elims simp: op_allocs split: if_splits)


lemma birpc_step_methods:
  assumes "birpc_step b t"
  shows "cl_ncalls (bp_client b) \<le> cl_ncalls (bp_client t)"
    "c < cl_ncalls (bp_client b) \<Longrightarrow> c_method (cl_calls (bp_client t) c) = c_method (cl_calls (bp_client b) c)"
  using birpc_step_client [OF assms] client_step_methods [of "bp_client b" "bp_client t"] by auto

lemma peer_step_calls:
  assumes "peer_step decA decR p s t"
  shows "calls_named t \<Longrightarrow> calls_named s" "calls_bounded t \<Longrightarrow> calls_bounded s"
proof -
  note P = peer_step_birpc [OF assms]
  have m: "cl_ncalls (bp_client (bn_peer s q)) \<le> cl_ncalls (bp_client (bn_peer t q))"
    "c < cl_ncalls (bp_client (bn_peer s q)) \<Longrightarrow>
       c_method (cl_calls (bp_client (bn_peer t q)) c) = c_method (cl_calls (bp_client (bn_peer s q)) c)" for q c
    using P birpc_step_methods by (cases "q = p"; simp)+
  show "calls_named s" if "calls_named t"
    using that m unfolding calls_named_def by (metis less_le_trans)
  show "calls_bounded s" if "calls_bounded t"
    using that m(1) unfolding calls_bounded_def by (metis le_less_trans)
qed

definition both_linked :: "arg_decoder \<Rightarrow> (bool \<Rightarrow> reply_decoder) \<Rightarrow> (bool \<Rightarrow> basic_server) \<Rightarrow> birpc_net \<Rightarrow> bool" where
  "both_linked decA decR srv s \<longleftrightarrow>
     (\<forall>p. inv_net decA (decR p) (srv (\<not> p)) (link p s) \<and> handles (bp_loop (bn_peer s p)) (bn_read s p))"

lemma sent_named:
  assumes "inv_net decA decR' srv (link p s)" "birpc_reach (bn_peer s p)" "calls_named s" "calls_bounded s"
  shows "list_all named (bn_sent s p)"
proof -
  have C: "client_reach (bp_client (bn_peer s p))" "cl_ncalls (bp_client (bn_peer s p)) < 2 ^ 64"
    using birpc_invD(1) [OF assms(2)] assms(4) by (simp_all add: calls_bounded_def)
  have "req_method q \<noteq> []" if m: "MRequest q x \<in> set (bn_sent s p)" for q x
  proof -
    have "(q, x) \<in> set (requests (bn_sent s p))" using m by (force simp: requests_def)
    then have "(q, x) \<in> set (cl_tried (bp_client (bn_peer s p)))"
      using assms(1) by (auto simp: inv_net_def inv_sent_def intro: subseq_set)
    then obtain c where c: "c \<in> set (cl_registered (bp_client (bn_peer s p)))"
        "is_request_of (bp_client (bn_peer s p)) (q, x) c"
      using inv_wire_of [OF reach_wire [OF C]] by blast
    have "c < cl_ncalls (bp_client (bn_peer s p))" using inv_seqD(2) [OF reach_seq [OF C]] c(1) by blast
    with assms(3) c(2) show ?thesis by (auto simp: calls_named_def is_request_of_def)
  qed
  then show ?thesis by (auto simp: list_all_iff named_def)
qed

lemma new_birpc_net_linked:
  "both_linked decA decR srv (new_birpc_net me srv oreqs oresps st)"
  by (simp add: both_linked_def new_birpc_net_def link_def inv_net_def inv_sent_def inv_found_def inv_called_def
      inv_down_def birpc_start_def new_conn_def new_pending_def new_basic_client_def serving_def written_def
      split: prod.splits)

lemma birpc_net_reach_both:
  assumes "birpc_net_reach decA decR srv s" "\<forall>ty x e. decA ty x = Inl e \<longrightarrow> error_text e \<noteq> []"
    and "calls_named s" "calls_bounded s"
  shows "both_linked decA decR srv s"
  using assms(1,3,4)
proof (induction rule: birpc_net_reach.induct)
  case (bnr_new oreqs oresps st me)
  show ?case by (rule new_birpc_net_linked)
next
  case (bnr_step s p t)
  note C = peer_step_calls [OF bnr_step(2)]
  have I: "both_linked decA decR srv s" by (rule bnr_step(3) [OF C(1) C(2)]) (rule bnr_step(4,5))+
  have N: "inv_net decA (decR q) (srv (\<not> q)) (link q s)" and H: "\<forall>q. handles (bp_loop (bn_peer s q)) (bn_read s q)"
    for q using I by (simp_all add: both_linked_def)
  have R: "birpc_reach (bn_peer s q)" for q by (rule birpc_net_reach_peers [OF bnr_step(1)])
  have M: "list_all named (bn_sent s q)" for q by (rule sent_named [OF N R C(1) C(2)]) (rule bnr_step(4,5))+
  have "inv_net decA (decR p) (srv (\<not> p)) (link p t)"
    by (rule inv_net_client_moves [OF link_client_step [OF bnr_step(2) _ M] N]) (simp add: H)
  moreover have "inv_net decA (decR (\<not> p)) (srv p) (link (\<not> p) t)"
    by (rule link_server_step [OF bnr_step(2) _ birpc_invD(3) [OF R] _ M assms(2)]) (use N [of "\<not> p"] H in simp_all)
  ultimately have "inv_net decA (decR q) (srv (\<not> q)) (link q t)" for q by (cases "q = p") auto
  then show ?case
    using peer_step_handles [OF bnr_step(2) H M] by (simp add: both_linked_def)
qed

lemma birpc_net_linked:
  assumes "birpc_net_reach decA decR srv s" "\<forall>ty x e. decA ty x = Inl e \<longrightarrow> error_text e \<noteq> []"
    and "calls_named s" "calls_bounded s"
  shows "linked decA (decR p) (srv (\<not> p)) (link p s)"
proof -
  have N: "inv_net decA (decR p) (srv (\<not> p)) (link p s)"
    using birpc_net_reach_both [OF assms] by (simp add: both_linked_def)
  have R: "birpc_reach (bn_peer s q)" for q by (rule birpc_net_reach_peers [OF assms(1)])
  have "inv_sent (link (\<not> (\<not> p)) s)" using N by (simp add: inv_net_def)
  then have "cn_njobs (bp_conn (bn_peer s (\<not> p))) \<le> length (requests (bn_read s (\<not> p)))"
    using jobs_read_length [OF birpc_invD(3) [OF R]] by simp
  then show ?thesis
    using N birpc_invD(1) [OF R] answers_written_conn [of "link p s"] conn_reach_inv [OF birpc_invD(2) [OF R]]
    by (simp add: linked_def)
qed


section \<open>Concrete runs\<close>

text \<open>The peers' steps, with codecs that change nothing.\<close>

datatype pact =
    POwn bool bact
  | PReceive bool nat
  | PSend bool nat
  | PHeader bool
  | PRequest bool
  | PReply bool
  | PWrite bool nat

fun own_act :: "bact \<Rightarrow> bool" where
  "own_act (BAHeader h) = False"
| "own_act (BARequest b) = False"
| "own_act (BAReply b) = False"
| "own_act (BAWrite w c) = False"
| "own_act (BAJob a) = loop_act (SJob a)"
| "own_act a = True"

fun pact_step :: "pact \<Rightarrow> birpc_net \<Rightarrow> birpc_net option" where
  "pact_step (POwn p a) s =
     (if own_act a then map_option (\<lambda>b. at_peer p b s) (bact_step a (bn_peer s p)) else None)"
| "pact_step (PReceive p c) s =
     map_option (\<lambda>t. at_peer p ((bn_peer s p)\<lparr>bp_client := t\<rparr>) s) (call_receive c (bp_client (bn_peer s p)))"
| "pact_step (PSend p k) s =
     map_option (\<lambda>c. transmit p (MRequest (fst (last (cl_tried c))) (snd (last (cl_tried c))))
         (at_peer p ((bn_peer s p)\<lparr>bp_client := c\<rparr>) s))
       (send_write None k (bp_client (bn_peer s p)))"
| "pact_step (PHeader p) s =
     (case bn_sent s (\<not> p) of
        [] \<Rightarrow> None
      | m # ms \<Rightarrow> map_option (\<lambda>b. receive p (at_peer p b s)) (birpc_header (Inr (header_of m)) (bn_peer s p)))"
| "pact_step (PRequest p) s =
     (case bp_loop (bn_peer s p) of
        BBody found \<Rightarrow>
          map_option (\<lambda>b. at_peer p b s)
            (birpc_request (plain_args (body_target found) (body_of (last (bn_read s p)))) (bn_peer s p))
      | _ \<Rightarrow> None)"
| "pact_step (PReply p) s =
     (case cl_reader (bp_client (bn_peer s p)) of
        RGot (Some k) r \<Rightarrow>
          if resp_error r = []
          then map_option (\<lambda>b. at_peer p b s) (birpc_reply (plain_reply k (body_of (last (bn_read s p)))) (bn_peer s p))
          else None
      | _ \<Rightarrow> None)"
| "pact_step (PWrite p j) s =
     map_option (\<lambda>c. transmit p (MResponse (fst (snd (last (cn_wire c)))) (snd (snd (last (cn_wire c)))))
         (at_peer p ((bn_peer s p)\<lparr>bp_conn := c\<rparr>) s))
       (job_write j (bp_conn (bn_peer s p)))"

fun pact_run :: "pact list \<Rightarrow> birpc_net \<Rightarrow> birpc_net option" where
  "pact_run [] s = Some s"
| "pact_run (a # as) s = (case pact_step a s of None \<Rightarrow> None | Some t \<Rightarrow> pact_run as t)"

lemma own_act_step:
  assumes "own_act a" "bact_step a b = Some t"
  shows "own_step b t"
proof (cases a)
  case BAClose
  then show ?thesis using assms(2) by (auto intro: os_close [of None, OF surjective_pairing])
next
  case (BACall m x r)
  with assms(2) obtain c d where c: "client_call m x r (bp_client b) = Some (d, c)" "t = b\<lparr>bp_client := c\<rparr>" by auto
  have "cl_tried c = cl_tried (bp_client b)" using c(1) by (auto elim!: op_elims simp: op_allocs split: if_splits)
  then show ?thesis unfolding c(2) by (rule os_caller [OF ca_call [OF c(1)]])
next
  case (BAEnter k)
  with assms(2) obtain c where c: "cn_sending (bp_conn b) = None" "send_enter k (bp_client b) = Some c"
      "t = b\<lparr>bp_client := c\<rparr>" by (auto split: if_splits)
  have "cl_tried c = cl_tried (bp_client b)" using c(2) by (auto elim!: op_elims)
  then show ?thesis unfolding c(3) by (rule os_caller [OF ca_enter [OF c(1,2)]])
next
  case (BAJob d)
  with assms obtain c where "job_act d" "cl_reqmu (bp_client b) = None" "cact_step d (bp_conn b) = Some c"
      "t = b\<lparr>bp_conn := c\<rparr>" "loop_act (SJob d)" by (auto split: if_splits)
  then show ?thesis by (auto intro!: os_job dest: cact_step_job cact_step_wire)
qed (use assms in \<open>auto intro: own_step.intros\<close>)

lemma pact_step_sound:
  assumes "pact_step a s = Some t"
  shows "\<exists>p. peer_step plain_args (\<lambda>p. plain_reply) p s t"
proof (cases a)
  case (POwn p b)
  then show ?thesis using assms own_act_step by (auto intro!: exI [of _ p] ps_own split: if_splits)
next
  case (PReceive p c)
  with assms obtain d where d: "call_receive c (bp_client (bn_peer s p)) = Some d"
      "t = at_peer p ((bn_peer s p)\<lparr>bp_client := d\<rparr>) s" by auto
  then have "cl_tried d = cl_tried (bp_client (bn_peer s p))" by (auto elim!: op_elims)
  then have "own_step (bn_peer s p) ((bn_peer s p)\<lparr>bp_client := d\<rparr>)" by (rule os_caller [OF ca_receive [OF d(1)]])
  then show ?thesis unfolding d(2) by (blast intro: ps_own)
next
  case (PSend p k)
  then show ?thesis using assms by (auto intro!: exI [of _ p] ps_send)
next
  case (PHeader p)
  then show ?thesis using assms by (auto intro!: exI [of _ p] ps_header split: list.splits)
next
  case (PRequest p)
  then show ?thesis using assms by (auto intro!: exI [of _ p] ps_request split: birpc_pc.splits)
next
  case (PReply p)
  then show ?thesis using assms by (auto intro!: exI [of _ p] ps_reply split: reader_pc.splits option.splits if_splits)
next
  case (PWrite p j)
  then show ?thesis using assms by (auto intro!: exI [of _ p] ps_write)
qed

lemma pact_run_reach:
  "birpc_net_reach plain_args (\<lambda>p. plain_reply) srv s \<Longrightarrow> pact_run as s = Some t \<Longrightarrow>
   birpc_net_reach plain_args (\<lambda>p. plain_reply) srv t"
  by (induction as arbitrary: s) (auto split: option.splits dest!: pact_step_sound intro: bnr_step)

text \<open>The peers call each other: the requests cross, and each is answered.\<close>

definition new_arith_peers :: birpc_net where
  "new_arith_peers =
     new_birpc_net (\<lambda>p. 0) (\<lambda>p. arith_server) (\<lambda>p. {}) (\<lambda>p. {}) (\<lambda>p. fresh_store)"

fun ask :: "bool \<Rightarrow> pact list" where
  "ask p = [POwn p (BACall ''Arith.Add'' (VInt 7) (Some (VInt 0))), POwn p (BAEnter 0), PSend p 0]"

fun answer_it :: "bool \<Rightarrow> pact list" where
  "answer_it p =
     [POwn p BAGet, PHeader p, PRequest p, POwn p (BAJob (CStart 0)),
      POwn p (BAJob (CReturn (VPtr (VInt 15)) None 0)), POwn p (BAJob (CPrepare 0)), POwn p (BAJob (CLock 0)),
      PWrite p 0]"

fun take_reply :: "bool \<Rightarrow> pact list" where
  "take_reply p =
     [POwn p BAGet, PHeader p, POwn p BAFree, POwn p BALookup, PReply p, PReceive p 0]"

definition mutual_run :: "pact list" where
  "mutual_run = ask True @ ask False @ answer_it False @ answer_it True @ take_reply True @ take_reply False"

lemmas peers_eval [run_eval] = new_arith_peers_def new_birpc_net_def at_peer_def transmit_def receive_def

lemma mutual_run_ends:
  "\<exists>s. pact_run mutual_run new_arith_peers = Some s \<and>
     (\<forall>p. cl_ncalls (bp_client (bn_peer s p)) = 1 \<and> cl_caller (bp_client (bn_peer s p)) 0 = Some (CDone None) \<and>
        c_method (cl_calls (bp_client (bn_peer s p)) 0) = ''Arith.Add'' \<and> cn_njobs (bp_conn (bn_peer s p)) = 1)"
  by (simp add: mutual_run_def run_eval cancel_func_def all_bool_eq)

lemma mutual_run_reach:
  obtains s where "birpc_net_reach plain_args (\<lambda>p. plain_reply) (\<lambda>p. arith_server) s"
    "\<forall>p. cl_ncalls (bp_client (bn_peer s p)) = 1 \<and> cl_caller (bp_client (bn_peer s p)) 0 = Some (CDone None) \<and>
        c_method (cl_calls (bp_client (bn_peer s p)) 0) = ''Arith.Add'' \<and> cn_njobs (bp_conn (bn_peer s p)) = 1"
proof -
  have "birpc_net_reach plain_args (\<lambda>p. plain_reply) (\<lambda>p. arith_server) new_arith_peers"
    unfolding new_arith_peers_def
    by (rule bnr_new [OF ready_arith]) (simp add: fresh_store_def root_ctxs_def ctx_err_def background_def)
  then show thesis using mutual_run_ends by (elim exE conjE) (rule that [OF pact_run_reach])
qed


section \<open>Properties\<close>




end
