(* ===== verification/JsonProps.thy ===== *)
theory JsonProps
  imports JsonCodec ClientProps
begin

text \<open>
  What the JSON-RPC codecs guarantee: the table gives a request's id to the response with its number and
  to no other, requests and replies survive the wire, and which messages end a connection.
\<close>

section \<open>The keys of the messages\<close>

lemma message_keys [simp]:
  "same_key k k"
  "\<not> same_key ''id'' ''method''" "\<not> same_key ''id'' ''params''" "\<not> same_key ''id'' ''result''"
  "\<not> same_key ''id'' ''error''" "\<not> same_key ''method'' ''id''" "\<not> same_key ''method'' ''params''"
  "\<not> same_key ''method'' ''result''" "\<not> same_key ''method'' ''error''" "\<not> same_key ''params'' ''id''"
  "\<not> same_key ''params'' ''method''" "\<not> same_key ''result'' ''id''" "\<not> same_key ''result'' ''error''"
  "\<not> same_key ''error'' ''id''" "\<not> same_key ''error'' ''result''"
  "\<not> same_key ''params'' ''result''" "\<not> same_key ''params'' ''error''"
  "\<not> same_key ''result'' ''method''" "\<not> same_key ''result'' ''params''"
  "\<not> same_key ''error'' ''method''" "\<not> same_key ''error'' ''params''"
  by (simp_all add: same_key_def lower_char_def)


section \<open>Histories of the table of ids\<close>

text \<open>\<open>k\<close> requests numbered, and responses looked up for numbers other than \<open>n\<close>, in any order.\<close>

inductive ids_path :: "u64 \<Rightarrow> nat \<Rightarrow> id_table \<Rightarrow> id_table \<Rightarrow> bool" for n where
  ids_same: "ids_path n 0 t t"
| ids_insert: "ids_path n k t t' \<Longrightarrow> ids_path n (Suc k) t (snd (ids_new raw t'))"
| ids_remove: "ids_path n k t t' \<Longrightarrow> ids_take m t' = Some (raw, t'') \<Longrightarrow> m \<noteq> n \<Longrightarrow> ids_path n k t t''"

lemma ids_takeE:
  assumes "ids_take m t = Some (raw, t')"
  obtains "it_pending t m = Some raw" "t' = t\<lparr>it_pending := (it_pending t)(m := None)\<rparr>"
  using assms by (auto simp: ids_take_def split: option.splits)

lemma ids_path_seq: "ids_path n k t t' \<Longrightarrow> it_seq t' = it_seq t + of_nat k"
  by (induction rule: ids_path.induct) (auto simp: ids_new_def Let_def elim!: ids_takeE)

lemma of_nat_u64_zero: "of_nat k = (0 :: u64) \<Longrightarrow> k < 2 ^ 64 \<Longrightarrow> k = 0"
  by (auto simp: word_of_nat_eq_0_iff dest: dvd_imp_le)

text \<open>An entry stays for as long as the numbers have not come round to it.\<close>

lemma ids_path_keeps:
  "ids_path n k t t' \<Longrightarrow> it_seq t = n \<Longrightarrow> it_pending t n = Some raw \<Longrightarrow> k < 2 ^ 64 \<Longrightarrow>
   it_pending t' n = Some raw"
proof (induction rule: ids_path.induct)
  case (ids_insert k t t' raw')
  have "of_nat (Suc k) \<noteq> (0 :: u64)" using of_nat_u64_zero [of "Suc k"] ids_insert.prems(3) by blast
  moreover have "it_seq t' + 1 = n + of_nat (Suc k)"
    using ids_path_seq [OF ids_insert.hyps] ids_insert.prems(1) by simp
  ultimately have "it_seq t' + 1 \<noteq> n" by (simp add: add.commute)
  then show ?case using ids_insert by (simp add: ids_new_def Let_def)
qed (auto elim!: ids_takeE)

text \<open>The operations of a codec, in the order its goroutines run them.\<close>

datatype codec_op = ReadHeader | WriteResponse "go_error option" response goval

fun codec_run :: "('s \<Rightarrow> 's) \<Rightarrow> (go_error option \<Rightarrow> response \<Rightarrow> goval \<Rightarrow> 's \<Rightarrow> 's) \<Rightarrow> codec_op list \<Rightarrow> 's \<Rightarrow> 's" where
  "codec_run rd wr [] c = c"
| "codec_run rd wr (ReadHeader # ops) c = codec_run rd wr ops (rd c)"
| "codec_run rd wr (WriteResponse w r x # ops) c = codec_run rd wr ops (wr w r x c)"

definition reads :: "codec_op list \<Rightarrow> nat" where
  "reads ops = length (filter (\<lambda>x. x = ReadHeader) ops)"

text \<open>No response for number \<open>n\<close> among them.\<close>

definition leaves :: "u64 \<Rightarrow> codec_op list \<Rightarrow> bool" where
  "leaves n ops \<longleftrightarrow> (\<forall>x \<in> set ops. case x of ReadHeader \<Rightarrow> True | WriteResponse w r v \<Rightarrow> resp_seq r \<noteq> n)"

lemma leaves_simps [simp]:
  "leaves n []" "leaves n (ReadHeader # ops) = leaves n ops"
  "leaves n (WriteResponse w r v # ops) \<longleftrightarrow> resp_seq r \<noteq> n \<and> leaves n ops"
  by (auto simp: leaves_def)

lemma reads_simps [simp]:
  "reads [] = 0" "reads (ReadHeader # ops) = Suc (reads ops)"
  "reads (WriteResponse w r v # ops) = reads ops"
  by (simp_all add: reads_def)

text \<open>
  What a codec that numbers requests promises about its table: reading a header changes it by at most one
  numbering, and a response is written with the id taken out of it, or refused.
\<close>

locale numbering_codec =
  fixes ids :: "'s \<Rightarrow> id_table" and out :: "'s \<Rightarrow> json list"
    and rd :: "'s \<Rightarrow> 's"
    and wr :: "go_error option \<Rightarrow> response \<Rightarrow> goval \<Rightarrow> 's \<Rightarrow> go_error option \<times> 's"
  assumes read_ids: "ids (rd c) = ids c \<or> (\<exists>raw. ids (rd c) = snd (ids_new raw (ids c)))"
    and write_refused: "ids_take (resp_seq r) (ids c) = None \<Longrightarrow> wr w r x c = (Some bad_number, c)"
    and write_taken: "ids_take (resp_seq r) (ids c) = Some (raw, t) \<Longrightarrow>
      fst (wr w r x c) = w \<and> ids (snd (wr w r x c)) = t \<and>
      out (snd (wr w r x c)) = (if w = None then out c @ [response_message raw r x] else out c)"
begin

abbreviation run :: "codec_op list \<Rightarrow> 's \<Rightarrow> 's" where
  "run \<equiv> codec_run rd (\<lambda>w r x c. snd (wr w r x c))"

lemma run_path:
  "leaves n ops \<Longrightarrow> ids_path n k t (ids c) \<Longrightarrow> \<exists>k' \<le> k + reads ops. ids_path n k' t (ids (run ops c))"
proof (induction ops arbitrary: c k)
  case (Cons x ops)
  show ?case
  proof (cases x)
    case ReadHeader
    obtain k' where "k' \<le> Suc k" "ids_path n k' t (ids (rd c))"
      using read_ids [of c] Cons.prems(2) by (metis ids_insert le_SucI order_refl)
    moreover from this obtain k'' where "k'' \<le> k' + reads ops" "ids_path n k'' t (ids (run ops (rd c)))"
      using Cons.IH [of k' "rd c"] Cons.prems(1) ReadHeader by auto
    ultimately show ?thesis using ReadHeader by (intro exI [of _ k'']) simp
  next
    case (WriteResponse w r v)
    have "ids_path n k t (ids (snd (wr w r v c)))"
    proof (cases "ids_take (resp_seq r) (ids c)")
      case None
      then show ?thesis using Cons.prems(2) by (simp add: write_refused)
    next
      case (Some y)
      then obtain raw t' where "ids_take (resp_seq r) (ids c) = Some (raw, t')" by (cases y) auto
      with write_taken Cons.prems WriteResponse show ?thesis by (auto intro: ids_remove)
    qed
    with Cons WriteResponse show ?thesis by simp
  qed
qed auto

lemma run_keeps_id:
  assumes "it_seq (ids c) = n" "it_pending (ids c) n = Some raw" "leaves n ops" "reads ops < 2 ^ 64"
  shows "it_pending (ids (run ops c)) n = Some raw"
  using run_path [OF assms(3) ids_same, of c] ids_path_keeps [OF _ assms(1,2)] assms(4)
  by (metis add_0 le_less_trans)

lemma answer:
  assumes "it_pending (ids c) (resp_seq r) = Some raw"
  shows "fst (wr w r x c) = w"
    and "out (snd (wr w r x c)) = (if w = None then out c @ [response_message raw r x] else out c)"
    and "it_pending (ids (snd (wr w r x c))) (resp_seq r) = None"
  using write_taken [of r c raw] assms by (auto simp: ids_take_def)

lemma unknown_number:
  "it_pending (ids c) (resp_seq r) = None \<Longrightarrow> wr w r x c = (Some bad_number, c)"
  by (rule write_refused) (simp add: ids_take_def)

end


section \<open>The two codecs that number requests\<close>

text \<open>A header read, case by case.\<close>

lemma jserver_read_headerE:
  assumes "jserver_read_header c = (Inr q, c')"
  obtains j d ms m where "dec_next (js_dec c) = (Inr j, d)" "members_of j = Inr ms"
    "field_string ''method'' [] ms = Inr m" "q = \<lparr>req_method = m, req_seq = it_seq (js_ids c) + 1\<rparr>"
    "c' = c\<lparr>js_dec := d, js_params := field_raw ''params'' ms,
            js_ids := snd (ids_new (field_raw ''id'' ms) (js_ids c))\<rparr>"
  using assms
  by (auto simp: jserver_read_header_def Let_def ids_new_def split: prod.splits sum.splits)

lemma jserver_read_ids:
  "js_ids (snd (jserver_read_header c)) = js_ids c \<or>
   (\<exists>raw. js_ids (snd (jserver_read_header c)) = snd (ids_new raw (js_ids c)))"
  by (auto simp: jserver_read_header_def Let_def ids_new_def split: prod.splits sum.splits)

lemma jbirpc_read_ids:
  "jb_ids (snd (jbirpc_read_header fmt c)) = jb_ids c \<or>
   (\<exists>raw. jb_ids (snd (jbirpc_read_header fmt c)) = snd (ids_new raw (jb_ids c)))"
  by (auto simp: jbirpc_read_header_def Let_def ids_new_def split: prod.splits sum.splits option.splits)

interpretation jserver: numbering_codec js_ids js_out "\<lambda>c. snd (jserver_read_header c)" jserver_write_response
  by unfold_locales (auto simp: jserver_write_response_def jserver_read_ids)

interpretation jbirpc: numbering_codec jb_ids jb_out "\<lambda>c. snd (jbirpc_read_header fmt c)" jbirpc_write_response
  by unfold_locales (auto simp: jbirpc_write_response_def jbirpc_read_ids)

abbreviation jserver_run :: "codec_op list \<Rightarrow> json_server \<Rightarrow> json_server" where
  "jserver_run \<equiv> codec_run (\<lambda>c. snd (jserver_read_header c)) (\<lambda>w r x c. snd (jserver_write_response w r x c))"

abbreviation jbirpc_run :: "(json option \<Rightarrow> string) \<Rightarrow> codec_op list \<Rightarrow> json_birpc \<Rightarrow> json_birpc" where
  "jbirpc_run fmt \<equiv>
     codec_run (\<lambda>c. snd (jbirpc_read_header fmt c)) (\<lambda>w r x c. snd (jbirpc_write_response w r x c))"

lemma ids_new_entry [simp]:
  "it_seq (snd (ids_new raw t)) = it_seq t + 1" "it_pending (snd (ids_new raw t)) (it_seq t + 1) = Some raw"
  by (simp_all add: ids_new_def Let_def)

text \<open>
  C38: however many requests are read after it (short of the numbers coming round) and whichever other
  requests are answered first, the response to a request carries the id its message had, null if it had
  none; it is written once, and a second response with that number is refused and not written.
\<close>

theorem response_carries_the_id_of_its_request:
  assumes "jserver_read_header c = (Inr q, c1)" and "leaves (req_seq q) ops" and "reads ops < 2 ^ 64"
    and "resp_seq r = req_seq q"
  shows "\<exists>j ms c3. fst (dec_next (js_dec c)) = Inr j \<and> members_of j = Inr ms \<and>
    jserver_write_response None r x (jserver_run ops c1) = (None, c3) \<and>
    js_out c3 = js_out (jserver_run ops c1) @ [response_message (field_raw ''id'' ms) r x] \<and>
    jserver_write_response w r y c3 = (Some bad_number, c3)"
proof -
  obtain j d ms m where h: "dec_next (js_dec c) = (Inr j, d)" "members_of j = Inr ms"
    "q = \<lparr>req_method = m, req_seq = it_seq (js_ids c) + 1\<rparr>"
    "c1 = c\<lparr>js_dec := d, js_params := field_raw ''params'' ms,
            js_ids := snd (ids_new (field_raw ''id'' ms) (js_ids c))\<rparr>"
    by (rule jserver_read_headerE [OF assms(1)])
  have kept: "it_pending (js_ids (jserver_run ops c1)) (resp_seq r) = Some (field_raw ''id'' ms)"
    using jserver.run_keeps_id [OF _ _ assms(2,3), of c1] h(3,4) assms(4) by simp
  show ?thesis
    using h(1,2) jserver.answer [OF kept, of None x]
      jserver.unknown_number [OF jserver.answer(3) [OF kept]]
    by (intro exI [of _ j] exI [of _ ms] exI [of _ "snd (jserver_write_response None r x (jserver_run ops c1))"])
       (simp add: prod_eq_iff)
qed

theorem response_carries_the_id_of_its_request_witness:
  "\<exists>c1 c3. jserver_write_response None \<lparr>resp_seq = 1, resp_error = []\<rparr> (VInt 7) c1 = (None, c3) \<and>
     last (js_out c3) = JObj [(''id'', JStr ''a''), (''result'', JNum 7), (''error'', JNull)] \<and>
     jserver_write_response None \<lparr>resp_seq = 1, resp_error = []\<rparr> (VInt 7) c3 = (Some bad_number, c3)"
proof -
  let ?m = "\<lambda>i. JObj [(''method'', JStr ''A.B''), (''id'', JStr i), (''params'', JArr [])]"
  let ?c = "new_json_server \<lparr>ji_msgs = [?m ''a'', ?m ''b''], ji_end = EOF\<rparr>"
  let ?c1 = "snd (jserver_read_header ?c)"
  let ?q = "\<lparr>req_method = ''A.B'', req_seq = 1\<rparr>"
  have h: "jserver_read_header ?c = (Inr ?q, ?c1)"
    by (simp add: jserver_read_header_def new_json_server_def dec_next_def members_of_def field_string_def
      matching_def ids_new_def new_ids_def)
  have l: "leaves (req_seq ?q) [ReadHeader, WriteResponse None \<lparr>resp_seq = 2, resp_error = []\<rparr> VNil]" by simp
  have s: "resp_seq \<lparr>resp_seq = 1, resp_error = []\<rparr> = req_seq ?q" by simp
  obtain j ms c3 where w: "fst (dec_next (js_dec ?c)) = Inr j" "members_of j = Inr ms"
    "jserver_write_response None \<lparr>resp_seq = 1, resp_error = []\<rparr> (VInt 7)
       (jserver_run [ReadHeader, WriteResponse None \<lparr>resp_seq = 2, resp_error = []\<rparr> VNil] ?c1) = (None, c3)"
    "js_out c3 = js_out (jserver_run [ReadHeader, WriteResponse None \<lparr>resp_seq = 2, resp_error = []\<rparr> VNil] ?c1)
       @ [response_message (field_raw ''id'' ms) \<lparr>resp_seq = 1, resp_error = []\<rparr> (VInt 7)]"
    "jserver_write_response None \<lparr>resp_seq = 1, resp_error = []\<rparr> (VInt 7) c3 = (Some bad_number, c3)"
    using response_carries_the_id_of_its_request [OF h l _ s, of "VInt 7" None "VInt 7"] by auto
  have "j = ?m ''a''" "ms = [(''method'', JStr ''A.B''), (''id'', JStr ''a''), (''params'', JArr [])]"
    using w(1,2) by (auto simp: new_json_server_def dec_next_def members_of_def)
  then show ?thesis using w(3-5) by (fastforce simp: response_message_def field_raw_def)
qed


section \<open>Requests and replies survive the wire\<close>

lemma null_is_zero: "plain t \<Longrightarrow> value_ok t v \<Longrightarrow> to_json v = JNull \<Longrightarrow> v = zero_value t"
proof (induction t arbitrary: v)
  case (TNamed p n u)
  then show ?case by (cases u) (auto split: goval.splits)
next
  case (TPtr t)
  then show ?case using to_json_not_null [of t] by (auto split: goval.splits)
qed (auto split: goval.splits if_splits)

lemma params_round_trip:
  assumes "plain t" "value_ok t v" shows "decode_params t (JArr [to_json v]) = Inr v"
  using json_round_trip [OF assms] null_is_zero [OF assms] by (auto simp: decode_params_def)

text \<open>The argument or the reply itself, or a pointer to it.\<close>

definition denotes :: "goval \<Rightarrow> goval \<Rightarrow> bool" where
  "denotes x v \<longleftrightarrow> x = v \<or> x = VPtr v"

lemma denotes_json: "denotes x v \<Longrightarrow> to_json x = to_json v"
  by (auto simp: denotes_def)

lemma request_message_fields [simp]:
  "members_of (request_message q x) = Inr [(''method'', JStr (req_method q)), (''params'', JArr [to_json x]),
     (''id'', JNum (uint (req_seq q)))]"
  by (simp add: request_message_def members_of_def)

lemma response_message_fields [simp]:
  "members_of (response_message raw r x) =
     Inr [(''id'', case raw of None \<Rightarrow> JNull | Some j \<Rightarrow> j),
          (''result'', if resp_error r = [] then to_json x else JNull),
          (''error'', if resp_error r = [] then JNull else JStr (resp_error r))]"
  by (simp add: response_message_def members_of_def)

lemma jserver_reads_request:
  assumes "ji_msgs (js_dec c) = request_message q x # ms" "plain t" "value_ok t v" "denotes x v"
  defines "c' \<equiv> snd (jserver_read_header c)"
  shows "jserver_read_header c = (Inr \<lparr>req_method = req_method q, req_seq = it_seq (js_ids c) + 1\<rparr>, c')"
    and "jserver_read_body (Some t) c' = (Inr v, c')"
    and "js_ids c' = snd (ids_new (Some (JNum (uint (req_seq q)))) (js_ids c))"
  using assms(1) params_round_trip [OF assms(2,3)] denotes_json [OF assms(4)]
  by (simp_all add: c'_def jserver_read_header_def dec_next_def field_string_def matching_def field_raw_def
    ids_new_def Let_def jserver_read_body_def read_params_def)

lemma jclient_reads_response:
  assumes "ji_msgs (jc_dec c) = response_message (Some (JNum (uint n))) r x # ms"
    and "plain t" "value_ok t v" "denotes x v" "resp_error r = [] \<longrightarrow> to_json v \<noteq> JNull"
  shows "jclient_read_header fmt c =
      (Inr \<lparr>resp_seq = n, resp_error = resp_error r\<rparr>, snd (jclient_read_header fmt c))"
    and "resp_error r = [] \<Longrightarrow> jclient_read_body (Some t) (snd (jclient_read_header fmt c)) = Ok v"
  using assms(1,5) json_round_trip [OF assms(2,3)] denotes_json [OF assms(4)]
  by (auto simp: jclient_read_header_def dec_next_def field_u64_def matching_def field_raw_def
    Let_def jclient_read_body_def read_result_def response_error_def split: json.splits)

lemma jclient_written:
  "jclient_write_request None q x c = (w, c') \<Longrightarrow> w = None \<and> jc_out c' = jc_out c @ [request_message q x]"
  by (auto simp: jclient_write_request_def)

text \<open>
  A call over JSON-RPC arrives and returns intact. What the client codec writes for a request is
  read by the server codec as the same method and, decoded into the method's argument type, the same
  argument; after any other traffic of the server codec, the response written under the number that
  was given to the request is read by the client codec as a response to the client's own number with
  the same error text, or with the same reply.
\<close>

theorem json_call_round_trip:
  assumes "plain ta" "value_ok ta a" "denotes arg a" and "plain tr" "value_ok tr v" "denotes res v"
    and "resp_error r = [] \<longrightarrow> to_json v \<noteq> JNull"
    and "jclient_write_request None q arg cl = (None, cl')"
    and "ji_msgs (js_dec sv) = last (jc_out cl') # ms" and "sv' = snd (jserver_read_header sv)"
    and "resp_seq r = it_seq (js_ids sv) + 1" and "leaves (resp_seq r) ops" and "reads ops < 2 ^ 64"
    and "jserver_write_response None r res (jserver_run ops sv') = (None, sv2)"
    and "ji_msgs (jc_dec cl2) = last (js_out sv2) # ms'"
  shows "jserver_read_header sv = (Inr \<lparr>req_method = req_method q, req_seq = resp_seq r\<rparr>, sv') \<and>
    jserver_read_body (Some ta) sv' = (Inr a, sv') \<and>
    (\<exists>cl3. jclient_read_header fmt cl2 = (Inr \<lparr>resp_seq = req_seq q, resp_error = resp_error r\<rparr>, cl3) \<and>
      (resp_error r = [] \<longrightarrow> jclient_read_body (Some tr) cl3 = Ok v))"
proof -
  have "ji_msgs (js_dec sv) = request_message q arg # ms"
    using assms(9) jclient_written [OF assms(8)] by simp
  note read = jserver_reads_request [OF this assms(1-3), folded assms(10)]
  have kept: "it_pending (js_ids (jserver_run ops sv')) (resp_seq r) = Some (Some (JNum (uint (req_seq q))))"
    by (rule jserver.run_keeps_id [OF _ _ assms(12,13)]) (simp_all add: read(3) assms(11))
  have "js_out sv2 = js_out (jserver_run ops sv') @ [response_message (Some (JNum (uint (req_seq q)))) r res]"
    using jserver.answer(2) [OF kept, of None res] assms(14) by simp
  then have "ji_msgs (jc_dec cl2) = response_message (Some (JNum (uint (req_seq q)))) r res # ms'"
    using assms(15) by simp
  note returned = jclient_reads_response [OF this assms(4-7), of fmt]
  show ?thesis
    using read(1,2) returned assms(11) by (intro conjI exI [of _ "snd (jclient_read_header fmt cl2)"]) auto
qed

text \<open>The arguments and the reply of \<open>Arith.Div\<close>, with another request answered in between.\<close>

theorem json_call_round_trip_witness:
  "\<exists>sv' cl3. jserver_read_body (Some (TNamed [] ''Args'' (TStruct [(''A'', TBasic ''int''), (''B'', TBasic ''int'')]))) sv' =
       (Inr (VStruct ''Args'' [(''A'', VInt 7), (''B'', VInt 2)]), sv') \<and>
     jclient_read_body (Some (TBasic ''int'')) cl3 = Ok (VInt 3)"
proof -
  let ?ta = "TNamed [] ''Args'' (TStruct [(''A'', TBasic ''int''), (''B'', TBasic ''int'')])"
  let ?a = "VStruct ''Args'' [(''A'', VInt 7), (''B'', VInt 2)]"
  let ?q = "\<lparr>req_method = ''Arith.Div'', req_seq = 5\<rparr>"
  let ?r = "\<lparr>resp_seq = 1, resp_error = []\<rparr>"
  let ?cl' = "snd (jclient_write_request None ?q (VPtr ?a) (new_json_client \<lparr>ji_msgs = [], ji_end = EOF\<rparr>))"
  let ?sv = "new_json_server \<lparr>ji_msgs = last (jc_out ?cl') # [JNull], ji_end = EOF\<rparr>"
  let ?ops = "[ReadHeader, WriteResponse None \<lparr>resp_seq = 2, resp_error = ''bad''\<rparr> VNil]"
  let ?sv' = "snd (jserver_read_header ?sv)"
  let ?sv2 = "snd (jserver_write_response None ?r (VPtr (VInt 3)) (jserver_run ?ops ?sv'))"
  let ?cl2 = "new_json_client \<lparr>ji_msgs = last (js_out ?sv2) # [], ji_end = EOF\<rparr>"
  note defs = jclient_write_request_def new_json_client_def new_json_server_def
  have w: "jclient_write_request None ?q (VPtr ?a) (new_json_client \<lparr>ji_msgs = [], ji_end = EOF\<rparr>) = (None, ?cl')"
    by (simp add: jclient_write_request_def)
  have s: "jserver_write_response None ?r (VPtr (VInt 3)) (jserver_run ?ops ?sv') = (None, ?sv2)"
    by (simp add: defs jserver_read_header_def dec_next_def field_string_def matching_def request_message_fields
      ids_new_def new_ids_def jserver_write_response_def ids_take_def members_of_def request_message_def)
  have ta: "plain ?ta" "value_ok ?ta ?a" "denotes (VPtr ?a) ?a"
    by (simp_all add: is_exported_def lower_char_def is_prefix_of_def denotes_def)
  have tr: "plain (TBasic ''int'')" "value_ok (TBasic ''int'') (VInt 3)" "denotes (VPtr (VInt 3)) (VInt 3)"
    "resp_error ?r = [] \<longrightarrow> to_json (VInt 3) \<noteq> JNull"
    by (simp_all add: is_prefix_of_def denotes_def)
  have i: "ji_msgs (js_dec ?sv) = last (jc_out ?cl') # [JNull]" "ji_msgs (jc_dec ?cl2) = last (js_out ?sv2) # []"
    by (simp_all add: new_json_server_def new_json_client_def)
  have n: "resp_seq ?r = it_seq (js_ids ?sv) + 1" "leaves (resp_seq ?r) ?ops" "reads ?ops < 2 ^ 64"
    by (simp_all add: new_json_server_def new_ids_def)
  show ?thesis
    using json_call_round_trip [OF ta tr w i(1) refl n s i(2)] by auto
qed


section \<open>Replies that are encoded as null\<close>

text \<open>
  C39: a successful response whose reply is encoded as null (a nil pointer, slice, map or interface) is
  not read as one: the client codec takes the missing result for an error that is not a string, and the
  header's error ends the client's reading loop with every call still pending.
\<close>

theorem null_reply_ends_the_connection:
  assumes "resp_error r = []" and "to_json res = JNull"
    and "ji_msgs (jc_dec cl) = response_message (Some (JNum (uint (n :: u64)))) r res # ms"
    and "cl_reader s = RReading"
  shows "\<exists>t. input_header (fst (jclient_read_header fmt cl)) s = Some t \<and>
    cl_reader t = RTerm (ErrorString (''invalid error '' @ fmt None)) \<and> cl_pending t = cl_pending s"
proof -
  have "fst (jclient_read_header fmt cl) = Inl (ErrorString (''invalid error '' @ fmt None))"
    using assms(1-3) by (simp add: jclient_read_header_def dec_next_def field_u64_def matching_def
      field_raw_def Let_def response_error_def)
  then show ?thesis using assms(4) by (simp add: input_header_def)
qed

theorem null_reply_ends_the_connection_witness:
  "\<exists>s t. cl_reader s = RReading \<and> cl_pending s = [1 \<mapsto> 0] \<and>
     input_header (fst (jclient_read_header (\<lambda>_. ''<nil>'')
       (new_json_client \<lparr>ji_msgs = [JObj [(''id'', JNum 1), (''result'', JNull), (''error'', JNull)]],
          ji_end = EOF\<rparr>))) s = Some t \<and>
     cl_reader t = RTerm (ErrorString ''invalid error <nil>'') \<and> cl_pending t = [1 \<mapsto> 0]"
proof -
  let ?s = "new_basic_client\<lparr>cl_pending := [1 \<mapsto> 0]\<rparr>"
  let ?r = "\<lparr>resp_seq = 1, resp_error = []\<rparr>"
  have m: "ji_msgs (jc_dec (new_json_client
      \<lparr>ji_msgs = [JObj [(''id'', JNum 1), (''result'', JNull), (''error'', JNull)]], ji_end = EOF\<rparr>)) =
    response_message (Some (JNum (uint (1 :: u64)))) ?r (VPtr VNil) # []"
    by (simp add: response_message_def new_json_client_def)
  have "cl_reader ?s = RReading" "cl_pending ?s = [1 \<mapsto> 0]" by (simp_all add: new_basic_client_def)
  moreover from this(1) obtain t where "input_header (fst (jclient_read_header (\<lambda>_. ''<nil>'')
       (new_json_client \<lparr>ji_msgs = [JObj [(''id'', JNum 1), (''result'', JNull), (''error'', JNull)]],
          ji_end = EOF\<rparr>))) ?s = Some t \<and> cl_reader t = RTerm (ErrorString ''invalid error <nil>'') \<and>
      cl_pending t = cl_pending ?s"
    using null_reply_ends_the_connection [OF _ _ m, of ?s "\<lambda>_. ''<nil>''"] by auto
  ultimately show ?thesis by (intro exI [of _ ?s] exI [of _ t]) simp
qed


section \<open>The bidirectional codec\<close>

text \<open>
  C40: what the bidirectional codec makes of a message whose method is \<open>m\<close>: with a method it is a request,
  numbered if it has an id and given number 0 if it is a notification; without one it is a response,
  and its id is dereferenced: the process panics exactly on messages that have neither.
\<close>

theorem birpc_header_by_message:
  assumes "ji_msgs (jb_dec c) = j # js" and "members_of j = Inr ms" and "field_string ''method'' [] ms = Inr m"
  shows "(fst (jbirpc_read_header fmt c) = Panic \<longleftrightarrow> m = [] \<and> field_raw ''id'' ms = None) \<and>
    (m \<noteq> [] \<longrightarrow> fst (jbirpc_read_header fmt c) =
       Ok (\<lparr>req_method = m, req_seq = (if field_raw ''id'' ms = None then 0 else it_seq (jb_ids c) + 1)\<rparr>,
           zero_response)) \<and>
    (\<forall>q p. m = [] \<longrightarrow> fst (jbirpc_read_header fmt c) = Ok (q, p) \<longrightarrow>
       q = zero_request \<and> (\<exists>raw. field_raw ''id'' ms = Some raw \<and> to_u64 raw = Some (resp_seq p)))"
  using assms
  by (auto simp: jbirpc_read_header_def dec_next_def ids_new_def Let_def split: option.splits sum.splits)

theorem birpc_header_by_message_witness:
  "fst (jbirpc_read_header (\<lambda>_. []) (new_json_birpc \<lparr>ji_msgs = [JObj [(''jsonrpc'', JStr ''2.0'')]], ji_end = EOF\<rparr>)) = Panic"
proof -
  have k: "\<not> same_key ''method'' ''jsonrpc''" "\<not> same_key ''id'' ''jsonrpc''" by (simp_all add: same_key_def)
  have "ji_msgs (jb_dec (new_json_birpc \<lparr>ji_msgs = [JObj [(''jsonrpc'', JStr ''2.0'')]], ji_end = EOF\<rparr>)) =
    JObj [(''jsonrpc'', JStr ''2.0'')] # []" by (simp add: new_json_birpc_def)
  from birpc_header_by_message [OF this, of "[(''jsonrpc'', JStr ''2.0'')]" "[]" "\<lambda>_. []"] show ?thesis
    by (simp add: members_of_def field_string_def matching_def field_raw_def k)
qed

lemma zero_not_taken:
  "\<forall>n \<in> dom (it_pending (jb_ids c)). n \<noteq> 0 \<and> unat n \<le> unat (it_seq (jb_ids c)) \<Longrightarrow>
   unat (it_seq (jb_ids c)) + reads ops < 2 ^ 64 \<Longrightarrow> it_pending (jb_ids (jbirpc_run fmt ops c)) 0 = None"
proof (induction ops arbitrary: c)
  case (Cons x ops)
  show ?case
  proof (cases x)
    case ReadHeader
    let ?c = "snd (jbirpc_read_header fmt c)"
    have next_seq: "it_seq (jb_ids c) + 1 \<noteq> 0" "unat (it_seq (jb_ids c) + 1) = Suc (unat (it_seq (jb_ids c)))"
      using Cons.prems(2) ReadHeader by (simp_all add: unat_word_ariths unat_eq_zero [symmetric])
    have "it_pending (jb_ids (jbirpc_run fmt ops ?c)) 0 = None"
    proof (rule Cons.IH)
      show "\<forall>n \<in> dom (it_pending (jb_ids ?c)). n \<noteq> 0 \<and> unat n \<le> unat (it_seq (jb_ids ?c))"
        using jbirpc_read_ids [of fmt c] Cons.prems(1) next_seq
        by (auto simp: ids_new_def Let_def le_SucI domI split: if_splits)
      show "unat (it_seq (jb_ids ?c)) + reads ops < 2 ^ 64"
        using jbirpc_read_ids [of fmt c] Cons.prems(2) next_seq ReadHeader by (auto simp: ids_new_def Let_def)
    qed
    then show ?thesis using ReadHeader by simp
  next
    case (WriteResponse w r v)
    have "jb_ids (snd (jbirpc_write_response w r v c)) = jb_ids c \<or>
      jb_ids (snd (jbirpc_write_response w r v c)) =
        (jb_ids c)\<lparr>it_pending := (it_pending (jb_ids c))(resp_seq r := None)\<rparr>"
      by (auto simp: jbirpc_write_response_def ids_take_def split: option.splits)
    then have "it_pending (jb_ids (jbirpc_run fmt ops (snd (jbirpc_write_response w r v c)))) 0 = None"
      using Cons.prems WriteResponse by (intro Cons.IH) (auto simp: domI split: if_splits)
    then show ?thesis using WriteResponse by simp
  qed
qed auto

text \<open>
  A notification, which has number 0, is never answered: as long as the numbers have not come round
  to 0, a response with that number is refused and nothing is written for it.
\<close>

theorem notification_is_never_answered:
  assumes "reads ops < 2 ^ 64 - 1" and "resp_seq r = 0"
  shows "jbirpc_write_response w r x (jbirpc_run fmt ops (new_json_birpc d)) =
    (Some bad_number, jbirpc_run fmt ops (new_json_birpc d))"
proof (rule jbirpc.unknown_number)
  show "it_pending (jb_ids (jbirpc_run fmt ops (new_json_birpc d))) (resp_seq r) = None"
    unfolding assms(2) by (rule zero_not_taken) (use assms(1) in \<open>auto simp: new_json_birpc_def new_ids_def\<close>)
qed

theorem notification_is_never_answered_witness:
  "\<exists>c. req_method (fst (case fst (jbirpc_read_header (\<lambda>_. []) c) of Ok x \<Rightarrow> x)) = ''A.B'' \<and>
     fst (jbirpc_write_response None \<lparr>resp_seq = 0, resp_error = []\<rparr> (VInt 1)
       (snd (jbirpc_read_header (\<lambda>_. []) c))) = Some bad_number"
proof -
  let ?d = "\<lparr>ji_msgs = [JObj [(''method'', JStr ''A.B''), (''params'', JArr [])]], ji_end = EOF\<rparr>"
  have "fst (jbirpc_write_response None \<lparr>resp_seq = 0, resp_error = []\<rparr> (VInt 1)
      (jbirpc_run (\<lambda>_. []) [ReadHeader] (new_json_birpc ?d))) = Some bad_number"
    using notification_is_never_answered [of "[ReadHeader]" "\<lparr>resp_seq = 0, resp_error = []\<rparr>" None "VInt 1"
      "\<lambda>_. []" ?d] by simp
  then show ?thesis
    by (intro exI [of _ "new_json_birpc ?d"])
       (simp add: jbirpc_read_header_def new_json_birpc_def dec_next_def members_of_def field_string_def
         matching_def field_raw_def)
qed

lemma jbirpc_reads_request:
  assumes "ji_msgs (jb_dec c) = request_message q x # ms" "req_method q \<noteq> []"
    "plain t" "value_ok t v" "denotes x v"
  shows "jbirpc_read_header fmt c =
      (Ok (\<lparr>req_method = req_method q, req_seq = it_seq (jb_ids c) + 1\<rparr>, zero_response),
       snd (jbirpc_read_header fmt c))"
    and "jbirpc_read_request_body (Some t) (snd (jbirpc_read_header fmt c)) = Inr v"
    and "jb_ids (snd (jbirpc_read_header fmt c)) = snd (ids_new (Some (JNum (uint (req_seq q)))) (jb_ids c))"
  using assms(1,2) params_round_trip [OF assms(3,4)] denotes_json [OF assms(5)]
  by (simp_all add: jbirpc_read_header_def dec_next_def field_string_def matching_def field_raw_def
    ids_new_def Let_def jbirpc_read_request_body_def read_params_def)

lemma jbirpc_reads_response:
  assumes "ji_msgs (jb_dec c) = response_message (Some (JNum (uint n))) r x # ms"
    and "plain t" "value_ok t v" "denotes x v" "resp_error r = [] \<longrightarrow> to_json v \<noteq> JNull"
  shows "jbirpc_read_header fmt c =
      (Ok (zero_request, \<lparr>resp_seq = n, resp_error = resp_error r\<rparr>), snd (jbirpc_read_header fmt c))"
    and "resp_error r = [] \<Longrightarrow> jbirpc_read_response_body (Some t) (snd (jbirpc_read_header fmt c)) = Ok v"
  using assms(1,5) json_round_trip [OF assms(2,3)] denotes_json [OF assms(4)]
  by (auto simp: jbirpc_read_header_def dec_next_def field_string_def matching_def field_raw_def
    Let_def jbirpc_read_response_body_def read_result_def response_error_def split: json.splits)



end
