(* ===== verification/JsonNetwork.thy ===== *)
theory JsonNetwork
  imports NetworkProps JsonProps Package
begin

text \<open>
  A client made by \<open>jsonrpc.NewClient\<close> and a server in \<open>jsonrpc.ServeConn\<close>, on the two ends of one
  connection: the client and the server of Network with the JSON-RPC codecs between them. A codec's decoder
  holds the values that have reached it; what the other codec encodes is appended there. json.Encoder
  writes a value with one \<open>Write\<close> or refuses it: a request or response whose encoding or writing failed
  (\<open>w\<close> is the error) has been transmitted or not (\<open>d\<close>), and what a value cut off in the middle leads to is
  the end of the stream (\<open>jn_up_ended\<close>, \<open>jn_down_ended\<close>), which can come at any time. \<open>rty c\<close> is the type
  of the \<open>Reply\<close> of call \<open>c\<close>, \<open>fmt\<close> how \<open>%v\<close> prints the error of a response.

  The server's codec numbers the requests itself, so the two sides know a request by different numbers.
  \<open>jn_up\<close>, \<open>jn_read\<close>, \<open>jn_down\<close> and \<open>jn_got\<close> are logs of the requests and responses put on the connection
  and not yet read, and read; \<open>jn_num\<close> is a log of the client's number of each request read by the server's.
\<close>

section \<open>State and steps\<close>

record json_net =
  jn_client :: client
  jn_serve :: serve
  jn_cc :: json_client
  jn_sc :: json_server
  jn_up_ended :: bool
  jn_down_ended :: bool
  jn_up :: "(request \<times> goval) list"
  jn_read :: "(request \<times> goval) list"
  jn_down :: "(response \<times> goval) list"
  jn_got :: "(response \<times> goval) list"
  jn_num :: "u64 \<Rightarrow> u64"

definition new_json_net :: "rpc_package \<Rightarrow> nat set \<Rightarrow> nat set \<Rightarrow> svc_store \<Rightarrow> go_error \<Rightarrow> go_error \<Rightarrow> json_net" where
  "new_json_net p oreqs oresps st eu ed =
     (case (json_new_client \<lparr>ji_msgs = [], ji_end = ed\<rparr>, json_serve_conn \<lparr>ji_msgs = [], ji_end = eu\<rparr> p oreqs oresps st) of
        ((cc, c), (sc, v)) \<Rightarrow>
          \<lparr>jn_client = c, jn_serve = v, jn_cc = cc, jn_sc = sc, jn_up_ended = False, jn_down_ended = False,
           jn_up = [], jn_read = [], jn_down = [], jn_got = [], jn_num = (\<lambda>_. 0)\<rparr>)"

definition json_feed :: "bool \<Rightarrow> json \<Rightarrow> json_in \<Rightarrow> json_in" where
  "json_feed ended j d = (if ended then d else d\<lparr>ji_msgs := ji_msgs d @ [j]\<rparr>)"

text \<open>Request \<open>q\<close> with \<open>x\<close>, or response \<open>r\<close> with \<open>x\<close> as value \<open>j\<close>, is put on the connection, if \<open>d\<close>.\<close>

definition put_request :: "bool \<Rightarrow> request \<Rightarrow> goval \<Rightarrow> json_net \<Rightarrow> json_net" where
  "put_request d q x s =
     (if d then s\<lparr>jn_sc := (jn_sc s)\<lparr>js_dec := json_feed (jn_up_ended s) (request_message q x) (js_dec (jn_sc s))\<rparr>,
                  jn_up := jn_up s @ [(q, x)]\<rparr>
      else s)"

definition put_response :: "bool \<Rightarrow> json option \<Rightarrow> response \<Rightarrow> goval \<Rightarrow> json_net \<Rightarrow> json_net" where
  "put_response d raw r x s =
     (if d then s\<lparr>jn_cc := (jn_cc s)\<lparr>jc_dec := json_feed (jn_down_ended s) (response_message raw r x) (jc_dec (jn_cc s))\<rparr>,
                  jn_down := jn_down s @ [(r, x)]\<rparr>
      else s)"

definition got_response :: "json_net \<Rightarrow> json_net" where
  "got_response s = s\<lparr>jn_down := tl (jn_down s), jn_got := jn_got s @ [hd (jn_down s)]\<rparr>"

definition got_request :: "u64 \<Rightarrow> json_net \<Rightarrow> json_net" where
  "got_request n s =
     s\<lparr>jn_up := tl (jn_up s), jn_read := jn_read s @ [hd (jn_up s)], jn_num := (jn_num s)(n := req_seq (fst (hd (jn_up s))))\<rparr>"

inductive json_client_side ::
  "(nat \<Rightarrow> gotype option) \<Rightarrow> (json option \<Rightarrow> string) \<Rightarrow> json_net \<Rightarrow> json_net \<Rightarrow> bool" for rty fmt where
  jnc_caller: "caller_step True (jn_client s) c \<Longrightarrow> cl_tried c = cl_tried (jn_client s) \<Longrightarrow>
    json_client_side rty fmt s (s\<lparr>jn_client := c\<rparr>)"
| jnc_close: "jclient_close k (jn_cc s) = (w, cc) \<Longrightarrow> client_close w (jn_client s) = (r, b, c) \<Longrightarrow>
    json_client_side rty fmt s (s\<lparr>jn_client := c, jn_cc := (if b then cc else jn_cc s)\<rparr>)"
| jnc_send: "jclient_write_request w (cl_request (jn_client s)) (c_args (cl_calls (jn_client s) k)) (jn_cc s) = (r, cc) \<Longrightarrow>
    send_write r k (jn_client s) = Some c \<Longrightarrow> (w = None \<Longrightarrow> d) \<Longrightarrow> (0 < jc_closes (jn_cc s) \<Longrightarrow> \<not> d) \<Longrightarrow>
    json_client_side rty fmt s
      (put_request d (cl_request (jn_client s)) (c_args (cl_calls (jn_client s) k)) (s\<lparr>jn_client := c, jn_cc := cc\<rparr>))"
| jnc_header: "ji_msgs (jc_dec (jn_cc s)) \<noteq> [] \<Longrightarrow> jclient_read_header fmt (jn_cc s) = (h, cc) \<Longrightarrow>
    input_header h (jn_client s) = Some c \<Longrightarrow>
    json_client_side rty fmt s (got_response (s\<lparr>jn_client := c, jn_cc := cc\<rparr>))"
| jnc_no_header: "ji_msgs (jc_dec (jn_cc s)) = [] \<Longrightarrow> jn_down_ended s \<Longrightarrow> jclient_read_header fmt (jn_cc s) = (h, cc) \<Longrightarrow>
    input_header h (jn_client s) = Some c \<Longrightarrow> json_client_side rty fmt s (s\<lparr>jn_client := c, jn_cc := cc\<rparr>)"
| jnc_body: "jclient_read_body (reply_target rty (cl_reader (jn_client s))) (jn_cc s) = Ok v \<Longrightarrow>
    input_body (Inr v) (jn_client s) = Some c \<Longrightarrow> json_client_side rty fmt s (s\<lparr>jn_client := c\<rparr>)"
| jnc_bad_body: "jclient_read_body (reply_target rty (cl_reader (jn_client s))) (jn_cc s) = Fail e \<Longrightarrow>
    input_body (Inl e) (jn_client s) = Some c \<Longrightarrow> json_client_side rty fmt s (s\<lparr>jn_client := c\<rparr>)"
| jnc_terminate: "input_terminate ks (jn_client s) = Some c \<Longrightarrow> json_client_side rty fmt s (s\<lparr>jn_client := c\<rparr>)"
| jnc_ended: "json_client_side rty fmt s (s\<lparr>jn_cc := (jn_cc s)\<lparr>jc_dec := (jc_dec (jn_cc s))
      \<lparr>ji_msgs := take n (ji_msgs (jc_dec (jn_cc s)))\<rparr>\<rparr>, jn_down_ended := True\<rparr>)"

definition on_json_conn :: "conn \<Rightarrow> json_net \<Rightarrow> json_net" where
  "on_json_conn c s = s\<lparr>jn_serve := (jn_serve s)\<lparr>so_conn := c\<rparr>\<rparr>"

inductive json_server_side :: "json_net \<Rightarrow> json_net \<Rightarrow> bool" where
  jns_get: "serve_get (jn_serve s) = Some t \<Longrightarrow> json_server_side s (s\<lparr>jn_serve := t\<rparr>)"
| jns_header: "ji_msgs (js_dec (jn_sc s)) \<noteq> [] \<Longrightarrow> jserver_read_header (jn_sc s) = (Inr q, sc) \<Longrightarrow>
    serve_header (Inr q) (jn_serve s) = Some t \<Longrightarrow>
    json_server_side s (got_request (req_seq q) (s\<lparr>jn_serve := t, jn_sc := sc\<rparr>))"
| jns_no_header: "jserver_read_header (jn_sc s) = (Inl e, sc) \<Longrightarrow> ji_msgs (js_dec (jn_sc s)) \<noteq> [] \<or> jn_up_ended s \<Longrightarrow>
    serve_header (Inl e) (jn_serve s) = Some t \<Longrightarrow> json_server_side s (s\<lparr>jn_serve := t, jn_sc := sc\<rparr>)"
| jns_body: "so_loop (jn_serve s) = LBody found \<Longrightarrow> jserver_read_body (body_target found) (jn_sc s) = (b, sc) \<Longrightarrow>
    serve_body b (jn_serve s) = Some t \<Longrightarrow> json_server_side s (s\<lparr>jn_serve := t, jn_sc := sc\<rparr>)"
| jns_replied: "serve_replied (jn_serve s) = Some t \<Longrightarrow> json_server_side s (s\<lparr>jn_serve := t\<rparr>)"
| jns_close: "serve_close (jn_serve s) = Some t \<Longrightarrow> jserver_close k (jn_sc s) = (r, sc) \<Longrightarrow>
    json_server_side s (s\<lparr>jn_serve := t, jn_sc := sc\<rparr>)"
| jns_cancel: "serve_cancel (jn_serve s) = Some t \<Longrightarrow> json_server_side s (s\<lparr>jn_serve := t\<rparr>)"
| jns_job: "job_step (so_conn (jn_serve s)) c \<Longrightarrow> cn_wire c = cn_wire (so_conn (jn_serve s)) \<Longrightarrow>
    json_server_side s (on_json_conn c s)"
| jns_write: "j_pc (cn_jobs (so_conn (jn_serve s)) j) = JWriting a body \<Longrightarrow>
    jserver_write_response w (resp_obj (cn_server (so_conn (jn_serve s))) a) body (jn_sc s) = (r, sc) \<Longrightarrow>
    job_write j (so_conn (jn_serve s)) = Some c \<Longrightarrow>
    ids_take (resp_seq (resp_obj (cn_server (so_conn (jn_serve s))) a)) (js_ids (jn_sc s)) = Some (raw, t) \<Longrightarrow>
    (w = None \<Longrightarrow> d) \<Longrightarrow> (0 < js_closes (jn_sc s) \<Longrightarrow> \<not> d) \<Longrightarrow>
    json_server_side s (put_response d raw (resp_obj (cn_server (so_conn (jn_serve s))) a) body
      ((on_json_conn c s)\<lparr>jn_sc := sc\<rparr>))"
| jns_no_write: "j_pc (cn_jobs (so_conn (jn_serve s)) j) = JWriting a body \<Longrightarrow>
    jserver_write_response w (resp_obj (cn_server (so_conn (jn_serve s))) a) body (jn_sc s) = (r, sc) \<Longrightarrow>
    job_write j (so_conn (jn_serve s)) = Some c \<Longrightarrow>
    ids_take (resp_seq (resp_obj (cn_server (so_conn (jn_serve s))) a)) (js_ids (jn_sc s)) = None \<Longrightarrow>
    json_server_side s ((on_json_conn c s)\<lparr>jn_sc := sc\<rparr>)"
| jns_env: "env_step (so_conn (jn_serve s)) c \<Longrightarrow>
    bs_services (cn_server c) = bs_services (cn_server (so_conn (jn_serve s))) \<Longrightarrow> json_server_side s (on_json_conn c s)"
| jns_ended: "json_server_side s (s\<lparr>jn_sc := (jn_sc s)\<lparr>js_dec := (js_dec (jn_sc s))
      \<lparr>ji_msgs := take n (ji_msgs (js_dec (jn_sc s)))\<rparr>\<rparr>, jn_up_ended := True\<rparr>)"

inductive json_reach ::
  "(nat \<Rightarrow> gotype option) \<Rightarrow> (json option \<Rightarrow> string) \<Rightarrow> rpc_package \<Rightarrow> json_net \<Rightarrow> bool" for rty fmt p where
  jr_new: "ready_server (default_server p) oreqs oresps background st \<Longrightarrow> ctx_err (ss_ctxs st) (g_std background) = None \<Longrightarrow>
    json_reach rty fmt p (new_json_net p oreqs oresps st eu ed)"
| jr_client: "json_reach rty fmt p s \<Longrightarrow> json_client_side rty fmt s t \<Longrightarrow> json_reach rty fmt p t"
| jr_server: "json_reach rty fmt p s \<Longrightarrow> json_server_side s t \<Longrightarrow> json_reach rty fmt p t"

lemma put_request_simps [simp]:
  "jn_client (put_request d q x s) = jn_client s" "jn_serve (put_request d q x s) = jn_serve s"
  "jn_cc (put_request d q x s) = jn_cc s" "jn_up_ended (put_request d q x s) = jn_up_ended s"
  "jn_down_ended (put_request d q x s) = jn_down_ended s" "jn_read (put_request d q x s) = jn_read s"
  "jn_down (put_request d q x s) = jn_down s" "jn_got (put_request d q x s) = jn_got s"
  "jn_num (put_request d q x s) = jn_num s" "js_ids (jn_sc (put_request d q x s)) = js_ids (jn_sc s)"
  "js_params (jn_sc (put_request d q x s)) = js_params (jn_sc s)"
  "jn_up (put_request d q x s) = jn_up s @ (if d then [(q, x)] else [])"
  by (simp_all add: put_request_def)

lemma put_response_simps [simp]:
  "jn_client (put_response d raw r x s) = jn_client s" "jn_serve (put_response d raw r x s) = jn_serve s"
  "jn_sc (put_response d raw r x s) = jn_sc s" "jn_up_ended (put_response d raw r x s) = jn_up_ended s"
  "jn_down_ended (put_response d raw r x s) = jn_down_ended s" "jn_read (put_response d raw r x s) = jn_read s"
  "jn_up (put_response d raw r x s) = jn_up s" "jn_got (put_response d raw r x s) = jn_got s"
  "jn_num (put_response d raw r x s) = jn_num s" "jc_result (jn_cc (put_response d raw r x s)) = jc_result (jn_cc s)"
  "jn_down (put_response d raw r x s) = jn_down s @ (if d then [(r, x)] else [])"
  by (simp_all add: put_response_def)

lemma on_json_conn_simps [simp]:
  "jn_client (on_json_conn c s) = jn_client s" "jn_serve (on_json_conn c s) = (jn_serve s)\<lparr>so_conn := c\<rparr>"
  "jn_cc (on_json_conn c s) = jn_cc s" "jn_sc (on_json_conn c s) = jn_sc s"
  "jn_up_ended (on_json_conn c s) = jn_up_ended s" "jn_down_ended (on_json_conn c s) = jn_down_ended s"
  "jn_up (on_json_conn c s) = jn_up s" "jn_read (on_json_conn c s) = jn_read s" "jn_down (on_json_conn c s) = jn_down s"
  "jn_got (on_json_conn c s) = jn_got s" "jn_num (on_json_conn c s) = jn_num s"
  by (simp_all add: on_json_conn_def)

lemma got_simps [simp]:
  "jn_client (got_response s) = jn_client s" "jn_serve (got_response s) = jn_serve s" "jn_cc (got_response s) = jn_cc s"
  "jn_sc (got_response s) = jn_sc s" "jn_up_ended (got_response s) = jn_up_ended s"
  "jn_down_ended (got_response s) = jn_down_ended s" "jn_up (got_response s) = jn_up s" "jn_read (got_response s) = jn_read s"
  "jn_num (got_response s) = jn_num s" "jn_down (got_response s) = tl (jn_down s)"
  "jn_got (got_response s) = jn_got s @ [hd (jn_down s)]"
  "jn_client (got_request n s) = jn_client s" "jn_serve (got_request n s) = jn_serve s" "jn_cc (got_request n s) = jn_cc s"
  "jn_sc (got_request n s) = jn_sc s" "jn_up_ended (got_request n s) = jn_up_ended s"
  "jn_down_ended (got_request n s) = jn_down_ended s" "jn_down (got_request n s) = jn_down s"
  "jn_got (got_request n s) = jn_got s" "jn_up (got_request n s) = tl (jn_up s)"
  "jn_read (got_request n s) = jn_read s @ [hd (jn_up s)]"
  "jn_num (got_request n s) = (jn_num s)(n := req_seq (fst (hd (jn_up s))))"
  by (simp_all add: got_response_def got_request_def)


section \<open>The two sides are a client and a server\<close>

lemma json_client_side_client:
  "json_client_side rty fmt s t \<Longrightarrow> client_step (jn_client s) (jn_client t) \<or> jn_client t = jn_client s"
proof (induction rule: json_client_side.induct)
  case (jnc_send w s k r cc c d)
  then show ?case by (auto intro: client_step.intros)
qed (auto intro: client_step.intros dest: caller_step_client)

lemma json_client_side_serve: "json_client_side rty fmt s t \<Longrightarrow> jn_serve t = jn_serve s"
  by (induction rule: json_client_side.induct) simp_all

lemma json_server_side_client: "json_server_side s t \<Longrightarrow> jn_client t = jn_client s"
  by (induction rule: json_server_side.induct) simp_all

lemma json_server_side_serve:
  assumes "json_server_side s t"
  shows "serve_step (jn_serve s) (jn_serve t) \<or> jn_serve t = jn_serve s"
  using assms
proof (cases rule: json_server_side.cases)
  case (jns_job c)
  then show ?thesis by (simp add: ss_job)
next
  case (jns_env c)
  then show ?thesis by (simp add: ss_env)
next
  case (jns_write j a body w r sc c raw d)
  then show ?thesis by (simp add: ss_job js_write)
next
  case (jns_no_write j a body w r sc c)
  then show ?thesis by (simp add: ss_job js_write)
qed (auto intro: serve_step.intros)

lemma json_reach_sides: "json_reach rty fmt p s \<Longrightarrow> client_reach (jn_client s) \<and> serve_reach (jn_serve s)"
proof (induction rule: json_reach.induct)
  case (jr_new oreqs oresps st eu ed)
  then show ?case
    by (simp add: new_json_net_def json_new_client_def new_client_with_codec_def json_serve_conn_def
        pkg_serve_codec_def reach_new sr_codec)
next
  case (jr_client s t)
  then show ?case
    using json_client_side_client [OF jr_client(2)] json_client_side_serve [OF jr_client(2)] reach_step by metis
next
  case (jr_server s t)
  then show ?case
    using json_server_side_serve [OF jr_server(2)] json_server_side_client [OF jr_server(2)] sr_step by metis
qed

end
