(* ===== verification/JsonNetworkInv.thy ===== *)
theory JsonNetworkInv
  imports JsonNetwork
begin

text \<open>
  With the requests and responses of the server's half in the client's numbers, the network over JSON-RPC
  has the invariants of Network, with JSON's decoding of arguments and replies: what NetworkProps shows of
  a call holds of a call over JSON. The numbers of \<open>_goRPC_.Cancel\<close> are not translated.
\<close>

section \<open>In the client's numbers\<close>

text \<open>The decodings of the network this one is seen as.\<close>

definition json_args :: arg_decoder where
  "json_args ty x = read_params ty (Some (JArr [to_json x]))"

definition json_replies :: "(nat \<Rightarrow> gotype option) \<Rightarrow> reply_decoder" where
  "json_replies rty c x =
     (case read_result (rty c) (if to_json x = JNull then None else Some (to_json x)) of
        Ok v \<Rightarrow> Inr v | Fail e \<Rightarrow> Inl e | Panic \<Rightarrow> Inl missing_params)"

definition own_request :: "(u64 \<Rightarrow> u64) \<Rightarrow> request \<Rightarrow> request" where
  "own_request f q = q\<lparr>req_seq := f (req_seq q)\<rparr>"

definition own_response :: "(u64 \<Rightarrow> u64) \<Rightarrow> response \<times> goval \<Rightarrow> response \<times> goval" where
  "own_response f y = ((fst y)\<lparr>resp_seq := f (resp_seq (fst y))\<rparr>, snd y)"

definition own_job :: "(u64 \<Rightarrow> u64) \<Rightarrow> job \<Rightarrow> job" where
  "own_job f job = job\<lparr>j_head := own_request f (j_head job)\<rparr>"

definition own_conn :: "(u64 \<Rightarrow> u64) \<Rightarrow> conn \<Rightarrow> conn" where
  "own_conn f c = c\<lparr>cn_jobs := (\<lambda>j. own_job f (cn_jobs c j)), cn_wire := map (map_prod id (own_response f)) (cn_wire c)\<rparr>"

definition own_serve :: "(u64 \<Rightarrow> u64) \<Rightarrow> serve \<Rightarrow> serve" where
  "own_serve f v = v\<lparr>so_conn := own_conn f (so_conn v), so_headers := map (own_request f) (so_headers v)\<rparr>"

definition json_link :: "json_net \<Rightarrow> net" where
  "json_link s =
     \<lparr>nt_client = jn_client s, nt_serve = own_serve (jn_num s) (jn_serve s), nt_up = jn_up s, nt_read = jn_read s,
      nt_down = map (own_response (jn_num s)) (jn_down s), nt_got = map (own_response (jn_num s)) (jn_got s),
      nt_lost = False\<rparr>"

lemma own_simps [simp]:
  "req_method (own_request f q) = req_method q" "req_seq (own_request f q) = f (req_seq q)"
  "resp_seq (fst (own_response f y)) = f (resp_seq (fst y))" "resp_error (fst (own_response f y)) = resp_error (fst y)"
  "snd (own_response f y) = snd y"
  "j_kind (own_job f job) = j_kind job" "j_result (own_job f job) = j_result job" "j_pc (own_job f job) = j_pc job"
  "j_head (own_job f job) = own_request f (j_head job)"
  "cn_jobs (own_conn f c) j = own_job f (cn_jobs c j)" "cn_njobs (own_conn f c) = cn_njobs c"
  "cn_server (own_conn f c) = cn_server c" "cn_wire (own_conn f c) = map (map_prod id (own_response f)) (cn_wire c)"
  "so_conn (own_serve f v) = own_conn f (so_conn v)" "so_loop (own_serve f v) = so_loop v"
  "so_headers (own_serve f v) = map (own_request f) (so_headers v)"
  by (simp_all add: own_request_def own_response_def own_job_def own_conn_def own_serve_def)

lemma json_link_simps [simp]:
  "nt_client (json_link s) = jn_client s" "nt_serve (json_link s) = own_serve (jn_num s) (jn_serve s)"
  "nt_up (json_link s) = jn_up s" "nt_read (json_link s) = jn_read s"
  "nt_down (json_link s) = map (own_response (jn_num s)) (jn_down s)"
  "nt_got (json_link s) = map (own_response (jn_num s)) (jn_got s)" "nt_lost (json_link s) = False"
  by (simp_all add: json_link_def)

lemma own_answer:
  "answer (own_job f job) = map_option (own_response f) (answer job)"
  by (auto simp: answer_def own_response_def split: option.split)

lemma own_serve_conn [simp]: "own_serve f (v\<lparr>so_conn := c\<rparr>) = (own_serve f v)\<lparr>so_conn := own_conn f c\<rparr>"
  by (simp add: own_serve_def)

lemma json_written: "written (json_link s) = own_response (jn_num s) ` snd ` set (cn_wire (so_conn (jn_serve s)))"
  by (simp add: written_def image_image)

lemma get_service_method: "req_method q = req_method q' \<Longrightarrow> get_service q s = get_service q' s"
  by (simp only: get_service_def)

lemma own_quiet: "quiet v w \<Longrightarrow> quiet (own_serve f v) (own_serve f w)"
  by (simp add: quiet_def own_conn_def)

lemma from_json_error: "from_json t j = Inl e \<Longrightarrow> \<exists>x. e = UnmarshalError x"
proof (induction t arbitrary: j e)
  case (TBasic n)
  then show ?case by (auto simp: basic_from_json_def split: if_splits json.splits option.splits)
next
  case (TNamed p n u)
  then show ?case by (auto simp: map_sum_def split: gotype.splits sum.splits)
next
  case (TPtr t)
  then show ?case by (auto simp: map_sum_def split: sum.splits if_splits)
next
  case (TSlice t)
  then show ?case by (auto simp: map_sum_def split: sum.splits json.splits dest!: sequence_Inl)
next
  case (TMapOf k t)
  then show ?case by (auto simp: map_sum_def split: sum.splits json.splits dest!: sequence_Inl)
next
  case (TStruct fs)
  then show ?case
    by (auto simp: map_sum_def members_of_def split: sum.splits json.splits if_splits option.splits
        dest!: sequence_Inl)
qed simp

lemma json_args_error: "\<forall>ty x e. json_args ty x = Inl e \<longrightarrow> error_text e \<noteq> []"
  by (auto simp: json_args_def read_params_def decode_params_def dest!: from_json_error split: option.splits if_splits)


section \<open>What is on the connection\<close>

text \<open>The numbers that the server's codec has given to requests; request \<open>i\<close> got number \<open>i + 1\<close>.\<close>

definition number_of :: "nat \<Rightarrow> u64" where
  "number_of i = of_nat (Suc i)"

definition given :: "json_net \<Rightarrow> u64 set" where
  "given s = number_of ` {..<length (jn_read s)}"

definition numbered :: "json_net \<Rightarrow> bool" where
  "numbered s \<longleftrightarrow> it_seq (js_ids (jn_sc s)) = of_nat (length (jn_read s)) \<and>
     (\<forall>n raw. it_pending (js_ids (jn_sc s)) n = Some raw \<longrightarrow> n \<in> given s \<and> raw = Some (JNum (uint (jn_num s n)))) \<and>
     (\<forall>i < length (jn_read s). jn_num s (number_of i) = req_seq (fst (jn_read s ! i))) \<and>
     so_headers (jn_serve s) =
       map (\<lambda>i. \<lparr>req_method = req_method (fst (jn_read s ! i)), req_seq = number_of i\<rparr>) [0..<length (jn_read s)] \<and>
     (\<forall>y \<in> set (jn_down s @ jn_got s). resp_seq (fst y) \<in> given s)"

definition up_messages :: "json_net \<Rightarrow> json list" where
  "up_messages s = map (\<lambda>(q, x). request_message q x) (jn_up s)"

definition down_messages :: "json_net \<Rightarrow> json list" where
  "down_messages s = map (\<lambda>(r, x). response_message (Some (JNum (uint (jn_num s (resp_seq r))))) r x) (jn_down s)"

definition result_of :: "response \<times> goval \<Rightarrow> json option" where
  "result_of y = (if resp_error (fst y) = [] \<and> to_json (snd y) \<noteq> JNull then Some (to_json (snd y)) else None)"

definition in_step :: "json_net \<Rightarrow> bool" where
  "in_step s \<longleftrightarrow> arrived (ji_msgs (js_dec (jn_sc s))) (jn_up_ended s) (up_messages s) \<and>
     arrived (ji_msgs (jc_dec (jn_cc s))) (jn_down_ended s) (down_messages s) \<and>
     (\<forall>f. so_loop (jn_serve s) = LBody f \<longrightarrow> js_params (jn_sc s) = Some (JArr [to_json (snd (last (jn_read s)))])) \<and>
     (\<forall>k p. cl_reader (jn_client s) = RGot k p \<longrightarrow> jc_result (jn_cc s) = result_of (last (jn_got s)) \<and>
        resp_error p = resp_error (fst (last (jn_got s))))"

lemma numberedD:
  assumes "numbered s"
  shows "it_seq (js_ids (jn_sc s)) = of_nat (length (jn_read s))"
    "it_pending (js_ids (jn_sc s)) n = Some raw \<Longrightarrow> n \<in> given s \<and> raw = Some (JNum (uint (jn_num s n)))"
    "i < length (jn_read s) \<Longrightarrow> jn_num s (number_of i) = req_seq (fst (jn_read s ! i))"
    "so_headers (jn_serve s) =
       map (\<lambda>i. \<lparr>req_method = req_method (fst (jn_read s ! i)), req_seq = number_of i\<rparr>) [0..<length (jn_read s)]"
    "y \<in> set (jn_down s @ jn_got s) \<Longrightarrow> resp_seq (fst y) \<in> given s"
  using assms unfolding numbered_def by blast+

lemma numbered_keeps:
  assumes "numbered s" "js_ids (jn_sc t) = js_ids (jn_sc s)" "jn_read t = jn_read s" "jn_num t = jn_num s"
    and "so_headers (jn_serve t) = so_headers (jn_serve s)"
    and "set (jn_down t @ jn_got t) \<subseteq> set (jn_down s @ jn_got s)"
  shows "numbered t"
  using assms(1,6) unfolding numbered_def given_def assms(2-5) by blast

lemma in_stepD:
  assumes "in_step s"
  shows "arrived (ji_msgs (js_dec (jn_sc s))) (jn_up_ended s) (up_messages s)"
    "arrived (ji_msgs (jc_dec (jn_cc s))) (jn_down_ended s) (down_messages s)"
    "so_loop (jn_serve s) = LBody f \<Longrightarrow> js_params (jn_sc s) = Some (JArr [to_json (snd (last (jn_read s)))])"
    "cl_reader (jn_client s) = RGot k p \<Longrightarrow> jc_result (jn_cc s) = result_of (last (jn_got s)) \<and>
        resp_error p = resp_error (fst (last (jn_got s)))"
  using assms unfolding in_step_def by blast+

lemma in_stepI:
  assumes "arrived (ji_msgs (js_dec (jn_sc s))) (jn_up_ended s) (up_messages s)"
    and "arrived (ji_msgs (jc_dec (jn_cc s))) (jn_down_ended s) (down_messages s)"
    and "\<And>f. so_loop (jn_serve s) = LBody f \<Longrightarrow> js_params (jn_sc s) = Some (JArr [to_json (snd (last (jn_read s)))])"
    and "\<And>k p. cl_reader (jn_client s) = RGot k p \<Longrightarrow> jc_result (jn_cc s) = result_of (last (jn_got s)) \<and>
        resp_error p = resp_error (fst (last (jn_got s)))"
  shows "in_step s"
  using assms unfolding in_step_def by blast

lemma arrived_put: "arrived (ji_msgs d) ended gs \<Longrightarrow> arrived (ji_msgs (json_feed ended m d)) ended (gs @ [m])"
  by (auto simp: arrived_def json_feed_def)

lemma in_step_put_request:
  assumes "in_step s"
  shows "in_step (put_request d q x s)"
proof (rule in_stepI)
  show "arrived (ji_msgs (js_dec (jn_sc (put_request d q x s)))) (jn_up_ended (put_request d q x s))
      (up_messages (put_request d q x s))"
    using arrived_put [OF in_stepD(1) [OF assms], of "request_message q x"] in_stepD(1) [OF assms]
    by (simp add: put_request_def up_messages_def)
qed (use in_stepD(2-) [OF assms] in \<open>simp_all add: down_messages_def\<close>)


section \<open>Numbers\<close>

lemma unat_number: "Suc i < 2 ^ 64 \<Longrightarrow> unat (number_of i) = Suc i"
  by (simp add: number_of_def unat_of_nat take_bit_nat_eq_self del: of_nat_Suc)

lemma number_inj: "number_of i = number_of j \<Longrightarrow> Suc i < 2 ^ 64 \<Longrightarrow> Suc j < 2 ^ 64 \<Longrightarrow> i = j"
  unfolding number_of_def by (simp only: u64_of_nat_eq_iff nat.inject)

lemma number_fresh: "Suc (length (jn_read s)) < 2 ^ 64 \<Longrightarrow> number_of (length (jn_read s)) \<notin> given s"
  using number_inj [of "length (jn_read s)"] by (fastforce simp: given_def)

lemma strictly_counts:
  fixes xs :: "u64 list"
  assumes "sorted_wrt (<) xs" "0 \<notin> set xs"
  shows "i < length xs \<Longrightarrow> Suc i \<le> unat (xs ! i)"
proof (induction i)
  case 0
  then have "xs ! 0 \<noteq> 0" using assms(2) nth_mem by metis
  then show ?case by (simp add: Suc_le_eq unat_gt_0)
next
  case (Suc i)
  have "xs ! i < xs ! Suc i" using sorted_wrt_nth_less [OF assms(1)] Suc.prems by simp
  then have "unat (xs ! i) < unat (xs ! Suc i)" by (simp add: word_less_nat_alt)
  then show ?case using Suc by simp
qed

lemma strictly_bounded:
  fixes xs :: "u64 list"
  assumes "sorted_wrt (<) xs" "0 \<notin> set xs"
  shows "length xs < 2 ^ 64"
proof (cases "length xs")
  case (Suc n)
  then have "Suc n \<le> unat (xs ! n)" using strictly_counts [OF assms, of n] by simp
  also have "\<dots> < 2 ^ 64" using unsigned_less [of "xs ! n", where 'a = nat] by simp
  finally show ?thesis using Suc by simp
qed simp

lemma subseq_sorted: "subseq xs ys \<Longrightarrow> sorted_wrt P ys \<Longrightarrow> sorted_wrt P xs"
  by (induction rule: list_emb.induct) (auto dest: subseq_set)

text \<open>The numbers the client has put on the connection rise from 1.\<close>

lemma tried_numbers:
  assumes "client_reach c" "cl_ncalls c < 2 ^ 64"
  shows "sorted_wrt (<) (map (req_seq \<circ> fst) (cl_tried c))" "0 \<notin> set (map (req_seq \<circ> fst) (cl_tried c))"
proof -
  note W = reach_wire [OF assms]
  show "sorted_wrt (<) (map (req_seq \<circ> fst) (cl_tried c))" by (rule inv_wire_sorted [OF W])
  have "req_seq (fst x) \<noteq> 0" if x: "x \<in> set (cl_tried c)" for x
  proof -
    obtain k where k: "k \<in> set (cl_registered c)" "is_request_of c x k" using inv_wire_of [OF W x] by blast
    have "c_seq (cl_calls c k) \<noteq> 0"
      by (rule inv_seq_nonzero_registered [OF reach_seq [OF assms] _ k(1)]) (use assms(2) in \<open>simp add: bounded_def\<close>)
    with k(2) show ?thesis by (simp add: is_request_of_def)
  qed
  then show "0 \<notin> set (map (req_seq \<circ> fst) (cl_tried c))" by auto
qed

lemma sent_numbers:
  assumes "inv_sent t" "client_reach (nt_client t)" "cl_ncalls (nt_client t) < 2 ^ 64"
  shows "sorted_wrt (<) (map (req_seq \<circ> fst) (nt_read t @ nt_up t))" "0 \<notin> set (map (req_seq \<circ> fst) (nt_read t @ nt_up t))"
proof -
  have sub: "subseq (map (req_seq \<circ> fst) (nt_read t @ nt_up t)) (map (req_seq \<circ> fst) (cl_tried (nt_client t)))"
    using assms(1) by (intro subseq_map) (simp add: inv_sent_def)
  show "sorted_wrt (<) (map (req_seq \<circ> fst) (nt_read t @ nt_up t))"
    by (rule subseq_sorted [OF sub tried_numbers(1) [OF assms(2,3)]])
  show "0 \<notin> set (map (req_seq \<circ> fst) (nt_read t @ nt_up t))"
    using subseq_set [OF sub] tried_numbers(2) [OF assms(2,3)] by metis
qed


section \<open>The client's steps\<close>

lemma json_client_keeps:
  assumes "json_client_side rty fmt s t"
  shows "jn_serve t = jn_serve s" "jn_read t = jn_read s" "jn_num t = jn_num s" "js_ids (jn_sc t) = js_ids (jn_sc s)"
    "js_params (jn_sc t) = js_params (jn_sc s)"
  using assms by (induction rule: json_client_side.induct) simp_all

lemma jclient_frames:
  "jclient_close k cc = (w, cc') \<Longrightarrow> jc_dec cc' = jc_dec cc \<and> jc_result cc' = jc_result cc"
  "jclient_write_request w q x cc = (r, cc') \<Longrightarrow> r = w \<and> jc_dec cc' = jc_dec cc \<and> jc_result cc' = jc_result cc"
  by (auto simp: jclient_close_def jclient_write_request_def)

text \<open>Reading the next response.\<close>

lemma jclient_header_of:
  assumes "ji_msgs (jc_dec c) = response_message (Some (JNum (uint (n :: u64)))) r x # ms"
    and "jclient_read_header fmt c = (h, c')"
  shows "ji_msgs (jc_dec c') = ms" "jc_result c' = result_of (r, x)"
    "h = Inr \<lparr>resp_seq = n, resp_error = resp_error r\<rparr> \<or> (\<exists>e. h = Inl e)"
  using assms
  by (auto simp: jclient_read_header_def dec_next_def field_u64_def matching_def field_raw_def
      Let_def result_of_def response_error_def split: json.splits if_splits)

lemma inv_net_skipped:
  assumes "inv_net decA decR srv s" "\<forall>k p. cl_reader (nt_client s) \<noteq> RGot k p"
  shows "inv_net decA decR srv (s\<lparr>nt_down := tl (nt_down s), nt_got := got\<rparr>)"
proof -
  have "set (tl (nt_down s)) \<subseteq> set (nt_down s)" by (cases "nt_down s") auto
  with assms show ?thesis
    by (auto simp: inv_net_def inv_sent_def inv_found_def inv_called_def inv_down_def written_def)
qed

definition json_inv :: "(nat \<Rightarrow> gotype option) \<Rightarrow> basic_server \<Rightarrow> json_net \<Rightarrow> bool" where
  "json_inv rty srv s \<longleftrightarrow> numbered s \<and> in_step s \<and> inv_net json_args (json_replies rty) srv (json_link s)"

lemma json_invD:
  assumes "json_inv rty srv s"
  shows "numbered s" "in_step s" "inv_net json_args (json_replies rty) srv (json_link s)"
  using assms by (simp_all add: json_inv_def)

lemma in_step_client:
  assumes "in_step s" "jc_dec cc = jc_dec (jn_cc s)"
    and "cl_reader c = cl_reader (jn_client s) \<and> jc_result cc = jc_result (jn_cc s) \<or> (\<forall>k p. cl_reader c \<noteq> RGot k p)"
  shows "in_step (s\<lparr>jn_client := c, jn_cc := cc\<rparr>)"
  using assms by (elim disjE) (simp_all add: in_step_def up_messages_def down_messages_def)

text \<open>The client moves as in Network, and its codec has read nothing.\<close>

lemma json_inv_client:
  assumes "json_inv rty srv s" "client_side (json_replies rty) (json_link s) ((json_link s)\<lparr>nt_client := c, nt_lost := l\<rparr>)"
    and "jc_dec cc = jc_dec (jn_cc s)"
    and "cl_reader c = cl_reader (jn_client s) \<and> jc_result cc = jc_result (jn_cc s) \<or> (\<forall>k p. cl_reader c \<noteq> RGot k p)"
  shows "json_inv rty srv (s\<lparr>jn_client := c, jn_cc := cc\<rparr>)"
proof -
  let ?t = "s\<lparr>jn_client := c, jn_cc := cc\<rparr>"
  note I = json_invD [OF assms(1)]
  have l: "json_link ?t = (json_link s)\<lparr>nt_client := c\<rparr>" by (simp add: json_link_def)
  have "client_moves (json_replies rty) (json_link s) (json_link ?t)"
    unfolding l by (rule client_moves_lost [OF assms(2)])
  moreover have "numbered ?t" by (rule numbered_keeps [OF I(1)]) simp_all
  moreover have "in_step ?t"
    by (rule in_step_client [OF I(2) assms(3,4)])
  ultimately show ?thesis using inv_net_client_moves [OF _ I(3)] by (simp add: json_inv_def)
qed

lemma net_lost_False: "(json_link s)\<lparr>nt_client := c, nt_lost := False\<rparr> = (json_link s)\<lparr>nt_client := c\<rparr>"
  by (simp add: json_link_def)

text \<open>The client moves alone.\<close>

lemma json_inv_moved:
  assumes "json_inv rty srv s" "client_side (json_replies rty) (json_link s) ((json_link s)\<lparr>nt_client := c\<rparr>)"
    and "cl_reader c = cl_reader (jn_client s) \<or> (\<forall>k p. cl_reader c \<noteq> RGot k p)"
  shows "json_inv rty srv (s\<lparr>jn_client := c\<rparr>)"
proof -
  have "client_side (json_replies rty) (json_link s) ((json_link s)\<lparr>nt_client := c, nt_lost := False\<rparr>)"
    unfolding net_lost_False by (rule assms(2))
  then have "json_inv rty srv (s\<lparr>jn_client := c, jn_cc := jn_cc s\<rparr>)"
    by (rule json_inv_client [OF assms(1)]) (use assms(3) in simp_all)
  then show ?thesis by simp
qed

lemma json_inv_sent:
  assumes "json_inv rty srv s" "send_write w k (jn_client s) = Some c"
    and "jclient_write_request w (cl_request (jn_client s)) (c_args (cl_calls (jn_client s) k)) (jn_cc s) = (r, cc)"
    and "w = None \<Longrightarrow> d"
  shows "json_inv rty srv (put_request d (cl_request (jn_client s)) (c_args (cl_calls (jn_client s) k))
    (s\<lparr>jn_client := c, jn_cc := cc\<rparr>))"
    (is "json_inv rty srv ?t")
proof -
  let ?q = "cl_request (jn_client s)" and ?x = "c_args (cl_calls (jn_client s) k)"
  note I = json_invD [OF assms(1)]
  have f: "jc_dec cc = jc_dec (jn_cc s)" "jc_result cc = jc_result (jn_cc s)"
    using jclient_frames(2) [OF assms(3)] by simp_all
  have last: "last (cl_tried c) = (?q, ?x)" using assms(2) by (auto elim!: send_writeE)
  have reader: "cl_reader c = cl_reader (jn_client s)" using send_write_sent [OF assms(2)] by simp
  show ?thesis
  proof (cases d)
    case True
    have l: "json_link ?t = (json_link s)\<lparr>nt_client := c, nt_up := nt_up (json_link s) @ [last (cl_tried c)]\<rparr>"
      using True last by (simp add: json_link_def)
    have "client_moves (json_replies rty) (json_link s) (json_link ?t)"
    proof (cases w)
      case None
      show ?thesis unfolding l by (rule client_moves_step [OF nc_send [where k = k] refl]) (use assms(2) None in simp)
    next
      case (Some e)
      have "client_side (json_replies rty) (json_link s)
          ((json_link s)\<lparr>nt_client := c, nt_up := nt_up (json_link s) @ [last (cl_tried c)], nt_lost := True\<rparr>)"
        by (rule nc_torn [where e = e and k = k]) (use assms(2) Some in simp)
      then show ?thesis unfolding l by (auto intro: client_moves_lost [where l = True])
    qed
    moreover have "numbered ?t" by (rule numbered_keeps [OF I(1)]) simp_all
    moreover have "in_step (s\<lparr>jn_client := c, jn_cc := cc\<rparr>)"
      by (rule in_step_client [OF I(2) f(1)]) (simp add: reader f(2))
    ultimately show ?thesis
      using inv_net_client_moves [OF _ I(3)] in_step_put_request by (simp add: json_inv_def)
  next
    case False
    then obtain e where e: "w = Some e" using assms(4) by auto
    have "client_side (json_replies rty) (json_link s) ((json_link s)\<lparr>nt_client := c, nt_lost := False\<rparr>)"
      unfolding net_lost_False by (rule nc_refused [where e = e and k = k]) (use assms(2) e in simp)
    then have "json_inv rty srv (s\<lparr>jn_client := c, jn_cc := cc\<rparr>)"
      by (rule json_inv_client [OF assms(1) _ f(1)]) (simp add: reader f(2))
    then show ?thesis using False by (simp add: put_request_def)
  qed
qed

lemma json_inv_header:
  assumes "json_inv rty srv s" "ji_msgs (jc_dec (jn_cc s)) \<noteq> []"
    and "jclient_read_header fmt (jn_cc s) = (h, cc)" "input_header h (jn_client s) = Some c"
  shows "json_inv rty srv (got_response (s\<lparr>jn_client := c, jn_cc := cc\<rparr>))"
    (is "json_inv rty srv ?t")
proof -
  note I = json_invD [OF assms(1)]
  let ?f = "jn_num s"
  obtain r x down where d: "jn_down s = (r, x) # down"
    using assms(2) in_stepD(2) [OF I(2)]
    by (cases "jn_down s"; cases "ji_msgs (jc_dec (jn_cc s))") (auto simp: down_messages_def)
  then obtain ms where m: "ji_msgs (jc_dec (jn_cc s)) = response_message (Some (JNum (uint (?f (resp_seq r))))) r x # ms"
      "arrived ms (jn_down_ended s) (down_messages ?t)"
    using assms(2) in_stepD(2) [OF I(2)] by (cases "ji_msgs (jc_dec (jn_cc s))") (auto simp: down_messages_def)
  note h = jclient_header_of [OF m(1) assms(3)]
  have n: "numbered ?t" by (rule numbered_keeps [OF I(1)]) (use d in auto)
  have reader: "h = Inr p \<and> resp_error p = resp_error r" if "cl_reader c = RGot k p" for k p
    using reader_sent(2) [OF assms(4)] that h(3) by auto
  have i: "in_step ?t"
    by (rule in_stepI) (use in_stepD(1,3) [OF I(2)] m(2) h(1,2) d reader in \<open>auto simp: up_messages_def\<close>)
  from h(3) have "inv_net json_args (json_replies rty) srv (json_link ?t)"
  proof (elim disjE exE)
    assume q: "h = Inr \<lparr>resp_seq = ?f (resp_seq r), resp_error = resp_error r\<rparr>"
    have o: "own_response ?f (r, x) = (\<lparr>resp_seq = ?f (resp_seq r), resp_error = resp_error r\<rparr>, x)"
      by (simp add: own_response_def)
    have "client_side (json_replies rty) (json_link s) ((json_link s)\<lparr>nt_client := c,
        nt_down := map (own_response ?f) down,
        nt_got := nt_got (json_link s) @ [(\<lparr>resp_seq = ?f (resp_seq r), resp_error = resp_error r\<rparr>, x)]\<rparr>)"
      by (rule nc_header) (use d o q assms(4) in simp_all)
    moreover have "(json_link s)\<lparr>nt_client := c, nt_down := map (own_response ?f) down,
        nt_got := nt_got (json_link s) @ [(\<lparr>resp_seq = ?f (resp_seq r), resp_error = resp_error r\<rparr>, x)]\<rparr> = json_link ?t"
      using d o by (simp add: json_link_def)
    ultimately show ?thesis using inv_net_client_moves [OF client_moves_step [OF _ refl] I(3)] by simp
  next
    fix e assume e: "h = Inl e"
    have "client_side (json_replies rty) (json_link s) ((json_link s)\<lparr>nt_client := c, nt_lost := True\<rparr>)"
      by (rule nc_no_header [where e = e]) (use assms(4) e in simp)
    then have "inv_net json_args (json_replies rty) srv ((json_link s)\<lparr>nt_client := c\<rparr>)"
      using inv_net_client_moves [OF client_moves_lost [where l = True] I(3)] by simp
    moreover have "\<forall>k p. cl_reader c \<noteq> RGot k p" using reader e by blast
    ultimately have "inv_net json_args (json_replies rty) srv ((json_link s)\<lparr>nt_client := c,
        nt_down := tl (nt_down ((json_link s)\<lparr>nt_client := c\<rparr>)), nt_got := nt_got (json_link ?t)\<rparr>)"
      by (intro inv_net_skipped) simp_all
    also have "(json_link s)\<lparr>nt_client := c, nt_down := tl (nt_down ((json_link s)\<lparr>nt_client := c\<rparr>)),
        nt_got := nt_got (json_link ?t)\<rparr> = json_link ?t"
      using d by (simp add: json_link_def)
    finally show ?thesis .
  qed
  with n i show ?thesis by (simp add: json_inv_def)
qed

text \<open>The body of a response is the value the codec has kept of it.\<close>

lemma json_inv_body:
  assumes "json_inv rty srv s"
    and "jclient_read_body (reply_target rty (cl_reader (jn_client s))) (jn_cc s) = b"
    and "b = Ok v \<and> y = Inr v \<or> (\<exists>e. b = Fail e \<and> y = Inl e)" "input_body y (jn_client s) = Some c"
  shows "json_inv rty srv (s\<lparr>jn_client := c\<rparr>)"
proof -
  note I = json_invD [OF assms(1)]
  obtain k p where g: "cl_reader (jn_client s) = RGot k p" "\<forall>k p. cl_reader c \<noteq> RGot k p"
    using assms(4) by (rule input_body_received)
  note res = in_stepD(4) [OF I(2) g(1)]
  have got: "jn_got s \<noteq> []" using I(3) g(1) by (auto simp: inv_net_def inv_down_def)
  show ?thesis
  proof (rule json_inv_moved [OF assms(1)])
    show "client_side (json_replies rty) (json_link s) ((json_link s)\<lparr>nt_client := c\<rparr>)"
    proof (cases "k = None \<or> resp_error p \<noteq> []")
      case True
      then have "y = Inr VNil"
        using assms(2,3) g(1) by (auto simp: reply_target_def jclient_read_body_def read_result_def split: option.splits)
      then show ?thesis by (intro nc_discard [OF _ True, where v = VNil]) (use assms(4) g(1) in simp_all)
    next
      case False
      then obtain i where i: "k = Some i" "resp_error p = []" by auto
      let ?x = "snd (last (jn_got s))"
      have "b = read_result (rty i) (if to_json ?x = JNull then None else Some (to_json ?x))"
        using assms(2) g(1) i res by (auto simp: reply_target_def jclient_read_body_def result_of_def)
      then have "y = json_replies rty i ?x" using assms(3) by (auto simp: json_replies_def)
      then show ?thesis
        by (intro nc_body [where k = i and p = p]) (use assms(4) g(1) i got in \<open>simp_all add: last_map\<close>)
    qed
  qed (use g(2) in simp)
qed

lemma json_inv_client_side:
  assumes "json_client_side rty fmt s t" "json_inv rty srv s"
  shows "json_inv rty srv t"
  using assms(1)
proof (cases rule: json_client_side.cases)
  case (jnc_caller c)
  show ?thesis
    unfolding jnc_caller(1)
    by (rule json_inv_moved [OF assms(2) nc_caller])
       (use jnc_caller(2,3) caller_step_reader [OF jnc_caller(2)] in simp_all)
next
  case (jnc_close k w cc r b c)
  note f = jclient_frames(1) [OF jnc_close(2)]
  have "client_side (json_replies rty) (json_link s) ((json_link s)\<lparr>nt_client := c, nt_lost := True\<rparr>)"
    by (rule nc_close [where w = w]) (use jnc_close(3) in simp)
  then show ?thesis
    unfolding jnc_close(1) by (rule json_inv_client [OF assms(2)]) (use f reader_sent(1) [OF jnc_close(3)] in simp_all)
next
  case (jnc_send w k r cc c d)
  then show ?thesis using json_inv_sent [OF assms(2)] jclient_frames(2) [OF jnc_send(2)] by simp
next
  case (jnc_header h cc c)
  then show ?thesis using json_inv_header [OF assms(2)] by simp
next
  case (jnc_no_header h cc c)
  then have h: "h = Inl (ji_end (jc_dec (jn_cc s)))" "jc_dec cc = jc_dec (jn_cc s)"
    by (auto simp: jclient_read_header_def dec_next_def)
  have "client_side (json_replies rty) (json_link s) ((json_link s)\<lparr>nt_client := c, nt_lost := True\<rparr>)"
    by (rule nc_no_header) (use jnc_no_header(5) h in simp)
  moreover have "\<forall>k p. cl_reader c \<noteq> RGot k p" using reader_sent(2) [OF jnc_no_header(5)] h(1) by auto
  ultimately show ?thesis unfolding jnc_no_header(1) by (intro json_inv_client [OF assms(2) _ h(2)]) simp_all
next
  case (jnc_body v c)
  then show ?thesis using json_inv_body [OF assms(2)] by simp
next
  case (jnc_bad_body e c)
  then show ?thesis using json_inv_body [OF assms(2)] by simp
next
  case (jnc_terminate ks c)
  show ?thesis
    unfolding jnc_terminate(1)
    by (rule json_inv_moved [OF assms(2) nc_terminate [where ks = ks]])
       (use jnc_terminate(2) reader_sent(3) [OF jnc_terminate(2)] in simp_all)
next
  case (jnc_ended n)
  note I = json_invD [OF assms(2)]
  have "json_link t = json_link s" unfolding jnc_ended(1) by (simp add: json_link_def)
  moreover have "numbered t" by (rule numbered_keeps [OF I(1)]) (simp_all add: jnc_ended(1))
  moreover have "in_step t"
    by (rule in_stepI)
       (use in_stepD [OF I(2)] arrived_cut in \<open>auto simp: jnc_ended(1) up_messages_def down_messages_def\<close>)
  ultimately show ?thesis using I(3) by (simp add: json_inv_def)
qed


section \<open>The server's steps\<close>

lemma known_jobs:
  assumes "numbered s" "inv_loop (jn_serve s)" "j < cn_njobs (so_conn (jn_serve s))"
  shows "j_head (cn_jobs (so_conn (jn_serve s)) j) =
      \<lparr>req_method = req_method (fst (jn_read s ! j)), req_seq = number_of j\<rparr>" "j < length (jn_read s)"
proof -
  let ?n = "cn_njobs (so_conn (jn_serve s))" and ?k = "length (jn_read s)"
  have e: "map (\<lambda>i. \<lparr>req_method = req_method (fst (jn_read s ! i)), req_seq = number_of i\<rparr>) [0..<?k] =
      map (\<lambda>j. j_head (cn_jobs (so_conn (jn_serve s)) j)) [0..<?n] @
        (if has_header (so_loop (jn_serve s)) then [current_request (so_conn (jn_serve s))] else [])"
    using inv_loop_headers [OF assms(2)] numberedD(4) [OF assms(1)] by simp
  show k: "j < ?k" using arg_cong [OF e, of length] assms(3) by simp
  show "j_head (cn_jobs (so_conn (jn_serve s)) j) =
      \<lparr>req_method = req_method (fst (jn_read s ! j)), req_seq = number_of j\<rparr>"
    using arg_cong [OF e, of "\<lambda>xs. xs ! j"] k assms(3) by (simp add: nth_append)
qed

lemma known_number:
  assumes "numbered s" "inv_loop (jn_serve s)" "j < cn_njobs (so_conn (jn_serve s))"
  shows "jn_num s (req_seq (j_head (cn_jobs (so_conn (jn_serve s)) j))) = req_seq (fst (jn_read s ! j))"
  using known_jobs [OF assms] numberedD(3) [OF assms(1)] by simp

lemma known_answers:
  assumes "numbered s" "inv_loop (jn_serve s)" "j < cn_njobs (so_conn (jn_serve s))"
    and "answer (cn_jobs (so_conn (jn_serve s)) j) = Some y"
  shows "resp_seq (fst y) \<in> given s"
  using known_jobs [OF assms(1-3)] assms(4) by (auto simp: answer_def given_def split: option.splits)

lemma known_wire:
  assumes "numbered s" "inv_loop (jn_serve s)" "conn_inv (so_conn (jn_serve s))"
    and "z \<in> set (cn_wire (so_conn (jn_serve s)))"
  shows "resp_seq (fst (snd z)) \<in> given s"
  using inv_wire_entry [OF conn_invD(4) [OF assms(3)] assms(4)] known_answers [OF assms(1,2)] by blast

lemma in_step_server:
  assumes "in_step s" "js_dec sc = js_dec (jn_sc s)" "\<And>f. so_loop v = LBody f \<Longrightarrow>
      so_loop (jn_serve s) = so_loop v \<and> js_params sc = js_params (jn_sc s)"
  shows "in_step (s\<lparr>jn_serve := v, jn_sc := sc\<rparr>)"
  by (rule in_stepI) (use in_stepD [OF assms(1)] assms(2,3) in \<open>simp_all add: up_messages_def down_messages_def\<close>)

lemma json_link_serve: "json_link (s\<lparr>jn_serve := v, jn_sc := sc\<rparr>) = (json_link s)\<lparr>nt_serve := own_serve (jn_num s) v\<rparr>"
  by (simp add: json_link_def)

lemma json_inv_quiet:
  assumes "json_inv rty srv s" "quiet (jn_serve s) v" "js_dec sc = js_dec (jn_sc s)" "js_ids sc = js_ids (jn_sc s)"
  shows "json_inv rty srv (s\<lparr>jn_serve := v, jn_sc := sc\<rparr>)"
proof -
  note I = json_invD [OF assms(1)]
  have "numbered (s\<lparr>jn_serve := v, jn_sc := sc\<rparr>)"
    by (rule numbered_keeps [OF I(1)]) (use assms(2,4) in \<open>simp_all add: quiet_def\<close>)
  moreover have "in_step (s\<lparr>jn_serve := v, jn_sc := sc\<rparr>)"
    by (rule in_step_server [OF I(2) assms(3)]) (use assms(2) in \<open>simp add: quiet_def\<close>)
  moreover have "inv_net json_args (json_replies rty) srv (json_link (s\<lparr>jn_serve := v, jn_sc := sc\<rparr>))"
    unfolding json_link_serve by (rule inv_net_quiet [OF I(3)]) (use own_quiet [OF assms(2)] in simp)
  ultimately show ?thesis by (simp add: json_inv_def)
qed

lemma json_link_conn: "json_link (on_json_conn c s) = on_conn (own_conn (jn_num s) c) (json_link s)"
  by (simp add: json_link_def on_conn_def)

lemma json_inv_conn:
  assumes "json_inv rty srv s"
    and "bs_services (cn_server c) = bs_services (cn_server (so_conn (jn_serve s)))"
    and "cn_njobs c = cn_njobs (so_conn (jn_serve s))"
    and "\<And>j. j < cn_njobs c \<Longrightarrow> j_kind (cn_jobs c j) = j_kind (cn_jobs (so_conn (jn_serve s)) j) \<and>
      j_head (cn_jobs c j) = j_head (cn_jobs (so_conn (jn_serve s)) j) \<and>
      (j_kind (cn_jobs (so_conn (jn_serve s)) j) = JError \<longrightarrow>
         j_result (cn_jobs c j) = j_result (cn_jobs (so_conn (jn_serve s)) j))"
    and "set (cn_wire (so_conn (jn_serve s))) \<subseteq> set (cn_wire c)"
  shows "json_inv rty srv (on_json_conn c s)"
proof -
  note I = json_invD [OF assms(1)]
  have "numbered (on_json_conn c s)" by (rule numbered_keeps [OF I(1)]) simp_all
  moreover have "in_step (on_json_conn c s)"
    by (rule in_stepI) (use in_stepD [OF I(2)] in \<open>simp_all add: up_messages_def down_messages_def\<close>)
  moreover have "inv_net json_args (json_replies rty) srv (json_link (on_json_conn c s))"
    unfolding json_link_conn by (rule inv_net_conn [OF I(3)]) (use assms(2-5) in \<open>simp_all add: image_mono\<close>)
  ultimately show ?thesis by (simp add: json_inv_def)
qed

lemma json_inv_job:
  assumes "json_inv rty srv s" "job_step (so_conn (jn_serve s)) c"
  shows "json_inv rty srv (on_json_conn c s)"
  by (rule json_inv_conn [OF assms(1) job_step_services [OF assms(2)] _ _ job_step_wire [OF assms(2)]])
     (use job_step_frame [OF assms(2)] job_step_job [OF assms(2)] in simp_all)

lemma jserver_writeE:
  assumes "jserver_write_response w p x sc = (r, sc')"
  obtains (refused) "ids_take (resp_seq p) (js_ids sc) = None" "sc' = sc"
  | (taken) raw t where "ids_take (resp_seq p) (js_ids sc) = Some (raw, t)" "it_pending (js_ids sc) (resp_seq p) = Some raw"
      "js_dec sc' = js_dec sc" "js_params sc' = js_params sc" "it_seq (js_ids sc') = it_seq (js_ids sc)"
      "it_pending (js_ids sc') = (it_pending (js_ids sc))(resp_seq p := None)"
proof (cases "ids_take (resp_seq p) (js_ids sc)")
  case None
  then show thesis using assms by (intro refused) (simp_all add: jserver_write_response_def)
next
  case (Some z)
  then obtain raw t where z: "ids_take (resp_seq p) (js_ids sc) = Some (raw, t)" by (cases z) auto
  then show thesis
    using assms by (intro taken [OF z]) (auto simp: jserver_write_response_def elim!: ids_takeE)
qed

text \<open>Writing a response takes the id of its request out of the table.\<close>

lemma numbered_taken:
  assumes "numbered s" "it_seq (js_ids sc) = it_seq (js_ids (jn_sc s))"
    and "it_pending (js_ids sc) = (it_pending (js_ids (jn_sc s)))(n := None)"
  shows "numbered (s\<lparr>jn_sc := sc\<rparr>)"
  using assms(1) unfolding numbered_def given_def by (simp add: assms(2,3))

lemma json_inv_write:
  assumes "json_inv rty srv s" "inv_loop (jn_serve s)" "conn_inv (so_conn (jn_serve s))"
    and "j_pc (cn_jobs (so_conn (jn_serve s)) j) = JWriting a body"
    and "jserver_write_response w (resp_obj (cn_server (so_conn (jn_serve s))) a) body (jn_sc s) = (r, sc)"
    and "job_write j (so_conn (jn_serve s)) = Some c"
    and "ids_take (resp_seq (resp_obj (cn_server (so_conn (jn_serve s))) a)) (js_ids (jn_sc s)) = Some (raw, t)"
  shows "json_inv rty srv (put_response d raw (resp_obj (cn_server (so_conn (jn_serve s))) a) body
    ((on_json_conn c s)\<lparr>jn_sc := sc\<rparr>))"
proof -
  let ?p = "resp_obj (cn_server (so_conn (jn_serve s))) a"
  let ?s = "(on_json_conn c s)\<lparr>jn_sc := sc\<rparr>"
  note I = json_invD [OF assms(1)]
  have J: "json_inv rty srv (on_json_conn c s)" by (rule json_inv_job [OF assms(1) js_write [OF assms(6)]])
  note J = json_invD [OF J]
  from assms(5) have sc: "it_pending (js_ids (jn_sc s)) (resp_seq ?p) = Some raw" "js_dec sc = js_dec (jn_sc s)"
      "js_params sc = js_params (jn_sc s)" "it_seq (js_ids sc) = it_seq (js_ids (jn_sc s))"
      "it_pending (js_ids sc) = (it_pending (js_ids (jn_sc s)))(resp_seq ?p := None)"
    by (cases rule: jserver_writeE; use assms(7) in simp)+
  have k: "resp_seq ?p \<in> given s" "raw = Some (JNum (uint (jn_num s (resp_seq ?p))))"
    using numberedD(2) [OF I(1) sc(1)] by simp_all
  have n: "numbered ?s" by (rule numbered_taken [OF J(1)]) (use sc in simp_all)
  have i: "in_step ?s"
    by (rule in_stepI) (use in_stepD [OF I(2)] sc(2,3) in \<open>simp_all add: up_messages_def down_messages_def\<close>)
  have l: "json_link ?s = json_link (on_json_conn c s)" by (simp add: json_link_def)
  show ?thesis
  proof (cases d)
    case False
    moreover have "json_inv rty srv ?s" unfolding json_inv_def l using n i J(3) by blast
    ultimately show ?thesis by (simp add: put_response_def)
  next
    case True
    let ?t = "put_response d raw ?p body ?s"
    have "numbered ?t"
      using n k(1) True unfolding numbered_def given_def by (auto simp: put_response_def)
    moreover have "in_step ?t"
    proof (rule in_stepI)
      show "arrived (ji_msgs (jc_dec (jn_cc ?t))) (jn_down_ended ?t) (down_messages ?t)"
        using arrived_put [OF in_stepD(2) [OF i], of "response_message raw ?p body"] True k(2)
        by (simp add: put_response_def down_messages_def)
    qed (use in_stepD [OF i] in \<open>simp_all add: up_messages_def\<close>)
    moreover have "inv_net json_args (json_replies rty) srv (json_link ?t)"
    proof -
      have e: "json_link ?t = (json_link (on_json_conn c s))
          \<lparr>nt_down := nt_down (json_link (on_json_conn c s)) @ [own_response (jn_num s) (?p, body)]\<rparr>"
        using True by (simp add: json_link_def)
      have "(?p, body) \<in> snd ` set (cn_wire c)" using assms(4,6) by (auto elim!: job_writeE)
      then have "own_response (jn_num s) (?p, body) \<in> written (json_link (on_json_conn c s))"
        by (auto simp: json_written)
      then show ?thesis
        using J(3) unfolding e
        by (auto simp: inv_net_def inv_sent_def inv_found_def inv_called_def inv_down_def written_def)
    qed
    ultimately show ?thesis by (simp add: json_inv_def)
  qed
qed

lemma json_inv_no_write:
  assumes "json_inv rty srv s" "jserver_write_response w p x (jn_sc s) = (r, sc)"
    and "job_write j (so_conn (jn_serve s)) = Some c" "ids_take (resp_seq p) (js_ids (jn_sc s)) = None"
  shows "json_inv rty srv ((on_json_conn c s)\<lparr>jn_sc := sc\<rparr>)"
proof -
  have "sc = jn_sc s" using assms(2,4) by (simp add: jserver_write_response_def)
  then have "(on_json_conn c s)\<lparr>jn_sc := sc\<rparr> = on_json_conn c s" by (simp add: on_json_conn_def)
  then show ?thesis using json_inv_job [OF assms(1) js_write [OF assms(3)]] by simp
qed

text \<open>The loop reads a header: the request gets the next number.\<close>

lemma jserver_header_of:
  assumes "ji_msgs (js_dec c) = request_message q x # ms" "jserver_read_header c = (h, c')"
  shows "ji_msgs (js_dec c') = ms" "js_params c' = Some (JArr [to_json x])"
    "h = Inr \<lparr>req_method = req_method q, req_seq = it_seq (js_ids c) + 1\<rparr>"
    "js_ids c' = snd (ids_new (Some (JNum (uint (req_seq q)))) (js_ids c))"
  using assms
  by (auto simp: jserver_read_header_def dec_next_def field_string_def matching_def field_raw_def ids_new_def Let_def)

lemma own_fresh:
  assumes "n \<notin> A"
  shows "req_seq q \<in> A \<Longrightarrow> own_request (f(n := m)) q = own_request f q"
    "resp_seq (fst y) \<in> A \<Longrightarrow> own_response (f(n := m)) y = own_response f y"
  using assms by (auto simp: own_request_def own_response_def)

lemma given_read: "length (jn_read t) = Suc (length (jn_read s)) \<Longrightarrow> given t = insert (number_of (length (jn_read s))) (given s)"
  by (simp add: given_def lessThan_Suc)

lemma json_inv_request:
  assumes "json_inv rty srv s" "inv_loop (jn_serve s)" "conn_inv (so_conn (jn_serve s))"
    and B: "length (jn_read s @ jn_up s) < 2 ^ 64"
    and "ji_msgs (js_dec (jn_sc s)) \<noteq> []" "jserver_read_header (jn_sc s) = (Inr q, sc)"
    and "serve_header (Inr q) (jn_serve s) = Some v"
  shows "json_inv rty srv (got_request (req_seq q) (s\<lparr>jn_serve := v, jn_sc := sc\<rparr>))"
    (is "json_inv rty srv ?t")
proof -
  note I = json_invD [OF assms(1)]
  obtain q' x up where u: "jn_up s = (q', x) # up"
    using assms(5) in_stepD(1) [OF I(2)]
    by (cases "jn_up s"; cases "ji_msgs (js_dec (jn_sc s))") (auto simp: up_messages_def)
  then obtain ms where m: "ji_msgs (js_dec (jn_sc s)) = request_message q' x # ms"
      "arrived ms (jn_up_ended s) (map (\<lambda>(q, x). request_message q x) up)"
    using assms(5) in_stepD(1) [OF I(2)] by (cases "ji_msgs (js_dec (jn_sc s))") (auto simp: up_messages_def)
  note h = jserver_header_of [OF m(1) assms(6)]
  let ?n = "number_of (length (jn_read s))" and ?f = "jn_num s"
  let ?g = "?f(?n := req_seq q')"
  have q: "q = \<lparr>req_method = req_method q', req_seq = ?n\<rparr>"
    using h(3) numberedD(1) [OF I(1)] by (simp add: number_of_def add.commute)
  have fresh: "?n \<notin> given s" by (rule number_fresh) (use B u in simp)
  note same = own_fresh [OF fresh]
  note S = serve_header_read [OF assms(7)]
  have g: "given ?t = insert ?n (given s)" by (rule given_read) simp
  have r: "jn_read ?t = jn_read s @ [(q', x)]" "jn_num ?t = ?g" using u q by simp_all
  have sc: "it_seq (js_ids sc) = of_nat (Suc (length (jn_read s)))"
      "it_pending (js_ids sc) = (it_pending (js_ids (jn_sc s)))(?n \<mapsto> Some (JNum (uint (req_seq q'))))"
    using h(4) numberedD(1) [OF I(1)] by (simp_all add: ids_new_def Let_def number_of_def add.commute)
  have old: "number_of i \<in> given s" if "i < length (jn_read s)" for i using that by (simp add: given_def)
  have "numbered ?t"
    unfolding numbered_def g
  proof (intro conjI allI impI ballI)
    fix k raw assume "it_pending (js_ids (jn_sc ?t)) k = Some raw"
    then show "k \<in> insert ?n (given s)" "raw = Some (JNum (uint (jn_num ?t k)))"
      using numberedD(2) [OF I(1), of k raw] sc(2) r(2) fresh by (auto split: if_splits)
  next
    fix i assume "i < length (jn_read ?t)"
    then show "jn_num ?t (number_of i) = req_seq (fst (jn_read ?t ! i))"
      using numberedD(3) [OF I(1), of i] old [of i] fresh r by (auto simp: nth_append less_Suc_eq)
  next
    show "so_headers (jn_serve ?t) =
        map (\<lambda>i. \<lparr>req_method = req_method (fst (jn_read ?t ! i)), req_seq = number_of i\<rparr>) [0..<length (jn_read ?t)]"
      using S(1) numberedD(4) [OF I(1)] r(1) q by (simp add: nth_append)
  next
    fix y assume "y \<in> set (jn_down ?t @ jn_got ?t)"
    then show "resp_seq (fst y) \<in> insert ?n (given s)" using numberedD(5) [OF I(1), of y] by simp
  qed (simp add: sc(1))
  moreover have "in_step ?t"
  proof (rule in_stepI)
    have "resp_seq p \<noteq> ?n" if "(p, y) \<in> set (jn_down s)" for p y
      using numberedD(5) [OF I(1), of "(p, y)"] fresh that by auto
    then have "down_messages ?t = down_messages s" using r(2) by (auto simp: down_messages_def)
    then show "arrived (ji_msgs (jc_dec (jn_cc ?t))) (jn_down_ended ?t) (down_messages ?t)"
      using in_stepD(2) [OF I(2)] by simp
  qed (use in_stepD [OF I(2)] m(2) h(1,2) u in \<open>simp_all add: up_messages_def\<close>)
  moreover have "inv_net json_args (json_replies rty) srv (json_link ?t)"
  proof -
    let ?v = "own_serve ?g v" and ?jobs = "cn_jobs (so_conn (jn_serve s))"
    have down: "own_response ?g y = own_response ?f y" if "y \<in> set (jn_down s @ jn_got s)" for y
      by (rule same(2) [OF numberedD(5) [OF I(1) that]])
    have wire: "own_response ?g (snd z) = own_response ?f (snd z)" if "z \<in> set (cn_wire (so_conn (jn_serve s)))" for z
      by (rule same(2) [OF known_wire [OF I(1) assms(2,3) that]])
    have jobs: "own_job ?g (?jobs j) = own_job ?f (?jobs j)" if "j < cn_njobs (so_conn (jn_serve s))" for j
      using known_jobs [OF I(1) assms(2) that] old [of j] fresh by (auto simp: own_job_def own_request_def)
    have "so_loop (jn_serve s) = LHeader" using assms(7) by (auto elim!: serve_headerE)
    then have len: "length (jn_read s) = cn_njobs (so_conn (jn_serve s))"
      using arg_cong [OF inv_loop_headers [OF assms(2)], of length] numberedD(4) [OF I(1)] by simp
    have own: "own_request ?g q = q'" using q by (simp add: own_request_def)
    have heads: "map (own_request ?g) (so_headers (jn_serve s)) = map (own_request ?f) (so_headers (jn_serve s))"
      using numberedD(4) [OF I(1)] old fresh by (fastforce simp: own_request_def)
    have "inv_net json_args (json_replies rty) srv
        ((json_link s)\<lparr>nt_serve := ?v, nt_up := up, nt_read := nt_read (json_link s) @ [(q', x)]\<rparr>)"
    proof (rule inv_net_headed [OF I(3)])
      show "so_loop ?v = LBody (get_service q' (cn_server (so_conn (nt_serve (json_link s)))))"
        using S(2) get_service_method [of q q'] q by simp
    qed (use u len S own heads jobs wire in auto)
    also have "(json_link s)\<lparr>nt_serve := ?v, nt_up := up, nt_read := nt_read (json_link s) @ [(q', x)]\<rparr> = json_link ?t"
      using u q down by (simp add: json_link_def)
    finally show ?thesis .
  qed
  ultimately show ?thesis by (simp add: json_inv_def)
qed

text \<open>The arguments are the value the codec has kept of the request.\<close>

lemma current_known:
  assumes "numbered s" "inv_loop (jn_serve s)" "so_loop (jn_serve s) = LBody found"
  shows "length (jn_read s) = Suc (cn_njobs (so_conn (jn_serve s)))"
    "own_request (jn_num s) (current_request (so_conn (jn_serve s))) = fst (last (jn_read s))"
proof -
  let ?n = "cn_njobs (so_conn (jn_serve s))" and ?k = "length (jn_read s)"
  have e: "map (\<lambda>i. \<lparr>req_method = req_method (fst (jn_read s ! i)), req_seq = number_of i\<rparr>) [0..<?k] =
      map (\<lambda>j. j_head (cn_jobs (so_conn (jn_serve s)) j)) [0..<?n] @ [current_request (so_conn (jn_serve s))]"
    using inv_loop_headers [OF assms(2)] numberedD(4) [OF assms(1)] assms(3) by simp
  show k: "?k = Suc ?n" using arg_cong [OF e, of length] by simp
  then have l: "jn_read s ! ?n = last (jn_read s)"
    by (metis diff_Suc_1 last_conv_nth length_0_conv nat.distinct(1))
  have "current_request (so_conn (jn_serve s)) = \<lparr>req_method = req_method (fst (jn_read s ! ?n)), req_seq = number_of ?n\<rparr>"
    using arg_cong [OF e, of "\<lambda>xs. xs ! ?n"] k by (simp add: nth_append)
  then show "own_request (jn_num s) (current_request (so_conn (jn_serve s))) = fst (last (jn_read s))"
    using numberedD(3) [OF assms(1), of ?n] k l by (auto simp: own_request_def)
qed

lemma json_inv_arguments:
  assumes "json_inv rty srv s" "inv_loop (jn_serve s)" "so_loop (jn_serve s) = LBody found"
    and "jserver_read_body (body_target found) (jn_sc s) = (b, sc)" "serve_body b (jn_serve s) = Some v"
  shows "json_inv rty srv (s\<lparr>jn_serve := v, jn_sc := sc\<rparr>)"
proof -
  note I = json_invD [OF assms(1)]
  note L = current_known [OF I(1) assms(2,3)] and B = serve_body_job [OF assms(5,3)]
  let ?n = "cn_njobs (so_conn (jn_serve s))"
  have b: "b = json_args (body_target found) (snd (last (jn_read s)))" "sc = jn_sc s"
    using assms(4) in_stepD(3) [OF I(2) assms(3)] by (simp_all add: jserver_read_body_def json_args_def)
  have f: "found = get_service (fst (last (jn_read s))) srv"
    using I(3) assms(3) by (auto simp: inv_net_def inv_found_def)
  have w: "well_called json_args srv (last (jn_read s)) (own_job (jn_num s) (cn_jobs (so_conn v) ?n))"
  proof (rule well_called_body [OF f])
    show "body_job found b (own_job (jn_num s) (cn_jobs (so_conn v) ?n))"
      using B(8) by (simp add: body_job_def split: sum.splits prod.splits)
  qed (use B(7) L(2) b(1) json_args_error in auto)
  have "inv_net json_args (json_replies rty) srv (json_link (s\<lparr>jn_serve := v, jn_sc := sc\<rparr>))"
    unfolding json_link_serve
    by (rule inv_net_job_added [OF I(3)]) (use L(1) w B(1-6) in simp_all)
  moreover have "numbered (s\<lparr>jn_serve := v, jn_sc := sc\<rparr>)"
    by (rule numbered_keeps [OF I(1)]) (use b(2) B(1) in simp_all)
  moreover have "in_step (s\<lparr>jn_serve := v, jn_sc := sc\<rparr>)"
    by (rule in_step_server [OF I(2)]) (use b(2) B(2) in simp_all)
  ultimately show ?thesis by (simp add: json_inv_def)
qed

lemma json_inv_no_header:
  assumes "json_inv rty srv s" "jserver_read_header (jn_sc s) = (Inl e, sc)" "serve_header (Inl e) (jn_serve s) = Some v"
  shows "json_inv rty srv (s\<lparr>jn_serve := v, jn_sc := sc\<rparr>)"
proof (rule json_inv_quiet [OF assms(1) quiet_steps(2) [OF assms(3)]])
  note I = json_invD [OF assms(1)]
  have "ji_msgs (js_dec (jn_sc s)) = []"
  proof (rule ccontr)
    assume "ji_msgs (js_dec (jn_sc s)) \<noteq> []"
    then obtain q x ms where "ji_msgs (js_dec (jn_sc s)) = request_message q x # ms"
      using in_stepD(1) [OF I(2)]
      by (cases "jn_up s"; cases "ji_msgs (js_dec (jn_sc s))") (auto simp: up_messages_def)
    from jserver_header_of(3) [OF this assms(2)] show False by simp
  qed
  then show "js_dec sc = js_dec (jn_sc s)" "js_ids sc = js_ids (jn_sc s)"
    using assms(2) by (auto simp: jserver_read_header_def dec_next_def)
qed

lemma json_inv_server_side:
  assumes "json_server_side s t" "json_inv rty srv s" "inv_loop (jn_serve s)" "conn_inv (so_conn (jn_serve s))"
    and "length (jn_read s @ jn_up s) < 2 ^ 64"
  shows "json_inv rty srv t"
  using assms(1)
proof (cases rule: json_server_side.cases)
  case (jns_get v)
  then show ?thesis using json_inv_quiet [OF assms(2) quiet_steps(1), of v "jn_sc s"] by simp
next
  case (jns_header q sc v)
  then show ?thesis using json_inv_request [OF assms(2-5)] by simp
next
  case (jns_no_header e sc v)
  then show ?thesis using json_inv_no_header [OF assms(2)] by simp
next
  case (jns_body found b sc v)
  then show ?thesis using json_inv_arguments [OF assms(2,3)] by simp
next
  case (jns_replied v)
  then show ?thesis using json_inv_quiet [OF assms(2) quiet_steps(3), of v "jn_sc s"] by simp
next
  case (jns_close v k r sc)
  then show ?thesis using json_inv_quiet [OF assms(2) quiet_steps(4), of v sc] by (auto simp: jserver_close_def)
next
  case (jns_cancel v)
  then show ?thesis using json_inv_quiet [OF assms(2) quiet_steps(5), of v "jn_sc s"] by simp
next
  case (jns_job c)
  then show ?thesis using json_inv_job [OF assms(2)] by simp
next
  case (jns_write j a body w r sc c raw x d)
  then show ?thesis using json_inv_write [OF assms(2-4)] by simp
next
  case (jns_no_write j a body w r sc c)
  then show ?thesis using json_inv_no_write [OF assms(2)] by simp
next
  case (jns_env c)
  then show ?thesis using json_inv_conn [OF assms(2) jns_env(3)] env_step_frame [OF jns_env(2)] by simp
next
  case (jns_ended n)
  note I = json_invD [OF assms(2)]
  have "json_link t = json_link s" unfolding jns_ended by (simp add: json_link_def)
  moreover have "numbered t" by (rule numbered_keeps [OF I(1)]) (simp_all add: jns_ended)
  moreover have "in_step t"
    by (rule in_stepI)
       (use in_stepD [OF I(2)] arrived_cut in \<open>auto simp: jns_ended up_messages_def down_messages_def\<close>)
  ultimately show ?thesis using I(3) by (simp add: json_inv_def)
qed

lemma json_inv_bounded:
  assumes "json_inv rty srv s" "client_reach (jn_client s)" "cl_ncalls (jn_client s) < 2 ^ 64"
  shows "sorted_wrt (<) (map (req_seq \<circ> fst) (jn_read s @ jn_up s))"
    "0 \<notin> set (map (req_seq \<circ> fst) (jn_read s @ jn_up s))" "length (jn_read s @ jn_up s) < 2 ^ 64"
proof -
  have "inv_sent (json_link s)" using json_invD(3) [OF assms(1)] by (simp add: inv_net_def)
  note n = sent_numbers [OF this, simplified json_link_simps, OF assms(2,3)]
  show "sorted_wrt (<) (map (req_seq \<circ> fst) (jn_read s @ jn_up s))"
    "0 \<notin> set (map (req_seq \<circ> fst) (jn_read s @ jn_up s))" by (rule n)+
  show "length (jn_read s @ jn_up s) < 2 ^ 64" using strictly_bounded [OF n] by (simp del: map_append)
qed

lemma json_reach_inv:
  assumes "json_reach rty fmt p s" "cl_ncalls (jn_client s) < 2 ^ 64"
  shows "json_inv rty (default_server p) s"
  using assms
proof (induction rule: json_reach.induct)
  case (jr_new oreqs oresps st eu ed)
  show ?case
    by (simp add: json_inv_def numbered_def in_step_def given_def up_messages_def down_messages_def
        inv_net_def inv_sent_def inv_found_def inv_called_def inv_down_def written_def new_json_net_def
        json_new_client_def new_client_with_codec_def json_serve_conn_def pkg_serve_codec_def new_json_server_def
        new_json_client_def new_ids_def serve_codec_def new_conn_def new_pending_def new_basic_client_def
        split: prod.splits)
next
  case (jr_client s t)
  have "cl_ncalls (jn_client s) \<le> cl_ncalls (jn_client t)"
    using json_client_side_client [OF jr_client(2)] client_step_ncalls by auto
  then show ?case using json_inv_client_side [OF jr_client(2)] jr_client(3,4) by simp
next
  case (jr_server s t)
  note R = json_reach_sides [OF jr_server(1)]
  have b: "cl_ncalls (jn_client s) < 2 ^ 64"
    using json_server_side_client [OF jr_server(2)] jr_server(4) by simp
  note I = jr_server(3) [OF b]
  show ?case
    by (rule json_inv_server_side [OF jr_server(2) I])
       (use R serve_invD json_inv_bounded(3) [OF I _ b] in blast)+
qed

lemma json_reach_linked:
  assumes "json_reach rty fmt p s" "cl_ncalls (jn_client s) < 2 ^ 64"
  shows "linked json_args (json_replies rty) (default_server p) (json_link s)"
proof -
  note I = json_invD [OF json_reach_inv [OF assms]]
  have R: "client_reach (jn_client s)" "conn_inv (so_conn (jn_serve s))" "inv_loop (jn_serve s)"
    using json_reach_sides [OF assms(1)] serve_invD by blast+
  have a: "answers_written (json_link s)"
    using inv_wire_entry [OF conn_invD(4) [OF R(2)]]
    by (fastforce simp: answers_written_def json_written own_answer)
  have "cn_njobs (so_conn (jn_serve s)) \<le> length (jn_read s)"
    using known_jobs(2) [OF I(1) R(3)] by (meson not_le_imp_less order_less_irrefl)
  then show ?thesis using I(3) R(1) a by (simp add: linked_def)
qed

end
