(* ===== verification/JsonNetworkProps.thy ===== *)
theory JsonNetworkProps
  imports JsonNetworkInv
begin

text \<open>
  Calls over JSON-RPC: what one that returned nil has had done, and what the cancellation of one does when
  the server's numbers are not the client's.
\<close>

section \<open>Positions and numbers\<close>

text \<open>In a rising sequence of positive numbers, place \<open>j\<close> holds \<open>j + 1\<close> if no number up to there is left out.\<close>

lemma strictly_gap:
  fixes xs :: "u64 list"
  assumes "sorted_wrt (<) xs" "i + d < length xs"
  shows "unat (xs ! i) + d \<le> unat (xs ! (i + d))"
  using assms(2)
proof (induction d)
  case (Suc d)
  have "xs ! (i + d) < xs ! (i + Suc d)" by (rule sorted_wrt_nth_less [OF assms(1)]) (use Suc.prems in simp_all)
  then show ?case using Suc by (simp add: word_less_nat_alt)
qed simp

lemma strictly_exact:
  fixes xs :: "u64 list"
  assumes s: "sorted_wrt (<) xs" "0 \<notin> set xs" and j: "j < length xs"
  shows "xs ! j = number_of j \<longleftrightarrow> (\<forall>n. 0 < n \<and> n \<le> number_of j \<longrightarrow> n \<in> set xs)"
proof
  have u: "unat (number_of i) = Suc i" if "i \<le> j" for i
    by (rule unat_number) (use strictly_bounded [OF s] j that in linarith)
  assume e: "xs ! j = number_of j"
  show "\<forall>n. 0 < n \<and> n \<le> number_of j \<longrightarrow> n \<in> set xs"
  proof (intro allI impI)
    fix n :: u64 assume n: "0 < n \<and> n \<le> number_of j"
    then obtain i where i: "unat n = Suc i" by (cases "unat n") (auto simp: unat_eq_zero word_less_nat_alt)
    then have "i \<le> j" using n u [of j] by (simp add: word_le_nat_alt)
    then have "unat (xs ! i) + (j - i) \<le> Suc j"
      using strictly_gap [OF s(1), of i "j - i"] j e u [of j] by simp
    then have "unat (xs ! i) = unat n" using strictly_counts [OF s, of i] \<open>i \<le> j\<close> j i by simp
    then show "n \<in> set xs" using \<open>i \<le> j\<close> j nth_mem [of i xs] by (simp add: word_unat_eq_iff [symmetric])
  qed
next
  have u: "unat (number_of i) = Suc i" if "i \<le> j" for i
    by (rule unat_number) (use strictly_bounded [OF s] j that in linarith)
  assume all: "\<forall>n. 0 < n \<and> n \<le> number_of j \<longrightarrow> n \<in> set xs"
  have "xs ! i = number_of i" if "i \<le> j" for i
    using that
  proof (induction i rule: less_induct)
    case (less i)
    have "0 < number_of i" "number_of i \<le> number_of j"
      using u less.prems by (simp_all add: word_less_nat_alt word_le_nat_alt)
    then obtain l where l: "l < length xs" "xs ! l = number_of i" using all by (auto simp: in_set_conv_nth)
    have "l \<le> i" using strictly_counts [OF s l(1)] l(2) u [OF less.prems] by simp
    moreover have "l \<noteq> i \<Longrightarrow> False"
      using less.IH [of l] \<open>l \<le> i\<close> less.prems l(2) u [of l] u [of i] by simp
    ultimately show ?case using l(2) by blast
  qed
  then show "xs ! j = number_of j" by simp
qed


section \<open>Concrete runs\<close>

text \<open>Steps on a connection that does not fail; \<open>JRefused k\<close>: the encoder refuses the arguments of call \<open>k\<close>.\<close>

datatype jact =
    JClient act
  | JSend nat
  | JRefused nat
  | JHeader
  | JBody
  | JServe sact
  | JWrite nat
  | JReadHeader
  | JReadBody

fun jact_step :: "(nat \<Rightarrow> gotype option) \<Rightarrow> jact \<Rightarrow> json_net \<Rightarrow> json_net option" where
  "jact_step rty (JClient a) s =
     (if quiet_act a then map_option (\<lambda>c. s\<lparr>jn_client := c\<rparr>) (act_step a (jn_client s)) else None)"
| "jact_step rty (JSend k) s =
     (if 0 < jc_closes (jn_cc s) then None
      else case jclient_write_request None (cl_request (jn_client s)) (c_args (cl_calls (jn_client s) k)) (jn_cc s) of
        (r, cc) \<Rightarrow> map_option (\<lambda>c. put_request True (cl_request (jn_client s)) (c_args (cl_calls (jn_client s) k))
                     (s\<lparr>jn_client := c, jn_cc := cc\<rparr>)) (send_write r k (jn_client s)))"
| "jact_step rty (JRefused k) s =
     (let e = ErrorString ''json: unsupported value'' in
      case jclient_write_request (Some e) (cl_request (jn_client s)) (c_args (cl_calls (jn_client s) k)) (jn_cc s) of
        (r, cc) \<Rightarrow> map_option (\<lambda>c. put_request False (cl_request (jn_client s)) (c_args (cl_calls (jn_client s) k))
                     (s\<lparr>jn_client := c, jn_cc := cc\<rparr>)) (send_write r k (jn_client s)))"
| "jact_step rty JHeader s =
     (if ji_msgs (jc_dec (jn_cc s)) = [] then None
      else case jclient_read_header (\<lambda>_. ''<nil>'') (jn_cc s) of
        (h, cc) \<Rightarrow> map_option (\<lambda>c. got_response (s\<lparr>jn_client := c, jn_cc := cc\<rparr>)) (input_header h (jn_client s)))"
| "jact_step rty JBody s =
     (case jclient_read_body (reply_target rty (cl_reader (jn_client s))) (jn_cc s) of
        Ok v \<Rightarrow> map_option (\<lambda>c. s\<lparr>jn_client := c\<rparr>) (input_body (Inr v) (jn_client s))
      | Fail e \<Rightarrow> map_option (\<lambda>c. s\<lparr>jn_client := c\<rparr>) (input_body (Inl e) (jn_client s))
      | Panic \<Rightarrow> None)"
| "jact_step rty (JServe a) s =
     (if codec_act a then map_option (\<lambda>t. s\<lparr>jn_serve := t\<rparr>) (sact_step a (jn_serve s)) else None)"
| "jact_step rty (JWrite j) s =
     (case j_pc (cn_jobs (so_conn (jn_serve s)) j) of
        JWriting a body \<Rightarrow>
          (case ids_take (resp_seq (resp_obj (cn_server (so_conn (jn_serve s))) a)) (js_ids (jn_sc s)) of
             None \<Rightarrow> None
           | Some (raw, t) \<Rightarrow>
               if 0 < js_closes (jn_sc s) then None
               else (case jserver_write_response None (resp_obj (cn_server (so_conn (jn_serve s))) a) body (jn_sc s) of
                  (r, sc) \<Rightarrow>
                    map_option (\<lambda>c. put_response True raw (resp_obj (cn_server (so_conn (jn_serve s))) a) body
                        ((on_json_conn c s)\<lparr>jn_sc := sc\<rparr>)) (job_write j (so_conn (jn_serve s)))))
      | _ \<Rightarrow> None)"
| "jact_step rty JReadHeader s =
     (if ji_msgs (js_dec (jn_sc s)) = [] then None
      else case jserver_read_header (jn_sc s) of
        (Inr q, sc) \<Rightarrow> map_option (\<lambda>t. got_request (req_seq q) (s\<lparr>jn_serve := t, jn_sc := sc\<rparr>)) (serve_header (Inr q) (jn_serve s))
      | _ \<Rightarrow> None)"
| "jact_step rty JReadBody s =
     (case so_loop (jn_serve s) of
        LBody found \<Rightarrow>
          (case jserver_read_body (body_target found) (jn_sc s) of
             (b, sc) \<Rightarrow> map_option (\<lambda>t. s\<lparr>jn_serve := t, jn_sc := sc\<rparr>) (serve_body b (jn_serve s)))
      | _ \<Rightarrow> None)"

fun jact_run :: "(nat \<Rightarrow> gotype option) \<Rightarrow> jact list \<Rightarrow> json_net \<Rightarrow> json_net option" where
  "jact_run rty [] s = Some s"
| "jact_run rty (a # as) s = (case jact_step rty a s of None \<Rightarrow> None | Some t \<Rightarrow> jact_run rty as t)"

lemma jact_serve_sound:
  assumes "sact_step a (jn_serve s) = Some t" "codec_act a"
  shows "json_server_side s (s\<lparr>jn_serve := t\<rparr>)"
proof (cases a)
  case (SJob d)
  with assms obtain c where "job_step (so_conn (jn_serve s)) c" "s\<lparr>jn_serve := t\<rparr> = on_json_conn c s"
      "cn_wire c = cn_wire (so_conn (jn_serve s))"
    by (auto simp: on_json_conn_def dest: cact_step_job cact_step_wire split: if_splits)
  then show ?thesis by (auto intro: jns_job)
qed (use assms in \<open>auto intro: json_server_side.intros\<close>)

lemma jact_step_sound:
  "jact_step rty a s = Some t \<Longrightarrow> json_client_side rty (\<lambda>_. ''<nil>'') s t \<or> json_server_side s t"
proof (cases a)
  case (JClient b)
  assume "jact_step rty a s = Some t"
  with JClient show ?thesis by (auto dest: act_step_caller act_step_sent intro: jnc_caller split: if_splits)
next
  case (JServe b)
  assume "jact_step rty a s = Some t"
  with JServe show ?thesis by (auto dest: jact_serve_sound split: if_splits)
next
  case (JSend k)
  assume "jact_step rty a s = Some t"
  with JSend show ?thesis by (auto intro!: jnc_send dest: jclient_frames(2) split: if_splits prod.splits)
next
  case (JRefused k)
  assume "jact_step rty a s = Some t"
  with JRefused show ?thesis by (auto intro!: jnc_send simp: Let_def dest: jclient_frames(2) split: if_splits prod.splits)
next
  case (JWrite j)
  assume "jact_step rty a s = Some t"
  with JWrite show ?thesis by (auto intro: jns_write split: job_pc.splits if_splits prod.splits option.splits)
qed (auto intro: json_client_side.intros json_server_side.intros
       split: prod.splits if_splits loop_pc.splits sum.splits outcome.splits)

lemma jact_run_reach:
  "json_reach rty (\<lambda>_. ''<nil>'') p s \<Longrightarrow> jact_run rty as s = Some t \<Longrightarrow> json_reach rty (\<lambda>_. ''<nil>'') p t"
  by (induction as arbitrary: s)
     (auto split: option.splits dest!: jact_step_sound intro: jr_client jr_server)

definition arith_package :: rpc_package where
  "arith_package = init_package\<lparr>pk_servers := (\<lambda>_. new_basic_server
     \<lparr>bs_services := (bs_services new_basic_server)(''Arith'' \<mapsto> arith_service)\<rparr>)\<rparr>"

definition new_arith_json :: json_net where
  "new_arith_json = new_json_net arith_package {} {} fresh_store EOF EOF"

lemma default_arith:
  "default_server arith_package = \<lparr>bs_services =
     [''_goRPC_'' \<mapsto> \<lparr>sv_name = ''_goRPC_'', sv_rcvr = VPtr (VStruct ''GoRPC'' []), sv_typ = gorpc_type,
        sv_methods = [''Cancel'' \<mapsto> method_entry gorpc_cancel_method]\<rparr>, ''Arith'' \<mapsto> arith_service],
     bs_reqs = new_pool zero_request, bs_resps = new_pool zero_response\<rparr>"
  by (cases new_basic_server) (use new_basic_server_services in \<open>simp add: default_server_def arith_package_def\<close>)

lemma new_arith_json_reach: "json_reach rty fmt arith_package new_arith_json"
proof -
  have "ready_server (default_server arith_package) {} {} background fresh_store"
    using ready_arith by (simp add: ready_server_def reqs.safe_def resps.safe_def default_arith arith_server_def empty_server_def)
  then show ?thesis
    unfolding new_arith_json_def
    by (rule jr_new) (simp add: fresh_store_def root_ctxs_def ctx_err_def background_def)
qed

definition add_args :: goval where
  "add_args = VPtr (VStruct ''Args'' [(''A'', VInt 7)])"

definition json_int_reply :: "nat \<Rightarrow> gotype option" where
  "json_int_reply c = Some (TBasic ''int'')"

definition json_call_run :: "jact list" where
  "json_call_run =
     [JClient (ACall ''Arith.Add'' add_args (Some (VInt 0))), JClient (AEnter 0), JSend 0,
      JServe SGet, JReadHeader, JReadBody] @
     map (JServe \<circ> SJob) [CStart 0, CReturn (VPtr (VInt 15)) None 0, CPrepare 0, CLock 0] @
     [JWrite 0, JHeader, JBody, JClient (AReceive 0)]"

lemmas json_net_eval [run_eval] = new_json_net_def json_new_client_def new_client_with_codec_def
  json_serve_conn_def pkg_serve_codec_def default_arith new_json_server_def new_json_client_def new_ids_def
  json_feed_def put_request_def put_response_def got_request_def got_response_def on_json_conn_def
  jclient_write_request_def jclient_read_header_def jclient_read_body_def jserver_read_header_def
  jserver_read_body_def jserver_write_response_def request_message_def response_message_def dec_next_def
  members_of_def field_string_def field_u64_def field_raw_def matching_def ids_new_def ids_take_def
  read_params_def decode_params_def read_result_def response_error_def reply_target_def body_target_def
  basic_from_json_def to_u64_def

lemma json_call_run_ends:
  "\<exists>s. jact_run json_int_reply json_call_run new_arith_json = Some s \<and> cl_ncalls (jn_client s) = 1 \<and>
     cl_caller (jn_client s) 0 = Some (CDone None) \<and> c_reply (cl_calls (jn_client s) 0) = Some (VInt 15)"
  by (simp add: json_call_run_def new_arith_json_def json_int_reply_def add_args_def run_eval
      cancel_func_def is_exported_def lower_char_def)

text \<open>
  The encoder refuses the arguments of call 0, calls 1 and 2 are running, and the context of call 1 ends:
  its cancellation has been read, and its method is running.
\<close>

definition add_call_sent :: "nat \<Rightarrow> jact \<Rightarrow> jact list" where
  "add_call_sent k a = [JClient (ACall ''Arith.Add'' add_args (Some (VInt 0))), JClient (AEnter k), a]"

definition served_start :: "nat \<Rightarrow> jact list" where
  "served_start j = [JServe SGet, JReadHeader, JReadBody, JServe (SJob (CStart j))]"

definition mistaken_run :: "jact list" where
  "mistaken_run =
     add_call_sent 0 (JRefused 0) @ [JClient (AUnregister 0)] @ add_call_sent 1 (JSend 1) @
     add_call_sent 2 (JSend 2) @ served_start 0 @ served_start 1 @
     [JClient (ACtx Canceled 1), JClient (AEnter 3), JSend 3] @ served_start 2"

lemma mistaken_run_ends:
  "\<exists>s. jact_run json_int_reply mistaken_run new_arith_json = Some s \<and> cl_ncalls (jn_client s) = 4 \<and>
     cl_registered (jn_client s) = [0, 1, 2, 3] \<and> c_seq (cl_calls (jn_client s) 1) = 2 \<and>
     c_seq (cl_calls (jn_client s) 2) = 3 \<and> map (req_seq \<circ> fst) (jn_read s) = [2, 3, 4] \<and>
     cn_njobs (so_conn (jn_serve s)) = 3 \<and> j_pc (cn_jobs (so_conn (jn_serve s)) 1) = JRun 4 \<and>
     j_pc (cn_jobs (so_conn (jn_serve s)) 2) = JRun 5 \<and> req_seq (j_head (cn_jobs (so_conn (jn_serve s)) 1)) = 2 \<and>
     j_kind (cn_jobs (so_conn (jn_serve s)) 2) =
       JCall \<lparr>sv_name = ''_goRPC_'', sv_rcvr = VPtr (VStruct ''GoRPC'' []), sv_typ = gorpc_type,
           sv_methods = [''Cancel'' \<mapsto> method_entry gorpc_cancel_method]\<rparr> (method_entry gorpc_cancel_method)
         (VPtr (VStruct ''CancelArgs'' [(''Seq'', VUint 2), (''pending'', VNil)])) \<and>
     ctx_err (conn_ctxs (so_conn (jn_serve s))) 4 = None"
  by (simp add: mistaken_run_def add_call_sent_def served_start_def new_arith_json_def json_int_reply_def add_args_def run_eval
      cancel_func_def is_exported_def lower_char_def cancel_method_def cancel_args_def gorpc_cancel_method_def
      cancel_args_type_def ctx_err_def)

lemma mistaken_run_reach:
  obtains s where "json_reach json_int_reply (\<lambda>_. ''<nil>'') arith_package s" "cl_ncalls (jn_client s) = 4"
    "cl_registered (jn_client s) = [0, 1, 2, 3]" "c_seq (cl_calls (jn_client s) 1) = 2"
    "c_seq (cl_calls (jn_client s) 2) = 3" "map (req_seq \<circ> fst) (jn_read s) = [2, 3, 4]"
    "cn_njobs (so_conn (jn_serve s)) = 3" "j_pc (cn_jobs (so_conn (jn_serve s)) 1) = JRun 4"
    "j_pc (cn_jobs (so_conn (jn_serve s)) 2) = JRun 5" "req_seq (j_head (cn_jobs (so_conn (jn_serve s)) 1)) = 2"
    "j_kind (cn_jobs (so_conn (jn_serve s)) 2) =
       JCall \<lparr>sv_name = ''_goRPC_'', sv_rcvr = VPtr (VStruct ''GoRPC'' []), sv_typ = gorpc_type,
           sv_methods = [''Cancel'' \<mapsto> method_entry gorpc_cancel_method]\<rparr> (method_entry gorpc_cancel_method)
         (VPtr (VStruct ''CancelArgs'' [(''Seq'', VUint 2), (''pending'', VNil)]))"
    "ctx_err (conn_ctxs (so_conn (jn_serve s))) 4 = None"
  using mistaken_run_ends jact_run_reach [OF new_arith_json_reach] by (elim exE conjE) (rule that)


section \<open>Properties\<close>

lemma json_decoded:
  "plain t \<Longrightarrow> value_ok t a \<Longrightarrow> denotes x a \<Longrightarrow> json_args (Some t) x = Inr a"
  "plain t \<Longrightarrow> value_ok t a \<Longrightarrow> denotes x a \<Longrightarrow> to_json x \<noteq> JNull \<Longrightarrow> from_json t (to_json x) = Inr a"
  using params_round_trip json_round_trip by (simp_all add: json_args_def read_params_def denotes_json)

lemma json_repliesE:
  assumes "json_replies rty c x = Inr v" "rty c = Some t"
  obtains "to_json x \<noteq> JNull" "from_json t (to_json x) = Inr v"
  using assms by (auto simp: json_replies_def read_result_def split: if_splits outcome.splits sum.splits)



text \<open>
  C16: over JSON-RPC a cancellation goes by position. \<open>_goRPC_.Cancel\<close> carries the client's number of the
  call that is cancelled, and the server looks it up among the numbers it has given to the requests in
  the order they came. So the context it ends is that of the request which has this number there, and that
  is a request of the cancelled call only if every number the client has used up to it came to the server;
  when one of them was not sent, because the encoder refused it, it is the request of a later call.
\<close>

theorem json_cancel_goes_by_position:
  assumes "json_reach rty fmt p s" and "cl_ncalls (jn_client s) < 2 ^ 64" and "c \<in> set (cl_registered (jn_client s))"
    and "k < cn_njobs (so_conn (jn_serve s))" and "j_kind (cn_jobs (so_conn (jn_serve s)) k) = JCall sv mt argv"
    and "gm_func (mt_method mt) = cancel_func" and "sv_name sv = ''_goRPC_''"
    and "ca_seq (cancel_req_of argv) = c_seq (cl_calls (jn_client s) c)" and "job_return r e k (so_conn (jn_serve s)) = Some t"
    and "j < cn_njobs (so_conn (jn_serve s))" and "j_pc (cn_jobs (so_conn (jn_serve s)) j) = JRun i"
    and "req_seq (j_head (cn_jobs (so_conn (jn_serve s)) j)) = c_seq (cl_calls (jn_client s) c)"
  shows "ctx_err (conn_ctxs t) i \<noteq> None \<and>
    (\<exists>c' \<in> set (cl_registered (jn_client s)). is_request_of (jn_client s) (jn_read s ! j) c' \<and>
       c_seq (cl_calls (jn_client s) c) \<le> c_seq (cl_calls (jn_client s) c') \<and>
       (c' = c \<longleftrightarrow> (\<forall>n. 0 < n \<and> n \<le> c_seq (cl_calls (jn_client s) c) \<longrightarrow> n \<in> (req_seq \<circ> fst) ` set (jn_read s))))"
proof -
  let ?conn = "so_conn (jn_serve s)"
  note I = json_reach_inv [OF assms(1,2)]
  have R: "client_reach (jn_client s)" "inv_loop (jn_serve s)" "conn_inv ?conn"
    using json_reach_sides [OF assms(1)] serve_invD by blast+
  note n = known_jobs [OF json_invD(1) [OF I] R(2)] and B = json_inv_bounded [OF I R(1) assms(2)]
  let ?xs = "map (req_seq \<circ> fst) (jn_read s)"
  have xs: "sorted_wrt (<) ?xs" "0 \<notin> set ?xs" "length (jn_read s) < 2 ^ 64"
    using B by (simp_all add: sorted_wrt_append)
  have "l = l'" if "l < cn_njobs ?conn" "l' < cn_njobs ?conn" "req_seq (j_head (cn_jobs ?conn l)) = req_seq (j_head (cn_jobs ?conn l'))" for l l'
    using number_inj [of l l'] n [OF that(1)] n [OF that(2)] that(3) xs(3) by simp
  then have "numbers_distinct ?conn" by (auto simp: numbers_distinct_def inj_on_def)
  moreover have "cn_store t = pend_cancel (cn_pend ?conn) (req_seq (j_head (cn_jobs ?conn j))) (cn_store ?conn)"
    using assms(9) by (rule job_returnE) (use assms(5-8,12) in simp_all)
  ultimately have "ctx_err (conn_ctxs t) i \<noteq> None"
    by (intro cancel_ends_running [OF R(3) cs_return [OF assms(9)] _ assms(10,11)])
  moreover obtain c' where c': "c' \<in> set (cl_registered (jn_client s))" "is_request_of (jn_client s) (jn_read s ! j) c'"
    using net_job_call [OF json_invD(3) [OF I], of j] linkedD(4) [OF json_reach_linked [OF assms(1,2)]]
      reach_wire [OF R(1) assms(2)] assms(10) by auto
  moreover have num: "c_seq (cl_calls (jn_client s) c') = ?xs ! j" "c_seq (cl_calls (jn_client s) c) = number_of j"
    using c'(2) n [OF assms(10)] assms(12) by (simp_all add: is_request_of_def)
  moreover have "number_of j \<le> ?xs ! j"
    using strictly_counts [OF xs(1,2), of j] n(2) [OF assms(10)] unat_number [of j] xs(3)
    by (simp add: word_le_nat_alt)
  moreover have "c' = c \<longleftrightarrow> ?xs ! j = number_of j"
    using inv_seq_inj [OF reach_seq [OF R(1) assms(2)] _ c'(1) assms(3)] num assms(2) by (auto simp: bounded_def)
  ultimately show ?thesis
    using strictly_exact [OF xs(1,2), of j] n(2) [OF assms(10)] by (intro conjI bexI [of _ c']) simp_all
qed

theorem json_cancel_goes_by_position_witness:
  "\<exists>s t. json_reach json_int_reply (\<lambda>_. ''<nil>'') arith_package s \<and>
     job_return VNil None 2 (so_conn (jn_serve s)) = Some t \<and>
     c_seq (cl_calls (jn_client s) 1) = 2 \<and> is_request_of (jn_client s) (jn_read s ! 1) 2 \<and>
     j_pc (cn_jobs (so_conn (jn_serve s)) 1) = JRun 4 \<and> ctx_err (conn_ctxs (so_conn (jn_serve s))) 4 = None \<and>
     ctx_err (conn_ctxs t) 4 \<noteq> None"
proof -
  obtain s where s: "json_reach json_int_reply (\<lambda>_. ''<nil>'') arith_package s" "cl_ncalls (jn_client s) = 4"
    "cl_registered (jn_client s) = [0, 1, 2, 3]" "c_seq (cl_calls (jn_client s) 1) = 2"
    "c_seq (cl_calls (jn_client s) 2) = 3" "map (req_seq \<circ> fst) (jn_read s) = [2, 3, 4]"
    "cn_njobs (so_conn (jn_serve s)) = 3" "j_pc (cn_jobs (so_conn (jn_serve s)) 1) = JRun 4"
    "j_pc (cn_jobs (so_conn (jn_serve s)) 2) = JRun 5" "req_seq (j_head (cn_jobs (so_conn (jn_serve s)) 1)) = 2"
    and k: "j_kind (cn_jobs (so_conn (jn_serve s)) 2) =
       JCall \<lparr>sv_name = ''_goRPC_'', sv_rcvr = VPtr (VStruct ''GoRPC'' []), sv_typ = gorpc_type,
           sv_methods = [''Cancel'' \<mapsto> method_entry gorpc_cancel_method]\<rparr> (method_entry gorpc_cancel_method)
         (VPtr (VStruct ''CancelArgs'' [(''Seq'', VUint 2), (''pending'', VNil)]))"
    and e: "ctx_err (conn_ctxs (so_conn (jn_serve s))) 4 = None" by (rule mistaken_run_reach)
  have "\<exists>t. job_return VNil None 2 (so_conn (jn_serve s)) = Some t"
    using s(7,9) k by (simp add: job_return_def method_entry_def gorpc_cancel_method_def call_cancel_def
        gorpc_cancel_def set_pending_def Let_def)
  then obtain t where t: "job_return VNil None 2 (so_conn (jn_serve s)) = Some t" ..
  have b: "cl_ncalls (jn_client s) < 2 ^ 64" and "1 \<in> set (cl_registered (jn_client s))" "2 < cn_njobs (so_conn (jn_serve s))"
    "1 < cn_njobs (so_conn (jn_serve s))" using s(2,3,7) by simp_all
  moreover have "gm_func (mt_method (method_entry gorpc_cancel_method)) = cancel_func"
    "ca_seq (cancel_req_of (VPtr (VStruct ''CancelArgs'' [(''Seq'', VUint 2), (''pending'', VNil)]))) = c_seq (cl_calls (jn_client s) 1)"
    "req_seq (j_head (cn_jobs (so_conn (jn_serve s)) 1)) = c_seq (cl_calls (jn_client s) 1)"
    using s(4,10) by (simp_all add: method_entry_def gorpc_cancel_method_def cancel_req_of_def)
  ultimately obtain c' where c': "ctx_err (conn_ctxs t) 4 \<noteq> None" "c' \<in> set (cl_registered (jn_client s))"
      "is_request_of (jn_client s) (jn_read s ! 1) c'"
    using json_cancel_goes_by_position [OF s(1) _ _ _ k _ _ _ t, of 1 1 4] s(8) by auto
  have "length (jn_read s) = 3" using arg_cong [OF s(6), of length] by simp
  then have "c_seq (cl_calls (jn_client s) c') = c_seq (cl_calls (jn_client s) 2)"
    using arg_cong [OF s(6), of "\<lambda>xs. xs ! 1"] c'(3) s(5) by (simp add: is_request_of_def)
  moreover have "client_reach (jn_client s)" using json_reach_sides [OF s(1)] by simp
  ultimately have "c' = 2"
    using inv_seq_inj [OF reach_seq _ c'(2), of 2] b s(3) by (simp add: bounded_def)
  then show ?thesis using s t e c' by blast
qed

end
