(* ===== verification/Spec2Isabelle.thy ===== *)
theory Spec2Isabelle
  imports NetworkLive GobNetworkProps BirpcNetworkProps JsonNetworkProps Package
begin

text \<open>
  A verification development for birpc, a Go library for remote procedure calls over one connection. It is
  net/rpc with contexts: a \<open>Call\<close> takes a context, its end is sent to the server as a call of
  \<open>_goRPC_.Cancel\<close>, and a method receives a context of its own. It adds connections whose two ends both
  call and serve.

  Parts of the program and theories of the development.

  A client (basic_client.go, client.go) numbers its calls, keeps those without a reply in \<open>pending\<close>, writes
  requests under \<open>reqMutex\<close>, and has one goroutine, \<open>input\<close>, that reads responses and completes calls
  through their \<open>Done\<close> channels. Theory BasicClient has the state (record \<open>client\<close>) and \<open>send\<close>, \<open>Go\<close>,
  \<open>Call\<close>, \<open>Close\<close> and \<open>done\<close>, cut at their critical sections (\<open>send_enter\<close>, \<open>send_write\<close>,
  \<open>send_unregister\<close>, \<open>client_go\<close>, \<open>client_call\<close>, \<open>call_receive\<close>, \<open>call_ctx_done\<close>, \<open>call_cancel_sent\<close>,
  \<open>client_close\<close>, \<open>call_done\<close>); theory Client has \<open>input\<close> (\<open>input_header\<close>, \<open>input_body\<close>, \<open>input_terminate\<close>)
  and the step relation \<open>client_step\<close>. ClientInv, ClientDone and ClientChan hold one invariant per concern
  (allocation, the mutex, numbering; completion; channels), ClientProps where results come from and the
  properties of every reachable state.

  A server (server.go, basic_server.go, service.go, internal/svc) looks up the method a request names,
  decodes its arguments and runs it in a goroutine of its own. GoContext models the contexts (a heap of
  standard contexts and the library's pair of a context and a connection), Svc the map from the numbers
  being served to their cancel functions and \<open>_goRPC_.Cancel\<close>, Service reflection over a receiver's methods
  (\<open>suitable_methods\<close>, \<open>new_service\<close>, \<open>service_call\<close>, \<open>get_argv\<close>, \<open>get_replyv\<close>), Pool the free lists of header
  objects, BasicServer the registry, the lookup \<open>get_service\<close> and the response. Handlers models the
  requests being served as jobs, each at a program counter of \<open>service.call\<close> and \<open>sendResponse\<close>; a connection
  (record \<open>conn\<close>) shares the registry and the free lists with other connections, whose steps are part of
  the model. HandlersInv, HandlersCtx and HandlersProps show that header objects are never shared, that
  each response is the answer to its own request, and what ends a running method's context. Server adds
  the loop of \<open>ServeCodec\<close> and \<open>ServeRequestContext\<close> (record \<open>serve\<close>), ServerInv and ServerProps what holds
  of it from the first header to the closed codec.

  A bidirectional connection (birpc_client.go, birpc_server.go) is BirpcClient (record \<open>birpc\<close>, a client and
  a connection that serves, one loop that reads for both, one mutex both write under), BirpcInv its
  projections to its halves and its invariants, BirpcProps their consequences. BirpcServer is \<open>ServeCodec\<close> of
  \<open>BirpcServer\<close> with its connection events.

  The codecs translate headers and bodies. Gob and GobCodec are codec.go and birpc_codec.go over streams
  of gob messages and a buffered writer; Json and JsonCodec are the three files of jsonrpc over streams of
  JSON values. GobProps and JsonProps show what survives the wire and what does not.

  Network puts a client and a server on the two ends of a connection: what one reads is what the other
  wrote, whole and in order; a write that fails may have transmitted its message (\<open>nc_torn\<close>) or not
  (\<open>nc_refused\<close>). NetworkProps shows what a \<open>Call\<close> that returned nil has had done for it, NetworkLive that a
  call completes when the connection carries what is written. GobNetwork puts the gob codecs between the
  two ends, down to the buffered writers and the message streams; GobNetworkProps shows that this connection
  is one of Network, and carries the end-to-end property over to it. BirpcNetwork puts two bidirectional
  clients on one connection, each a client and a server of the other; BirpcNetworkProps shows that each
  direction of it has the invariants of Network (\<open>linked\<close>), and so the same end-to-end property. JsonNetwork
  is the connection of \<open>jsonrpc.NewClient\<close> and \<open>jsonrpc.ServeConn\<close>, where the server's codec numbers the
  requests itself; JsonNetworkInv shows that, in the client's numbers (\<open>json_link\<close>), it has the invariants of
  Network too, and JsonNetworkProps what follows for a call and for its cancellation. Dial is the HTTP
  handshake and the accept loops, Package the constructors of the library, its functions on \<open>DefaultServer\<close> and
  \<open>HandleHTTP\<close>. Prelude has the shared values: sequence numbers, errors, Go values, headers.

  Interfaces. The locales state what a component relies on, and each is interpreted on the model's own
  definitions: \<open>registry\<close> (a map of services under their names, by \<open>services\<close>), \<open>object_pool\<close> (a free list
  hands out objects nobody holds, by \<open>reqs\<close> and \<open>resps\<close>), \<open>numbering_codec\<close> (a codec that gives its own
  numbers to requests and keeps their ids, by \<open>jserver\<close> and \<open>jbirpc\<close>).

  How the code is read. Goroutines interleave between operations, at the places where the mutexes of the
  source let them: an operation is one critical section, one channel operation or one call of a codec. An
  operation returns \<open>None\<close> when it cannot take place in the state. What the other end, the connection, the
  user's methods and the scheduler do is an argument of the operation or a choice of the step relation, so
  that a property of the reachable states holds whatever they do. Errors are values of \<open>go_error\<close>; panics
  are outcomes of their own (\<open>cn_panic\<close>, \<open>Panic\<close>, \<open>None\<close> of \<open>client_go\<close>). Fields that end in a log (\<open>cl_tried\<close>,
  \<open>cl_sent\<close>, \<open>cl_signalled\<close>, \<open>cl_received\<close>, \<open>cn_wire\<close>, \<open>so_headers\<close>, ...) record events for the statements; no
  operation reads them.

  Bounds. Sequence numbers are 64-bit words that wrap around; properties of a client that depend on their
  being distinct assume fewer than 2^64 calls. The reading loop as a function, \<open>read_loop\<close>, is a partial
  function that is proved to return on every input that runs out. Buffers count bytes up to bufio's 4096.
  Runs that the witnesses evaluate are lists of operations (\<open>act_run\<close>, \<open>cact_run\<close>, \<open>sact_run\<close>,
  \<open>bact_run\<close>, \<open>nact_run\<close>, \<open>gact_run\<close>, \<open>jact_run\<close>, \<open>pact_run\<close>), so they need no fuel.

  Groups of properties. End to end: a successful call has run its method once, over
  any codec that keeps messages whole, over gob with its partial writes, over JSON-RPC and between two
  bidirectional clients, no call is executed twice, and a call that nothing interferes with completes. Client: completion happens at most once and is not lost, requests reach the wire in order and
  intact, a context that ends cancels its own call. Server: every request is answered before the codec is
  closed, responses answer their own requests, shutdown makes progress, cancellation reaches exactly the
  request it names, which over JSON-RPC need not be the one the client means. Bidirectional: refinement to a client and a server, notification of the end once and
  last, no deadlock at shutdown. Codecs: round trips, ids, and the messages that put a connection out of
  step or end it. Services and contexts: which methods are served, with which types, and what derived
  contexts inherit.

  Not modelled. The bytes of gob and JSON, the type definitions gob sends, Unicode case folding and
  reflection beyond what service.go asks of a type; encoding/gob, encoding/json, bufio, reflect, net and
  net/http are described as far as this code uses them, in Gob, Json, Service and Dial. The gob
  connection of GobNetwork has arguments that gob accepts; that a refused one leaves a header without its
  body behind is a property of GobProps. A value of JSON that is cut off in the middle of its writing is the
  end of the stream in JsonNetwork.
  The values behind reply pointers and channels are addresses of one client; user code is assumed not to
  write to a \<open>Call\<close> while it is pending. What
  net.Dial and a listener return are arguments of the functions that use them. The log lines of debug.go
  are left out.
  The event hub of BirpcServer is a library of its own, taken to start every subscribed function.
\<close>

end
